(* ===== verification/Prelude.thy ===== *)
theory Prelude
  imports Main "HOL-Library.Word" "HOL-Library.Multiset"
begin

unbundle bit_operations_syntax

text \<open>
  Shared vocabulary of the development: bytes and machine integers, the outcome of Go code that
  may panic, the errors the program returns, the big-endian integer codecs of
  \<^verbatim>\<open>encoding/binary\<close>, and the generic lemmas on lists, words and byte buffers that the
  component theories use.
\<close>

named_theorems codec_simps \<open>lengths and round trips of the byte codecs\<close>
named_theorems buf_simps \<open>reading and writing of byte buffers\<close>

section \<open>Bytes, machine integers, outcomes, errors\<close>

type_synonym byte = "8 word"
type_synonym bytes = "byte list"

text \<open>\<^verbatim>\<open>item.Off\<close> is an unsigned 64-bit integer.\<close>

type_synonym Off = "64 word"

text \<open>The value of a Go \<^verbatim>\<open>int64\<close> expression, with the wrap-around written out.\<close>

definition wrap64 :: "int \<Rightarrow> int" where
  "wrap64 x = (x + 2 ^ 63) mod 2 ^ 64 - 2 ^ 63"

lemma wrap64_id [simp]: "- (2 ^ 63) \<le> x \<Longrightarrow> x < 2 ^ 63 \<Longrightarrow> wrap64 x = x"
  by (simp add: wrap64_def)

lemma wrap64_range: "- (2 ^ 63) \<le> wrap64 x \<and> wrap64 x < 2 ^ 63"
proof -
  have "0 \<le> (x + 2 ^ 63) mod 2 ^ 64" and "(x + 2 ^ 63) mod 2 ^ 64 < (2 ^ 64 :: int)" by simp_all
  then show ?thesis by (simp add: wrap64_def)
qed

text \<open>Go code either returns a value or panics (an index out of range, a fault on mapped memory).\<close>

datatype 'a go = Ret 'a | Panic

primrec go_bind :: "'a go \<Rightarrow> ('a \<Rightarrow> 'b go) \<Rightarrow> 'b go" where
  "go_bind (Ret x) f = f x"
| "go_bind Panic f = Panic"

lemma go_bind_cong [fundef_cong]:
  "x = y \<Longrightarrow> (\<And>a. y = Ret a \<Longrightarrow> f a = g a) \<Longrightarrow> go_bind x f = go_bind y g"
  by (cases y) simp_all

lemma go_bind_eq_Ret: "go_bind x f = Ret y \<longleftrightarrow> (\<exists>a. x = Ret a \<and> f a = Ret y)"
  by (cases x) simp_all

text \<open>The errors the program returns, by what caused them.\<close>

datatype err =
    ErrSyntax string              \<comment> \<open>\<^verbatim>\<open>strconv.ErrSyntax\<close>\<close>
  | ErrRange string               \<comment> \<open>\<^verbatim>\<open>strconv.ErrRange\<close>\<close>
  | ErrAllocationTooBig           \<comment> \<open>vlog: allocation too big for one value\<close>
  | ErrBadOffset                  \<comment> \<open>vlog: bad offset (payload too big)\<close>
  | ErrMissingTrailer             \<comment> \<open>vlog: missing trailer\<close>
  | ErrUnexpectedEOF              \<comment> \<open>\<^verbatim>\<open>io.ErrUnexpectedEOF\<close>\<close>
  | ErrNotExist                   \<comment> \<open>\<^verbatim>\<open>os.ErrNotExist\<close>\<close>
  | ErrSys string                 \<comment> \<open>a failed system call, with the wrapping the code gives it\<close>
  | ErrClosed                     \<comment> \<open>\<^verbatim>\<open>os.ErrClosed\<close>\<close>
  | ErrXdev                       \<comment> \<open>\<^verbatim>\<open>syscall.EXDEV\<close>\<close>
  | ErrNoSuchFork
  | ErrChangedSplitFunc
  | ErrIterStop                   \<comment> \<open>the sentinel \<^verbatim>\<open>errIterStop\<close> of buckets.go\<close>
  | ErrInvalid string             \<comment> \<open>a failed validation\<close>
  | ErrPanic                      \<comment> \<open>a recovered panic (\<^verbatim>\<open>recoverMmapError\<close>)\<close>

section \<open>Byte buffers\<close>

text \<open>
  \<^verbatim>\<open>copy(buf[off:], bs)\<close> and the store of \<open>bs\<close> by \<^verbatim>\<open>PutUint32\<close> and its kin, when all of
  \<open>bs\<close> fits; \<open>Panic\<close> when the slice or the store is out of range.
\<close>

definition put_at :: "bytes \<Rightarrow> nat \<Rightarrow> bytes \<Rightarrow> bytes go" where
  "put_at buf off bs =
     (if off + length bs \<le> length buf
      then Ret (take off buf @ bs @ drop (off + length bs) buf) else Panic)"

text \<open>\<^verbatim>\<open>buf[off]\<close>\<close>

definition get_at :: "bytes \<Rightarrow> nat \<Rightarrow> byte go" where
  "get_at buf off = (if off < length buf then Ret (buf ! off) else Panic)"

text \<open>\<^verbatim>\<open>buf[lo:hi]\<close> (the capacity of the buffers sliced here is their length)\<close>

definition slice_at :: "bytes \<Rightarrow> nat \<Rightarrow> nat \<Rightarrow> bytes go" where
  "slice_at buf lo hi = (if lo \<le> hi \<and> hi \<le> length buf then Ret (take (hi - lo) (drop lo buf)) else Panic)"

lemma put_at_app [buf_simps]:
  "length p = off \<Longrightarrow> length bs \<le> length r \<Longrightarrow>
   put_at (p @ r) off bs = Ret (p @ bs @ drop (length bs) r)"
  by (simp add: put_at_def)

lemma put_at_length: "put_at buf off bs = Ret buf' \<Longrightarrow> length buf' = length buf"
  by (auto simp: put_at_def split: if_splits)

lemma put_at_take: "put_at buf off bs = Ret buf' \<Longrightarrow> take off buf' = take off buf"
  by (auto simp: put_at_def split: if_splits)

lemma slice_at_app [buf_simps]:
  "length p = lo \<Longrightarrow> hi = lo + length b \<Longrightarrow> slice_at (p @ b @ r) lo hi = Ret b"
  by (simp add: slice_at_def)

lemma slice_at_app0 [buf_simps]: "hi = length b \<Longrightarrow> slice_at (b @ r) 0 hi = Ret b"
  by (simp add: slice_at_def)

lemma get_at_app [buf_simps]: "length p = off \<Longrightarrow> get_at (p @ b # r) off = Ret b"
  by (auto simp: get_at_def)

section \<open>Big-endian integers (\<^verbatim>\<open>encoding/binary\<close>)\<close>

definition PutUint32 :: "32 word \<Rightarrow> bytes" where
  "PutUint32 v = [ucast (drop_bit 24 v), ucast (drop_bit 16 v), ucast (drop_bit 8 v), ucast v]"

definition PutUint64 :: "64 word \<Rightarrow> bytes" where
  "PutUint64 v =
     [ucast (drop_bit 56 v), ucast (drop_bit 48 v), ucast (drop_bit 40 v), ucast (drop_bit 32 v),
      ucast (drop_bit 24 v), ucast (drop_bit 16 v), ucast (drop_bit 8 v), ucast v]"

text \<open>The readers panic on a slice that is too short and ignore what follows.\<close>

definition Uint32 :: "bytes \<Rightarrow> 32 word go" where
  "Uint32 b =
     (if 4 \<le> length b
      then Ret (ucast (b ! 3) OR push_bit 8 (ucast (b ! 2)) OR push_bit 16 (ucast (b ! 1))
                OR push_bit 24 (ucast (b ! 0)))
      else Panic)"

definition Uint64 :: "bytes \<Rightarrow> 64 word go" where
  "Uint64 b =
     (if 8 \<le> length b
      then Ret (ucast (b ! 7) OR push_bit 8 (ucast (b ! 6)) OR push_bit 16 (ucast (b ! 5))
                OR push_bit 24 (ucast (b ! 4)) OR push_bit 32 (ucast (b ! 3))
                OR push_bit 40 (ucast (b ! 2)) OR push_bit 48 (ucast (b ! 1))
                OR push_bit 56 (ucast (b ! 0)))
      else Panic)"

lemma Uint32_Ret: "4 \<le> length b \<Longrightarrow> \<exists>v. Uint32 b = Ret v"
  by (simp add: Uint32_def)

lemma Uint64_Ret: "8 \<le> length b \<Longrightarrow> \<exists>v. Uint64 b = Ret v"
  by (simp add: Uint64_def)

lemma length_PutUint32 [simp, codec_simps]: "length (PutUint32 v) = 4"
  by (simp add: PutUint32_def)

lemma length_PutUint64 [simp, codec_simps]: "length (PutUint64 v) = 8"
  by (simp add: PutUint64_def)

text \<open>The byte of \<open>v\<close> at bit \<open>k\<close>, put back at bit \<open>k\<close>, is the window of \<open>v\<close> there.\<close>

lemma bit_byte_window:
  fixes v :: "'a::len word"
  shows "bit (push_bit k (ucast (ucast (drop_bit k v) :: byte)) :: 'a word) n \<longleftrightarrow>
         k \<le> n \<and> n < k + 8 \<and> bit v n"
  by (auto simp: bit_simps dest: bit_imp_le_length)

lemma bit_byte_window0:
  fixes v :: "'a::len word"
  shows "bit (ucast (ucast v :: byte) :: 'a word) n \<longleftrightarrow> n < 8 \<and> bit v n"
  by (auto simp: bit_simps dest: bit_imp_le_length)

lemma Uint32_PutUint32 [simp, codec_simps]: "Uint32 (PutUint32 v @ r) = Ret v"
proof -
  have "ucast (ucast v :: byte) OR push_bit 8 (ucast (ucast (drop_bit 8 v) :: byte))
      OR push_bit 16 (ucast (ucast (drop_bit 16 v) :: byte))
      OR push_bit 24 (ucast (ucast (drop_bit 24 v) :: byte)) = v"
    by (rule bit_word_eqI) (auto simp: bit_or_iff bit_byte_window bit_byte_window0)
  then show ?thesis by (simp add: Uint32_def PutUint32_def)
qed

lemma Uint64_PutUint64 [simp, codec_simps]: "Uint64 (PutUint64 v @ r) = Ret v"
proof -
  have "ucast (ucast v :: byte) OR push_bit 8 (ucast (ucast (drop_bit 8 v) :: byte))
      OR push_bit 16 (ucast (ucast (drop_bit 16 v) :: byte))
      OR push_bit 24 (ucast (ucast (drop_bit 24 v) :: byte))
      OR push_bit 32 (ucast (ucast (drop_bit 32 v) :: byte))
      OR push_bit 40 (ucast (ucast (drop_bit 40 v) :: byte))
      OR push_bit 48 (ucast (ucast (drop_bit 48 v) :: byte))
      OR push_bit 56 (ucast (ucast (drop_bit 56 v) :: byte)) = v"
    by (rule bit_word_eqI) (auto simp: bit_or_iff bit_byte_window bit_byte_window0)
  then show ?thesis by (simp add: Uint64_def PutUint64_def)
qed

section \<open>Words\<close>

lemma unat_inc: "(i :: 'a::len word) < j \<Longrightarrow> unat (i + 1) = Suc (unat i)"
proof -
  assume "i < j"
  moreover have "unat j < 2 ^ LENGTH('a)" by (rule unsigned_less)
  ultimately have "Suc (unat i) < 2 ^ LENGTH('a)" unfolding word_less_nat_alt by linarith
  then show ?thesis by (simp add: unat_word_ariths)
qed

lemma unat_add_lt: "unat (a :: 'a::len word) + unat b < 2 ^ LENGTH('a) \<Longrightarrow> unat (a + b) = unat a + unat b"
  by (simp add: unat_word_ariths)

lemma unat_of_nat64: "n < 2 ^ 64 \<Longrightarrow> unat (of_nat n :: 64 word) = n"
  by (simp add: unat_of_nat)

lemma sint_of_nat64: "n < 2 ^ 63 \<Longrightarrow> sint (of_nat n :: 64 word) = int n"
  by (simp add: signed_of_nat signed_take_bit_int_eq_self)

lemma unat_ucast_32_64 [simp]: "unat (ucast (w :: 32 word) :: 64 word) = unat w"
proof -
  have "unat w < 2 ^ 32" using unsigned_less [of w, where ?'a = nat] by simp
  then have "unat w < 2 ^ 64" by simp
  then show ?thesis by (simp add: unsigned_ucast_eq take_bit_nat_eq_self)
qed

end
