(* ===== verification/Item.thy ===== *)
theory Item
  imports Prelude "HOL-Library.Char_ord" "HOL-Library.List_Lexorder"
begin

text \<open>
  Package \<^verbatim>\<open>item\<close> (src/item/item.go): keys, items, locations, their sizes, copies and the
  textual form of a key that names a bucket directory. \<^verbatim>\<open>Key\<close> is an \<^verbatim>\<open>int64\<close>; it is kept as a
  64-bit word and ordered by its signed value.
\<close>

section \<open>Keys\<close>

datatype Key = Key (keyw: "64 word")

text \<open>The \<^verbatim>\<open>int64\<close> value of a key.\<close>

definition key_int :: "Key \<Rightarrow> int" where
  "key_int k = sint (keyw k)"

definition key_of_int :: "int \<Rightarrow> Key" where
  "key_of_int i = Key (word_of_int i)"

instantiation Key :: linorder
begin

definition less_eq_Key :: "Key \<Rightarrow> Key \<Rightarrow> bool" where
  "less_eq_Key a b \<longleftrightarrow> key_int a \<le> key_int b"

definition less_Key :: "Key \<Rightarrow> Key \<Rightarrow> bool" where
  "less_Key a b \<longleftrightarrow> key_int a < key_int b"

instance
proof
  fix x y z :: Key
  show "x < y \<longleftrightarrow> x \<le> y \<and> \<not> y \<le> x"
    by (auto simp: less_eq_Key_def less_Key_def)
  show "x \<le> x" by (simp add: less_eq_Key_def)
  show "x \<le> y \<Longrightarrow> y \<le> z \<Longrightarrow> x \<le> z" by (simp add: less_eq_Key_def)
  show "x \<le> y \<Longrightarrow> y \<le> x \<Longrightarrow> x = y"
    unfolding less_eq_Key_def key_int_def by (metis Key.expand antisym signed_word_eqI)
  show "x \<le> y \<or> y \<le> x" by (auto simp: less_eq_Key_def)
qed

end

lemmas key_order_simps = less_eq_Key_def less_Key_def

lemma key_int_range: "- (2 ^ 63) \<le> key_int k" "key_int k < 2 ^ 63"
  using sint_range_size [of "keyw k"] by (simp_all add: key_int_def word_size)

lemma key_of_int_key_int [simp]: "key_of_int (key_int k) = k"
  by (simp add: key_of_int_def key_int_def)

lemma key_int_of_int: "key_int (key_of_int i) = wrap64 i"
  by (simp add: key_of_int_def key_int_def wrap64_def int_word_sint)

lemma key_int_key_of_int [simp]:
  "- (2 ^ 63) \<le> i \<Longrightarrow> i < 2 ^ 63 \<Longrightarrow> key_int (key_of_int i) = i"
  by (simp add: key_int_of_int)

lemma key_int_inject [simp]: "key_int a = key_int b \<longleftrightarrow> a = b"
  by (metis key_of_int_key_int)

section \<open>Textual keys\<close>

text \<open>Decimal digits, as \<^verbatim>\<open>fmt\<close> prints them.\<close>

definition digit_char :: "nat \<Rightarrow> char" where
  "digit_char d = char_of (48 + d)"

fun show_nat :: "nat \<Rightarrow> string" where
  "show_nat n = (if n < 10 then [digit_char n] else show_nat (n div 10) @ [digit_char (n mod 10)])"

declare show_nat.simps [simp del]

definition zero_pad :: "nat \<Rightarrow> string \<Rightarrow> string" where
  "zero_pad w s = replicate (w - length s) (CHR ''0'') @ s"

text \<open>\<^verbatim>\<open>fmt.Sprintf("K%020d", int64(k))\<close>: the sign counts for the width of 20.\<close>

definition Key_String :: "Key \<Rightarrow> string" where
  "Key_String k =
     (if key_int k < 0 then ''K-'' @ zero_pad 19 (show_nat (nat (- key_int k)))
      else ''K'' @ zero_pad 20 (show_nat (nat (key_int k))))"

definition is_digit :: "char \<Rightarrow> bool" where
  "is_digit c \<longleftrightarrow> 48 \<le> (of_char c :: nat) \<and> (of_char c :: nat) \<le> 57"

text \<open>The digit loop of \<^verbatim>\<open>strconv.ParseUint(s, 10, 64)\<close>; \<open>s0\<close> is the text the error carries.\<close>

fun ParseUint_loop :: "string \<Rightarrow> string \<Rightarrow> nat \<Rightarrow> err + nat" where
  "ParseUint_loop s0 [] n = Inr n"
| "ParseUint_loop s0 (c # cs) n =
     (if \<not> is_digit c then Inl (ErrSyntax s0)
      else let n1 = n * 10 + (of_char c - 48) in
           if 2 ^ 64 \<le> n1 then Inl (ErrRange s0) else ParseUint_loop s0 cs n1)"

definition ParseUint :: "string \<Rightarrow> string \<Rightarrow> err + nat" where
  "ParseUint s0 s = (if s = [] then Inl (ErrSyntax s0) else ParseUint_loop s0 s 0)"

text \<open>\<^verbatim>\<open>strconv.ParseInt(s, 10, 64)\<close>\<close>

definition ParseInt :: "string \<Rightarrow> err + int" where
  "ParseInt s =
     (if s = [] then Inl (ErrSyntax s)
      else let neg = (hd s = CHR ''-'');
               t = (if hd s = CHR ''+'' \<or> hd s = CHR ''-'' then tl s else s)
      in case ParseUint s t of
           Inl e \<Rightarrow> Inl e
         | Inr un \<Rightarrow>
             (if \<not> neg \<and> 2 ^ 63 \<le> un then Inl (ErrRange s)
              else if neg \<and> 2 ^ 63 < un then Inl (ErrRange s)
              else Inr (if neg then - int un else int un)))"

text \<open>\<^verbatim>\<open>filepath.Base\<close> on a Unix path\<close>

definition filepath_Base :: "string \<Rightarrow> string" where
  "filepath_Base s =
     (if s = [] then ''.''
      else let t = rev (dropWhile (\<lambda>c. c = CHR ''/'') (rev s));
               b = rev (takeWhile (\<lambda>c. c \<noteq> CHR ''/'') (rev t))
      in if b = [] then ''/'' else b)"

definition TrimPrefixK :: "string \<Rightarrow> string" where
  "TrimPrefixK s = (case s of [] \<Rightarrow> [] | c # cs \<Rightarrow> if c = CHR ''K'' then cs else s)"

definition KeyFromString :: "string \<Rightarrow> err + Key" where
  "KeyFromString s =
     (case ParseInt (filepath_Base (TrimPrefixK s)) of
        Inl e \<Rightarrow> Inl e
      | Inr key \<Rightarrow> Inr (key_of_int key))"

section \<open>Items and locations\<close>

record Item =
  item_Key :: Key
  item_Blob :: bytes

record Location =
  loc_Key :: Key
  loc_Off :: Off
  loc_Len :: Off

type_synonym Items = "Item list"

definition HeaderSize :: Off where "HeaderSize = 12"
definition TrailerSize :: Off where "TrailerSize = 2"

definition Item_StorageSize :: "Item \<Rightarrow> Off" where
  "Item_StorageSize i = HeaderSize + of_nat (length (item_Blob i)) + TrailerSize"

text \<open>\<^verbatim>\<open>copy\<close> into a fresh buffer of the blob's length.\<close>

definition Item_Copy :: "Item \<Rightarrow> Item" where
  "Item_Copy i =
     (let blob = replicate (length (item_Blob i)) 0;
          n = min (length blob) (length (item_Blob i))
      in \<lparr>item_Key = item_Key i, item_Blob = take n (item_Blob i) @ drop n blob\<rparr>)"

text \<open>
  \<^verbatim>\<open>Items.Copy\<close>: first the size of the one buffer all blobs share, then a loop that cuts each
  blob from the front of what is left of the buffer. \<open>Panic\<close> where the slice is out of range.
\<close>

fun Items_Copy_loop :: "Items \<Rightarrow> bytes \<Rightarrow> Items go" where
  "Items_Copy_loop [] copyBuf = Ret []"
| "Items_Copy_loop (i # is) copyBuf =
     (if length (item_Blob i) \<le> length copyBuf
      then let blobCopy = take (length (item_Blob i)) copyBuf;
               n = min (length blobCopy) (length (item_Blob i));
               blobCopy' = take n (item_Blob i) @ drop n blobCopy
           in go_bind (Items_Copy_loop is (drop (length blobCopy) copyBuf))
                (\<lambda>rest. Ret (\<lparr>item_Key = item_Key i, item_Blob = blobCopy'\<rparr> # rest))
      else Panic)"

definition Items_Copy :: "Items \<Rightarrow> Items go" where
  "Items_Copy items =
     (let bufSize = fold (\<lambda>i s. s + length (item_Blob i)) items 0
      in Items_Copy_loop items (replicate bufSize 0))"

definition Items_StorageSize :: "Items \<Rightarrow> Off" where
  "Items_StorageSize items =
     fold (\<lambda>i sum. sum + of_nat (length (item_Blob i))) items
       (of_nat (length items) * (HeaderSize + TrailerSize))"

section \<open>Sizes and copies\<close>

lemma fold_add_sum_list: "fold (\<lambda>x s. s + f x) xs a = a + (\<Sum>x\<leftarrow>xs. f x :: 'a::comm_monoid_add)"
  by (induction xs arbitrary: a) (simp_all add: add.assoc)

lemma Items_StorageSize_sum: "Items_StorageSize items = (\<Sum>i\<leftarrow>items. Item_StorageSize i)"
proof -
  have "(\<Sum>i\<leftarrow>items. Item_StorageSize i) =
      of_nat (length items) * (HeaderSize + TrailerSize) + (\<Sum>i\<leftarrow>items. of_nat (length (item_Blob i)))"
    by (induction items) (simp_all add: Item_StorageSize_def algebra_simps)
  then show ?thesis by (simp add: Items_StorageSize_def fold_add_sum_list)
qed

lemma Items_Copy_loop_id:
  "(\<Sum>i\<leftarrow>items. length (item_Blob i)) \<le> length buf \<Longrightarrow> Items_Copy_loop items buf = Ret items"
proof (induction items arbitrary: buf)
  case Nil
  then show ?case by simp
next
  case (Cons i items)
  then have "Items_Copy_loop items (drop (length (item_Blob i)) buf) = Ret items" by simp
  with Cons.prems show ?case by (simp add: min_absorb2 Let_def)
qed

section \<open>Key text: digits\<close>

lemma of_char_digit_char [simp]: "d < 10 \<Longrightarrow> of_char (digit_char d) = 48 + d"
  by (simp add: digit_char_def)

lemma is_digit_digit_char [simp]: "d < 10 \<Longrightarrow> is_digit (digit_char d)"
  by (simp add: is_digit_def)

lemma show_nat_nonempty [simp]: "show_nat n \<noteq> []"
  by (subst show_nat.simps) simp

lemma show_nat_digits: "c \<in> set (show_nat n) \<Longrightarrow> is_digit c"
  by (induction n rule: show_nat.induct) (subst (asm) (2) show_nat.simps, auto split: if_splits)

lemma zero_pad_digits: "c \<in> set (zero_pad w (show_nat n)) \<Longrightarrow> is_digit c"
  by (auto simp: zero_pad_def is_digit_def dest: show_nat_digits)

text \<open>The value of a digit string, read left to right from an accumulator.\<close>

primrec digits_val :: "string \<Rightarrow> nat \<Rightarrow> nat" where
  "digits_val [] n = n"
| "digits_val (c # cs) n = digits_val cs (n * 10 + (of_char c - 48))"

lemma digits_val_append: "digits_val (s @ t) n = digits_val t (digits_val s n)"
  by (induction s arbitrary: n) simp_all

lemma digits_val_show_nat: "digits_val (show_nat n) 0 = n"
  by (induction n rule: show_nat.induct) (subst show_nat.simps, auto simp: digits_val_append)

lemma digits_val_zeros: "digits_val (replicate k (CHR ''0'')) 0 = 0"
  by (induction k) simp_all

lemma digits_val_zero_pad: "digits_val (zero_pad w (show_nat n)) 0 = n"
  by (simp add: zero_pad_def digits_val_append digits_val_zeros digits_val_show_nat)

lemma digits_val_mono: "n \<le> digits_val s n"
proof (induction s arbitrary: n)
  case (Cons c s)
  have "n \<le> n * 10 + (of_char c - 48)" by simp
  also have "\<dots> \<le> digits_val s (n * 10 + (of_char c - 48))" by (rule Cons.IH)
  finally show ?case by simp
qed simp

lemma ParseUint_loop_ok:
  "(\<forall>c\<in>set s. is_digit c) \<Longrightarrow> digits_val s n < 2 ^ 64 \<Longrightarrow> ParseUint_loop s0 s n = Inr (digits_val s n)"
proof (induction s arbitrary: n)
  case Nil
  then show ?case by simp
next
  case (Cons c s)
  have "n * 10 + (of_char c - 48) < 2 ^ 64"
    using Cons.prems(2) digits_val_mono [of "n * 10 + (of_char c - 48)" s] by simp
  then show ?case using Cons by (simp add: Let_def)
qed

lemma digit_not_sep:
  "is_digit c \<Longrightarrow> c \<noteq> CHR ''/''" "is_digit c \<Longrightarrow> c \<noteq> CHR ''-''" "is_digit c \<Longrightarrow> c \<noteq> CHR ''+''"
  by (auto simp: is_digit_def)

lemma filepath_Base_id:
  assumes "s \<noteq> []" "CHR ''/'' \<notin> set s"
  shows "filepath_Base s = s"
proof -
  have *: "CHR ''/'' \<notin> set (rev s)" using assms by simp
  from * have dw: "dropWhile (\<lambda>c. c = CHR ''/'') (rev s) = rev s"
    by (cases "rev s") auto
  from * have tw: "takeWhile (\<lambda>c. c \<noteq> CHR ''/'') (rev s) = rev s"
    by (simp only: takeWhile_eq_all_conv) auto
  show ?thesis unfolding filepath_Base_def Let_def dw rev_rev_ident tw using assms by simp
qed

lemma ParseInt_signed:
  assumes "s \<noteq> []" "\<forall>c\<in>set s. is_digit c" "digits_val s 0 \<le> 2 ^ 63"
  shows "ParseInt (CHR ''-'' # s) = Inr (- int (digits_val s 0))"
proof -
  have "digits_val s 0 < 2 ^ 64" using assms(3) by simp
  with assms show ?thesis by (simp add: ParseInt_def ParseUint_def ParseUint_loop_ok Let_def)
qed

lemma ParseInt_unsigned:
  assumes "s \<noteq> []" "\<forall>c\<in>set s. is_digit c" "digits_val s 0 < 2 ^ 63"
  shows "ParseInt s = Inr (int (digits_val s 0))"
proof -
  have "digits_val s 0 < 2 ^ 64" using assms(3) by simp
  moreover have "hd s \<noteq> CHR ''-''" "hd s \<noteq> CHR ''+''"
    using assms(1,2) digit_not_sep [of "hd s"] by auto
  ultimately show ?thesis using assms by (simp add: ParseInt_def ParseUint_def ParseUint_loop_ok Let_def)
qed

lemma KeyFromString_unsigned:
  assumes "0 \<le> key_int k"
  shows "KeyFromString (Key_String k) = Inr k"
proof -
  define s where "s = zero_pad 20 (show_nat (nat (key_int k)))"
  have digits: "\<forall>c\<in>set s. is_digit c" using zero_pad_digits by (auto simp: s_def)
  have ne: "s \<noteq> []" by (simp add: s_def zero_pad_def)
  have val: "digits_val s 0 = nat (key_int k)" by (simp add: s_def digits_val_zero_pad)
  have "nat (key_int k) < 2 ^ 63" using key_int_range [of k] assms by (simp add: nat_less_iff)
  then have "ParseInt s = Inr (key_int k)"
    using ParseInt_unsigned [OF ne digits] val assms by simp
  moreover have "filepath_Base s = s"
    using ne digits digit_not_sep(1) by (intro filepath_Base_id) auto
  moreover have "Key_String k = CHR ''K'' # s" using assms by (simp add: Key_String_def s_def)
  ultimately show ?thesis by (simp add: KeyFromString_def TrimPrefixK_def)
qed

lemma KeyFromString_negative:
  assumes "key_int k < 0"
  shows "KeyFromString (Key_String k) = Inr k"
proof -
  define s where "s = zero_pad 19 (show_nat (nat (- key_int k)))"
  have digits: "\<forall>c\<in>set s. is_digit c" using zero_pad_digits by (auto simp: s_def)
  have ne: "s \<noteq> []" by (simp add: s_def zero_pad_def)
  have val: "digits_val s 0 = nat (- key_int k)" by (simp add: s_def digits_val_zero_pad)
  have "nat (- key_int k) \<le> 2 ^ 63" using key_int_range [of k] assms by (simp add: nat_le_iff)
  then have "ParseInt (CHR ''-'' # s) = Inr (key_int k)"
    using ParseInt_signed [OF ne digits] val assms by simp
  moreover have "filepath_Base (CHR ''-'' # s) = CHR ''-'' # s"
    using digits digit_not_sep(1) by (intro filepath_Base_id) auto
  moreover have "Key_String k = CHR ''K'' # CHR ''-'' # s" using assms by (simp add: Key_String_def s_def)
  ultimately show ?thesis by (simp add: KeyFromString_def TrimPrefixK_def)
qed

section \<open>Key text: order of the padded names\<close>

lemma digits_val_shift: "digits_val s n = n * 10 ^ length s + digits_val s 0"
proof (induction s arbitrary: n)
  case (Cons c s)
  show ?case
    using Cons.IH [of "n * 10 + (of_char c - 48)"] Cons.IH [of "of_char c - 48"]
    by (simp add: algebra_simps)
qed simp

lemma digits_val_bound:
  "\<forall>c\<in>set s. is_digit c \<Longrightarrow> digits_val s 0 < 10 ^ length s"
proof (induction s)
  case (Cons c s)
  have "of_char c - 48 \<le> (9::nat)" using Cons.prems by (auto simp: is_digit_def)
  then have "(of_char c - 48) * 10 ^ length s \<le> 9 * (10::nat) ^ length s" by simp
  moreover have "digits_val s 0 < 10 ^ length s" using Cons by simp
  ultimately have "(of_char c - 48) * 10 ^ length s + digits_val s 0 < 10 * (10::nat) ^ length s"
    by linarith
  then show ?case using digits_val_shift [of s "of_char c - 48"] by simp
qed simp

text \<open>Digit strings of one length are ordered like their values.\<close>

lemma digits_lex_less:
  "length s = length t \<Longrightarrow> \<forall>c\<in>set s. is_digit c \<Longrightarrow> \<forall>c\<in>set t. is_digit c \<Longrightarrow>
   digits_val s 0 < digits_val t 0 \<Longrightarrow> s < t"
proof (induction s t rule: list_induct2)
  case (Cons c s d t)
  define C D where "C = of_char c - (48::nat)" and "D = of_char d - (48::nat)"
  have vals: "C * 10 ^ length s + digits_val s 0 < D * 10 ^ length s + digits_val t 0"
    using Cons.prems(3) Cons.hyps
    by (simp add: C_def D_def digits_val_shift [of s "of_char c - 48"] digits_val_shift [of t "of_char d - 48"])
  have bound: "digits_val t 0 < 10 ^ length s"
    using digits_val_bound [of t] Cons.prems(2) Cons.hyps by simp
  have "C \<le> D"
  proof (rule ccontr)
    assume "\<not> C \<le> D"
    then have "Suc D * 10 ^ length s \<le> C * 10 ^ length s" by (intro mult_le_mono1) simp
    with vals bound show False by simp
  qed
  moreover have c: "of_char c = C + 48" "of_char d = D + 48"
    using Cons.prems by (simp_all add: C_def D_def is_digit_def)
  ultimately consider "of_char c < (of_char d :: nat)" | "C = D" by linarith
  then show ?case
  proof cases
    case 1
    then have "c < d" by (simp add: less_char_def)
    then show ?thesis by simp
  next
    case 2
    then have "c = d" using c by (metis of_char_eq_iff)
    with vals 2 Cons show ?thesis by simp
  qed
qed simp

lemma length_show_nat_le: "n < 10 ^ k \<Longrightarrow> 0 < k \<Longrightarrow> length (show_nat n) \<le> k"
proof (induction k arbitrary: n)
  case (Suc k)
  show ?case
  proof (cases "n < 10")
    case True
    then show ?thesis by (simp add: show_nat.simps [of n])
  next
    case False
    then have "k \<noteq> 0" using Suc.prems by (cases k) auto
    moreover have "n div 10 < 10 ^ k" using Suc.prems by (simp add: less_mult_imp_div_less)
    ultimately have "length (show_nat (n div 10)) \<le> k" using Suc.IH by simp
    then show ?thesis using False by (simp add: show_nat.simps [of n])
  qed
qed simp

lemma length_zero_pad [simp]: "length s \<le> w \<Longrightarrow> length (zero_pad w s) = w"
  by (simp add: zero_pad_def)

section \<open>Properties of the package\<close>

lemma Key_String_parses: "KeyFromString (Key_String k) = Inr k"
  by (cases "0 \<le> key_int k") (simp_all add: KeyFromString_unsigned KeyFromString_negative)

lemma Key_String_inject [simp]: "Key_String a = Key_String b \<longleftrightarrow> a = b"
  by (metis Key_String_parses sum.inject(2))

text \<open>C38 (bucket names): the directory name of a bucket parses back to its key.\<close>

theorem KeyFromString_String: "KeyFromString (Key_String k) = Inr k"
  by (rule Key_String_parses)

text \<open>
  The names of buckets with non-negative keys sort like the keys, so that a
  directory listing visits them in key order. (For two negative keys the order is the reverse.)
\<close>

theorem Key_String_sorted:
  assumes "0 \<le> key_int a" "a < b"
  shows "Key_String a < Key_String b"
proof -
  define s t where "s = show_nat (nat (key_int a))" and "t = show_nat (nat (key_int b))"
  have ab: "key_int a < key_int b" using assms by (simp add: less_Key_def)
  have small: "nat (key_int k) < 10 ^ 20" for k
    using key_int_range(2) [of k] by (simp add: nat_less_iff)
  have len: "length (zero_pad 20 s) = 20" "length (zero_pad 20 t) = 20"
    unfolding s_def t_def by (simp_all add: length_show_nat_le [OF small])
  have "zero_pad 20 s < zero_pad 20 t"
    by (rule digits_lex_less)
      (use len ab assms zero_pad_digits in \<open>auto simp: s_def t_def digits_val_zero_pad\<close>)
  then show ?thesis using assms ab by (simp add: Key_String_def s_def t_def)
qed

theorem Key_String_sorted_witness: "Key_String (key_of_int 9) < Key_String (key_of_int 10)"
  by (rule Key_String_sorted) (simp_all add: less_Key_def)

text \<open>
  Copying a batch through one shared buffer gives the same items and never slices
  outside the buffer.
\<close>

theorem Items_Copy_id: "Items_Copy items = Ret items"
  by (simp add: Items_Copy_def fold_add_sum_list Items_Copy_loop_id)

end
