(* ===== verification/Options.thy ===== *)
theory Options
  imports Item "HOL-Library.Signed_Division"
begin

text \<open>
  Options of a queue (src/options.go): the sync and error modes, the functions that split the key
  space into buckets, and the validation of an option set. What the rest of the program relies on
  in a split function is stated as two locales, interpreted below on the split functions the
  package provides.
\<close>

section \<open>Modes\<close>

text \<open>
  \<^verbatim>\<open>SyncMode\<close> and \<^verbatim>\<open>ErrorMode\<close> are \<^verbatim>\<open>int\<close>s. In the constant block \<^verbatim>\<open>iota\<close> is 1 at
  \<^verbatim>\<open>SyncData\<close> and 2 at \<^verbatim>\<open>SyncIndex\<close>.
\<close>

type_synonym SyncMode = int
type_synonym ErrorMode = int

definition SyncNone :: SyncMode where "SyncNone = 0"
definition SyncData :: SyncMode where "SyncData = push_bit 1 1"
definition SyncIndex :: SyncMode where "SyncIndex = push_bit 2 1"
definition SyncFull :: SyncMode where "SyncFull = SyncData OR SyncIndex"

definition SyncMode_IsValid :: "SyncMode \<Rightarrow> bool" where
  "SyncMode_IsValid sm \<longleftrightarrow> sm \<ge> 0 \<and> sm \<le> SyncFull"

definition ErrorModeAbort :: ErrorMode where "ErrorModeAbort = 0"
definition ErrorModeContinue :: ErrorMode where "ErrorModeContinue = 1"
definition errorModeMax :: ErrorMode where "errorModeMax = 2"

definition ErrorMode_IsValid :: "ErrorMode \<Rightarrow> bool" where
  "ErrorMode_IsValid em \<longleftrightarrow> em < errorModeMax \<and> em \<ge> 0"

text \<open>The loggers only print; which one is set is all the model keeps of them.\<close>

datatype Logger = DefaultLogger | NullLogger | WriterLogger string

section \<open>Bucket split functions\<close>

record BucketSplitConf =
  conf_Func :: "(Key \<Rightarrow> Key) option"   \<comment> \<open>\<open>None\<close> is a nil func\<close>
  conf_Name :: string

definition show_int :: "int \<Rightarrow> string" where
  "show_int i = (if i < 0 then CHR ''-'' # show_nat (nat (- i)) else show_nat (nat i))"

text \<open>A shift by a negative count panics; one by 64 or more gives 0.\<close>

definition ShiftFunc :: "nat \<Rightarrow> Key \<Rightarrow> Key" where
  "ShiftFunc shift = (let timeMask = push_bit shift (NOT 0) in (\<lambda>key. Key (keyw key AND timeMask)))"

definition ShiftBucketSplitConf :: "int \<Rightarrow> BucketSplitConf go" where
  "ShiftBucketSplitConf shift =
     (if shift < 0 then Panic
      else Ret \<lparr>conf_Func = Some (ShiftFunc (nat shift)), conf_Name = ''shift:'' @ show_int shift\<rparr>)"

text \<open>\<^verbatim>\<open>(key / item.Key(n)) * item.Key(n)\<close>: division truncates towards zero and both steps wrap.\<close>

definition FixedSizeFunc :: "64 word \<Rightarrow> Key \<Rightarrow> Key" where
  "FixedSizeFunc n key = Key (word_of_int (sint (keyw key) sdiv sint n) * n)"

definition FixedSizeBucketSplitConf :: "64 word \<Rightarrow> BucketSplitConf" where
  "FixedSizeBucketSplitConf n0 =
     (let n = (if n0 = 0 then 1 else n0)
      in \<lparr>conf_Func = Some (FixedSizeFunc n), conf_Name = ''fixed:'' @ show_nat (unat n)\<rparr>)"

record Options =
  opt_SyncMode :: SyncMode
  opt_Logger :: "Logger option"          \<comment> \<open>\<open>None\<close> is a nil logger\<close>
  opt_ErrorMode :: ErrorMode
  opt_BucketSplitConf :: BucketSplitConf
  opt_MaxParallelOpenBuckets :: int

definition DefaultBucketSplitConf :: BucketSplitConf where
  "DefaultBucketSplitConf = \<lparr>conf_Func = Some (ShiftFunc 37), conf_Name = ''shift:'' @ show_int 37\<rparr>"

definition DefaultOptions :: Options where
  "DefaultOptions =
     \<lparr>opt_SyncMode = SyncFull, opt_Logger = Some DefaultLogger, opt_ErrorMode = ErrorModeAbort,
      opt_BucketSplitConf = DefaultBucketSplitConf, opt_MaxParallelOpenBuckets = 4\<rparr>"

text \<open>\<^verbatim>\<open>Validate\<close> may change the options it is called on, also where it returns an error.\<close>

definition Options_Validate :: "Options \<Rightarrow> err option \<times> Options" where
  "Options_Validate o0 =
     (let o1 = (if opt_Logger o0 = None then o0\<lparr>opt_Logger := Some NullLogger\<rparr> else o0) in
      if \<not> SyncMode_IsValid (opt_SyncMode o1) then (Some (ErrInvalid ''sync mode''), o1)
      else if \<not> ErrorMode_IsValid (opt_ErrorMode o1) then (Some (ErrInvalid ''error mode''), o1)
      else if conf_Func (opt_BucketSplitConf o1) = None then (Some (ErrInvalid ''bucket func''), o1)
      else if opt_MaxParallelOpenBuckets o1 = 0
      then (None, o1\<lparr>opt_MaxParallelOpenBuckets := - 1\<rparr>)
      else (None, o1))"

section \<open>What a split function has to promise\<close>

text \<open>
  \<^verbatim>\<open>ValidateBucketKeys\<close> needs a bucket key to be its own bucket; sorting a batch into buckets and
  reading the buckets in key order need the function to be monotone.
\<close>

locale bucket_split =
  fixes f :: "Key \<Rightarrow> Key"
  assumes idem: "f (f k) = f k"
    and mono: "a \<le> b \<Longrightarrow> f a \<le> f b"
begin

lemma between: "a \<le> b \<Longrightarrow> b \<le> c \<Longrightarrow> f a = f c \<Longrightarrow> f b = f a"
  using mono [of a b] mono [of b c] by simp

lemma separated: "f a < f b \<Longrightarrow> a < b"
  using mono [of b a] by (meson leD leI)

text \<open>The keys of one bucket lie strictly between the keys of its neighbours.\<close>

lemma buckets_disjoint: "f a \<noteq> f b \<Longrightarrow> a \<le> b \<Longrightarrow> f a = f a' \<Longrightarrow> f b = f b' \<Longrightarrow> a' < b'"
  by (metis le_less mono separated)

end

text \<open>\<^verbatim>\<open>bucket.Delete\<close> also takes the bucket key for a lower bound of the keys in the bucket.\<close>

locale bucket_split_min = bucket_split +
  assumes lower: "f k \<le> k"
begin

lemma bucket_above: "to < f k \<Longrightarrow> to < k"
  using lower [of k] by simp

end

section \<open>The shift function\<close>

lemma sint_mask_low:
  assumes "n < 64"
  shows "sint (w AND push_bit n (NOT 0) :: 64 word) = push_bit n (drop_bit n (sint w))"
  by (rule bit_eqI) (use assms in \<open>auto simp: bit_simps min_def\<close>)

lemma key_int_ShiftFunc:
  assumes "n < 64"
  shows "key_int (ShiftFunc n k) = key_int k div 2 ^ n * 2 ^ n"
  unfolding key_int_def ShiftFunc_def Let_def Key.sel sint_mask_low [OF assms]
  by (simp add: push_bit_eq_mult drop_bit_eq_div)

lemma ShiftFunc_big: "64 \<le> n \<Longrightarrow> ShiftFunc n k = Key 0"
  by (auto simp: ShiftFunc_def intro!: bit_word_eqI simp: bit_simps)

interpretation shift: bucket_split "ShiftFunc n" for n
proof
  show "ShiftFunc n (ShiftFunc n k) = ShiftFunc n k" for k
    by (simp add: ShiftFunc_def and.assoc)
  fix a b :: Key
  assume "a \<le> b"
  show "ShiftFunc n a \<le> ShiftFunc n b"
  proof (cases "n < 64")
    case True
    with \<open>a \<le> b\<close> show ?thesis by (simp add: less_eq_Key_def key_int_ShiftFunc zdiv_mono1)
  next
    case False
    then show ?thesis by (simp add: ShiftFunc_big)
  qed
qed

interpretation default_split: bucket_split_min "ShiftFunc 37"
  by unfold_locales (simp add: less_eq_Key_def key_int_ShiftFunc)

section \<open>The fixed-size function\<close>

text \<open>The value of \<^verbatim>\<open>(key / n) * n\<close>, rounded towards zero.\<close>

definition trunc_to :: "int \<Rightarrow> int \<Rightarrow> int" where
  "trunc_to m k = sgn k * (\<bar>k\<bar> div m * m)"

lemma sdiv_mult_trunc: "n \<noteq> 0 \<Longrightarrow> (k sdiv n) * n = trunc_to \<bar>n\<bar> (k :: int)"
  by (simp add: signed_divide_int_def trunc_to_def sgn_mult_abs mult.assoc sgn_if)

lemma trunc_to_nonneg: "0 < m \<Longrightarrow> 0 \<le> k \<Longrightarrow> trunc_to m k = k div m * m"
  by (cases "k = 0") (simp_all add: trunc_to_def)

lemma trunc_to_neg: "0 < m \<Longrightarrow> k < 0 \<Longrightarrow> trunc_to m k = - (- k div m * m)"
  by (simp add: trunc_to_def)

lemma div_mult_le: "0 < m \<Longrightarrow> (k :: int) div m * m \<le> k"
  by (simp add: minus_mod_eq_div_mult [symmetric])

lemma trunc_to_range:
  assumes "0 < m"
  shows "(0 \<le> k \<longrightarrow> 0 \<le> trunc_to m k \<and> trunc_to m k \<le> k) \<and> (k < 0 \<longrightarrow> k \<le> trunc_to m k \<and> trunc_to m k \<le> 0)"
  using div_mult_le [OF assms, of k] div_mult_le [OF assms, of "- k"] assms
  by (auto simp: trunc_to_nonneg trunc_to_neg pos_imp_zdiv_nonneg_iff)

lemma trunc_to_idem:
  assumes "0 < m"
  shows "trunc_to m (trunc_to m k) = trunc_to m k"
proof (cases "0 \<le> k")
  case True
  then show ?thesis using assms by (simp add: trunc_to_nonneg pos_imp_zdiv_nonneg_iff)
next
  case False
  define q where "q = - k div m"
  have q: "0 \<le> q" using assms False by (simp add: q_def pos_imp_zdiv_nonneg_iff)
  have k: "trunc_to m k = - (q * m)" using assms False by (simp add: trunc_to_neg q_def)
  show ?thesis
  proof (cases "q = 0")
    case True
    then show ?thesis using k assms by (simp add: trunc_to_nonneg)
  next
    case False
    then have "- (q * m) < 0" using q assms by simp
    then have "trunc_to m (- (q * m)) = - (q * m)" using assms by (simp add: trunc_to_neg)
    then show ?thesis by (simp add: k)
  qed
qed

lemma trunc_to_mono:
  assumes "0 < m" "a \<le> b"
  shows "trunc_to m a \<le> trunc_to m b"
proof -
  consider "0 \<le> a" | "a < 0" "0 \<le> b" | "b < 0" using assms(2) by linarith
  then show ?thesis
  proof cases
    case 1
    then show ?thesis using assms by (simp add: trunc_to_nonneg zdiv_mono1)
  next
    case 2
    then show ?thesis
      using trunc_to_range [OF assms(1), of a] trunc_to_range [OF assms(1), of b] by linarith
  next
    case 3
    then show ?thesis using assms by (simp add: trunc_to_neg zdiv_mono1)
  qed
qed

lemma key_int_FixedSizeFunc:
  assumes "n \<noteq> 0"
  shows "key_int (FixedSizeFunc n k) = trunc_to \<bar>sint n\<bar> (key_int k)"
proof -
  have n: "sint n \<noteq> 0" using assms by (metis signed_word_eqI sint_0)
  have "FixedSizeFunc n k = key_of_int ((sint (keyw k) sdiv sint n) * sint n)"
    by (simp add: FixedSizeFunc_def key_of_int_def)
  also have "\<dots> = key_of_int (trunc_to \<bar>sint n\<bar> (key_int k))"
    by (simp only: sdiv_mult_trunc [OF n] key_int_def)
  finally show ?thesis
    using trunc_to_range [of "\<bar>sint n\<bar>" "key_int k"] n key_int_range [of k]
    by (cases "0 \<le> key_int k") (simp_all only: key_int_of_int, simp_all)
qed

interpretation fixed: bucket_split "FixedSizeFunc (if n = 0 then 1 else n)" for n
proof
  define m where "m = (if n = 0 then 1 else n)"
  have m: "m \<noteq> 0" by (simp add: m_def)
  then have pos: "0 < \<bar>sint m\<bar>" by (metis signed_word_eqI sint_0 zero_less_abs_iff)
  show "FixedSizeFunc m (FixedSizeFunc m k) = FixedSizeFunc m k" for k
    by (simp add: key_int_inject [symmetric] key_int_FixedSizeFunc [OF m] trunc_to_idem [OF pos]
        del: key_int_inject)
  show "a \<le> b \<Longrightarrow> FixedSizeFunc m a \<le> FixedSizeFunc m b" for a b
    by (simp add: less_eq_Key_def key_int_FixedSizeFunc [OF m] trunc_to_mono [OF pos])
qed

text \<open>On non-negative keys the bucket key is also the least key of the bucket.\<close>

lemma FixedSizeFunc_lower:
  assumes "n \<noteq> 0" "0 \<le> key_int k"
  shows "FixedSizeFunc n k \<le> k"
proof -
  have "0 < \<bar>sint n\<bar>" using assms(1) by (metis signed_word_eqI sint_0 zero_less_abs_iff)
  from trunc_to_range [OF this, of "key_int k"] show ?thesis
    using assms by (simp add: less_eq_Key_def key_int_FixedSizeFunc)
qed

section \<open>Properties of the options\<close>

lemma ShiftFunc_split_min: "n < 64 \<Longrightarrow> bucket_split_min (ShiftFunc n)"
  using shift.bucket_split_axioms [of n]
  by (simp add: bucket_split_min_def bucket_split_min_axioms_def less_eq_Key_def key_int_ShiftFunc
      div_mult_le)

text \<open>
  C39 (shift split): the shift configuration rounds a key down to a multiple of a power of two: it is
  monotone, idempotent and never above the key, as the collection of buckets requires.
\<close>

theorem ShiftBucketSplitConf_floor:
  assumes "0 \<le> shift" "shift < 64"
  shows "\<exists>c f. ShiftBucketSplitConf shift = Ret c \<and> conf_Func c = Some f \<and> bucket_split_min f \<and>
           (\<forall>k. key_int (f k) = key_int k div 2 ^ nat shift * 2 ^ nat shift)"
proof -
  have "nat shift < 64" using assms by simp
  then show ?thesis
    using assms(1) by (simp add: ShiftBucketSplitConf_def ShiftFunc_split_min key_int_ShiftFunc)
qed

theorem ShiftBucketSplitConf_floor_witness:
  "\<exists>c f. ShiftBucketSplitConf 37 = Ret c \<and> conf_Func c = Some f \<and> bucket_split_min f \<and>
     (\<forall>k. key_int (f k) = key_int k div 2 ^ nat 37 * 2 ^ nat 37)"
  by (rule ShiftBucketSplitConf_floor) simp_all

text \<open>
  C40 (fixed-size split): the fixed-size configuration is monotone and idempotent for every size, also
  for sizes beyond \<^verbatim>\<open>2^63\<close> that become negative; on non-negative keys it is not above the key.
\<close>

theorem FixedSizeBucketSplitConf_split:
  "\<exists>f. conf_Func (FixedSizeBucketSplitConf n) = Some f \<and> bucket_split f \<and>
       (\<forall>k. 0 \<le> key_int k \<longrightarrow> f k \<le> k)"
proof -
  define f where "f = FixedSizeFunc (if n = 0 then 1 else n)"
  have "conf_Func (FixedSizeBucketSplitConf n) = Some f"
    by (simp add: FixedSizeBucketSplitConf_def f_def Let_def)
  moreover have "bucket_split f" unfolding f_def by (rule fixed.bucket_split_axioms)
  moreover have "\<forall>k. 0 \<le> key_int k \<longrightarrow> f k \<le> k" by (simp add: f_def FixedSizeFunc_lower)
  ultimately show ?thesis by blast
qed

theorem FixedSizeBucketSplitConf_split_witness:
  "\<exists>f. conf_Func (FixedSizeBucketSplitConf 10) = Some f \<and> bucket_split f \<and>
       f (key_of_int 57) \<le> key_of_int 57"
  using FixedSizeBucketSplitConf_split [of 10] by fastforce

text \<open>
  The fixed-size configuration rounds towards zero, so the key of a bucket with
  negative keys is above them, although the documentation asks for the least key of the bucket.
\<close>

theorem FixedSize_negative_above:
  "\<exists>f. conf_Func (FixedSizeBucketSplitConf 10) = Some f \<and> key_of_int (- 5) < f (key_of_int (- 5))"
  by (auto simp: FixedSizeBucketSplitConf_def less_Key_def key_int_FixedSizeFunc trunc_to_neg Let_def)

text \<open>
  The options are accepted exactly if the sync mode is between 0 and 6 (which
  includes the values 1, 3 and 5 that name no mode), the error mode is 0 or 1, and a split function
  is set.
\<close>

theorem Options_Validate_ok:
  "fst (Options_Validate opts) = None \<longleftrightarrow>
     0 \<le> opt_SyncMode opts \<and> opt_SyncMode opts \<le> 6 \<and> 0 \<le> opt_ErrorMode opts \<and>
     opt_ErrorMode opts \<le> 1 \<and> conf_Func (opt_BucketSplitConf opts) \<noteq> None"
  by (auto simp: Options_Validate_def SyncMode_IsValid_def ErrorMode_IsValid_def SyncFull_def
      SyncData_def SyncIndex_def errorModeMax_def Let_def)

end
