(* ===== verification/Btree.thy ===== *)
theory Btree
  imports Prelude
begin

text \<open>
  The ordered map \<^verbatim>\<open>btree.Map\<close> of github.com/tidwall/btree, which the index and the bucket
  collection are built on. Its code is not part of the repository: the model takes its operations
  as a parameter (the record \<open>btree\<close> below), and the locale \<open>btree_map\<close> states the documented
  behaviour the program relies on. An association-list map shows that the laws can be met.
\<close>

section \<open>The operations the program calls\<close>

text \<open>
  \<open>bt_empty\<close> is the zero value; \<open>bt_iter\<close> is the sequence that \<^verbatim>\<open>Iter\<close>, \<^verbatim>\<open>Scan\<close> and
  \<^verbatim>\<open>GetAt\<close> run through.
\<close>

record ('k, 'v, 'm) btree =
  bt_empty :: 'm
  bt_get :: "'m \<Rightarrow> 'k \<Rightarrow> 'v option"
  bt_set :: "'m \<Rightarrow> 'k \<Rightarrow> 'v \<Rightarrow> 'm"
  bt_delete :: "'m \<Rightarrow> 'k \<Rightarrow> 'm"
  bt_iter :: "'m \<Rightarrow> ('k \<times> 'v) list"

section \<open>Sorted association lists\<close>

abbreviation sorted_keys :: "('k::linorder \<times> 'v) list \<Rightarrow> bool" where
  "sorted_keys es \<equiv> sorted_wrt (<) (map fst es)"

fun al_set :: "'k::linorder \<Rightarrow> 'v \<Rightarrow> ('k \<times> 'v) list \<Rightarrow> ('k \<times> 'v) list" where
  "al_set k v [] = [(k, v)]"
| "al_set k v ((a, b) # es) =
     (if k < a then (k, v) # (a, b) # es
      else if k = a then (k, v) # es
      else (a, b) # al_set k v es)"

definition al_del :: "'k \<Rightarrow> ('k \<times> 'v) list \<Rightarrow> ('k \<times> 'v) list" where
  "al_del k es = filter (\<lambda>e. fst e \<noteq> k) es"

lemma set_keys_al_set [simp]: "fst ` set (al_set k v es) = insert k (fst ` set es)"
  by (induction k v es rule: al_set.induct) auto

lemma sorted_al_set: "sorted_keys es \<Longrightarrow> sorted_keys (al_set k v es)"
proof (induction k v es rule: al_set.induct)
  case (2 k v a b es)
  have "fst ` set (al_set k v es) = insert k (fst ` set es)" by simp
  with 2 show ?case by (auto simp del: set_keys_al_set simp flip: set_map)
qed simp

lemma sorted_al_del: "sorted_keys es \<Longrightarrow> sorted_keys (al_del k es)"
  by (induction es) (auto simp: al_del_def)

lemma map_of_al_set [simp]: "map_of (al_set k v es) = (map_of es)(k \<mapsto> v)"
  by (induction k v es rule: al_set.induct) (auto simp: fun_eq_iff)

lemma map_of_al_del [simp]: "map_of (al_del k es) = (map_of es)(k := None)"
  by (induction es) (auto simp: al_del_def fun_eq_iff)

lemma alist_by_keys:
  "distinct (map fst es) \<Longrightarrow> map (\<lambda>k. (k, the (map_of es k))) (map fst es) = es"
  by (auto intro!: map_idI simp: comp_def)

text \<open>Two sorted lists with the same lookups are the same list.\<close>

lemma sorted_keys_ext:
  assumes "sorted_keys es" "sorted_keys es'" "map_of es = map_of es'"
  shows "es = es'"
proof -
  have d: "distinct (map fst es)" "distinct (map fst es')"
    using assms(1,2) by (simp_all add: strict_sorted_iff)
  then have "set es = set es'" using assms(3) by (metis map_of_inject_set)
  then have "map fst es = map fst es'"
    using assms(1,2) by (intro strict_sorted_equal) simp_all
  then show ?thesis using alist_by_keys [OF d(1)] alist_by_keys [OF d(2)] assms(3) by simp
qed

section \<open>The laws\<close>

locale btree_map =
  fixes bt :: "('k::linorder, 'v, 'm) btree"
  assumes iter_empty [simp]: "bt_iter bt (bt_empty bt) = []"
    and iter_sorted: "sorted_keys (bt_iter bt m)"
    and get_iter: "bt_get bt m k = map_of (bt_iter bt m) k"
    and iter_set [simp]: "bt_iter bt (bt_set bt m k v) = al_set k v (bt_iter bt m)"
    and iter_delete [simp]: "bt_iter bt (bt_delete bt m k) = al_del k (bt_iter bt m)"
begin

lemma get_empty [simp]: "bt_get bt (bt_empty bt) k = None"
  by (simp add: get_iter)

lemma get_set [simp]: "bt_get bt (bt_set bt m k v) k' = (if k' = k then Some v else bt_get bt m k')"
  by (simp add: get_iter)

lemma get_delete [simp]: "bt_get bt (bt_delete bt m k) k' = (if k' = k then None else bt_get bt m k')"
  by (simp add: get_iter)

end

section \<open>An instance\<close>

text \<open>A list of bindings, newest first; iterating sorts it.\<close>

definition alist_btree :: "('k::linorder, 'v, ('k \<times> 'v) list) btree" where
  "alist_btree =
     \<lparr>bt_empty = [],
      bt_get = (\<lambda>m k. map_of m k),
      bt_set = (\<lambda>m k v. (k, v) # m),
      bt_delete = (\<lambda>m k. al_del k m),
      bt_iter = (\<lambda>m. foldr (\<lambda>(k, v). al_set k v) m [])\<rparr>"

lemma alist_iter_sorted: "sorted_keys (foldr (\<lambda>(k, v). al_set k v) m [])"
  by (induction m) (auto intro: sorted_al_set)

lemma alist_iter_map_of: "map_of (foldr (\<lambda>(k, v). al_set k v) m []) = map_of m"
  by (induction m) auto

interpretation alist: btree_map alist_btree
proof
  show "bt_iter alist_btree (bt_delete alist_btree m k) = al_del k (bt_iter alist_btree m)"
    for m :: "('a \<times> 'b) list" and k
    by (rule sorted_keys_ext)
      (simp_all add: alist_btree_def alist_iter_sorted alist_iter_map_of sorted_al_del)
qed (simp_all add: alist_btree_def alist_iter_sorted alist_iter_map_of)

end
