(* ===== verification/Os.thy ===== *)
theory Os
  imports Prelude "HOL-Library.AList" "HOL-Library.Char_ord" "HOL-Library.List_Lexorder"
begin

text \<open>
  The operating system as the program sees it: a tree of directories and files, and system calls
  that act on it or fail. A path is its list of components. The world also holds a script of
  faults: each system call takes the next entry of the script and fails if that is \<open>True\<close>; an empty
  script means that no further call fails. Theorems about error paths quantify over the script,
  theorems about undisturbed runs assume it empty.
\<close>

section \<open>State\<close>

type_synonym path = "string list"

datatype node = Dir | File bytes

record world =
  w_fs :: "(path \<times> node) list"
  w_faults :: "bool list"

text \<open>One system call: whether it goes through, and the world with the script advanced.\<close>

definition sys :: "world \<Rightarrow> bool \<times> world" where
  "sys w = (case w_faults w of [] \<Rightarrow> (True, w) | b # bs \<Rightarrow> (\<not> b, w\<lparr>w_faults := bs\<rparr>))"

definition node_at :: "world \<Rightarrow> path \<Rightarrow> node option" where
  "node_at w p = map_of (w_fs w) p"

definition file_at :: "world \<Rightarrow> path \<Rightarrow> bytes option" where
  "file_at w p = (case node_at w p of Some (File bs) \<Rightarrow> Some bs | _ \<Rightarrow> None)"

definition contents :: "world \<Rightarrow> path \<Rightarrow> bytes" where
  "contents w p = (case file_at w p of Some bs \<Rightarrow> bs | None \<Rightarrow> [])"

definition put_node :: "path \<Rightarrow> node \<Rightarrow> world \<Rightarrow> world" where
  "put_node p n w = w\<lparr>w_fs := AList.update p n (w_fs w)\<rparr>"

definition del_node :: "path \<Rightarrow> world \<Rightarrow> world" where
  "del_node p w = w\<lparr>w_fs := AList.delete p (w_fs w)\<rparr>"

definition children :: "world \<Rightarrow> path \<Rightarrow> path list" where
  "children w d = filter (\<lambda>p. p \<noteq> [] \<and> butlast p = d) (map fst (w_fs w))"

section \<open>Calls\<close>

text \<open>\<^verbatim>\<open>os.OpenFile\<close> with \<^verbatim>\<open>O_CREATE\<close>: an existing file is kept, a missing one is created empty.\<close>

definition OpenCreate :: "path \<Rightarrow> world \<Rightarrow> err option \<times> world" where
  "OpenCreate p w =
     (let (ok, w) = sys w in
      if \<not> ok then (Some (ErrSys ''open''), w)
      else case node_at w p of
             Some (File _) \<Rightarrow> (None, w)
           | Some Dir \<Rightarrow> (Some (ErrSys ''is a directory''), w)
           | None \<Rightarrow> if node_at w (butlast p) = Some Dir then (None, put_node p (File []) w)
                     else (Some ErrNotExist, w))"

text \<open>\<^verbatim>\<open>ftruncate\<close>: cut, or grown with zeros.\<close>

definition resize :: "bytes \<Rightarrow> nat \<Rightarrow> bytes" where
  "resize bs n = take n bs @ replicate (n - length bs) 0"

definition Truncate :: "path \<Rightarrow> nat \<Rightarrow> world \<Rightarrow> err option \<times> world" where
  "Truncate p n w =
     (let (ok, w) = sys w in
      if \<not> ok then (Some (ErrSys ''truncate''), w)
      else case file_at w p of
             None \<Rightarrow> (Some (ErrSys ''truncate''), w)
           | Some bs \<Rightarrow> (None, put_node p (File (resize bs n)) w))"

text \<open>\<^verbatim>\<open>write\<close> on a descriptor opened with \<^verbatim>\<open>O_APPEND\<close>\<close>

definition Append :: "path \<Rightarrow> bytes \<Rightarrow> world \<Rightarrow> err option \<times> world" where
  "Append p bs w =
     (let (ok, w) = sys w in
      if \<not> ok then (Some (ErrSys ''write''), w)
      else case file_at w p of
             None \<Rightarrow> (Some (ErrSys ''write''), w)
           | Some old \<Rightarrow> (None, put_node p (File (old @ bs)) w))"

text \<open>\<^verbatim>\<open>os.Remove\<close>: a file, or a directory with nothing in it.\<close>

definition Remove :: "path \<Rightarrow> world \<Rightarrow> err option \<times> world" where
  "Remove p w =
     (let (ok, w) = sys w in
      if \<not> ok then (Some (ErrSys ''remove''), w)
      else case node_at w p of
             None \<Rightarrow> (Some ErrNotExist, w)
           | Some (File _) \<Rightarrow> (None, del_node p w)
           | Some Dir \<Rightarrow> if children w p = [] then (None, del_node p w)
                         else (Some (ErrSys ''directory not empty''), w))"

text \<open>\<^verbatim>\<open>os.ReadDir\<close>: the names in a directory, sorted.\<close>

definition ReadDir :: "path \<Rightarrow> world \<Rightarrow> (err + string list) \<times> world" where
  "ReadDir d w =
     (let (ok, w) = sys w in
      if \<not> ok then (Inl (ErrSys ''readdir''), w)
      else if node_at w d \<noteq> Some Dir then (Inl ErrNotExist, w)
      else (Inr (sort (remdups (map last (children w d)))), w))"

text \<open>\<^verbatim>\<open>os.Open\<close> for reading\<close>

definition OpenRead :: "path \<Rightarrow> world \<Rightarrow> (err + bytes) \<times> world" where
  "OpenRead p w =
     (let (ok, w) = sys w in
      if \<not> ok then (Inl (ErrSys ''open''), w)
      else case node_at w p of
             None \<Rightarrow> (Inl ErrNotExist, w)
           | Some Dir \<Rightarrow> (Inl (ErrSys ''is a directory''), w)
           | Some (File bs) \<Rightarrow> (Inr bs, w))"

text \<open>\<^verbatim>\<open>os.MkdirAll\<close>: the directory and those above it (one entry of the script for the whole call).\<close>

definition ancestors :: "path \<Rightarrow> path list" where
  "ancestors p = map (\<lambda>n. take n p) [0..<Suc (length p)]"

definition make_dir :: "path \<Rightarrow> world \<Rightarrow> world" where
  "make_dir p w = (if node_at w p = None then put_node p Dir w else w)"

definition MkdirAll :: "path \<Rightarrow> world \<Rightarrow> err option \<times> world" where
  "MkdirAll p w =
     (let (ok, w) = sys w in
      if \<not> ok then (Some (ErrSys ''mkdir''), w)
      else if list_ex (\<lambda>q. file_at w q \<noteq> None) (ancestors p) then (Some (ErrSys ''not a directory''), w)
      else (None, fold make_dir (ancestors p) w))"

text \<open>\<^verbatim>\<open>os.Stat\<close>, of which only the error is used\<close>

definition Stat :: "path \<Rightarrow> world \<Rightarrow> err option \<times> world" where
  "Stat p w =
     (let (ok, w) = sys w in
      (if \<not> ok then Some (ErrSys ''stat'') else if node_at w p = None then Some ErrNotExist else None, w))"

text \<open>
  \<^verbatim>\<open>os.Rename\<close>: the node and all below it move; an empty directory at the destination is replaced.
  \<open>xdev\<close> says whether the two paths lie on different file systems.
\<close>

definition moved :: "path \<Rightarrow> path \<Rightarrow> path \<Rightarrow> path" where
  "moved src dst p = (if take (length src) p = src then dst @ drop (length src) p else p)"

definition Rename :: "bool \<Rightarrow> path \<Rightarrow> path \<Rightarrow> world \<Rightarrow> err option \<times> world" where
  "Rename xdev src dst w =
     (let (ok, w) = sys w in
      if \<not> ok then (Some (ErrSys ''rename''), w)
      else if node_at w src = None \<or> node_at w (butlast dst) \<noteq> Some Dir then (Some ErrNotExist, w)
      else if xdev then (Some ErrXdev, w)
      else if src = dst then (None, w)
      else if take (length src) dst = src then (Some (ErrSys ''invalid argument''), w)
      else if children w dst \<noteq> [] \<or> (node_at w dst \<noteq> None \<and> (file_at w src = None) \<noteq> (file_at w dst = None))
      then (Some (ErrSys ''file exists''), w)
      else (None, w\<lparr>w_fs := map (\<lambda>(p, n). (moved src dst p, n)) (filter (\<lambda>(p, _). p \<noteq> dst) (w_fs w))\<rparr>))"

text \<open>\<^verbatim>\<open>os.RemoveAll\<close> (one entry of the script for the whole call)\<close>

definition RemoveAll :: "path \<Rightarrow> world \<Rightarrow> err option \<times> world" where
  "RemoveAll p w =
     (let (ok, w) = sys w in
      if \<not> ok then (Some (ErrSys ''remove''), w)
      else (None, w\<lparr>w_fs := filter (\<lambda>(q, _). take (length p) q \<noteq> p) (w_fs w)\<rparr>))"

text \<open>A call whose effect the model does not need (\<^verbatim>\<open>fsync\<close>, \<^verbatim>\<open>msync\<close>, \<^verbatim>\<open>munmap\<close>, \<^verbatim>\<open>close\<close>, \<^verbatim>\<open>stat\<close>).\<close>

definition Call :: "string \<Rightarrow> world \<Rightarrow> err option \<times> world" where
  "Call what w = (let (ok, w) = sys w in (if ok then None else Some (ErrSys what), w))"

section \<open>Frame lemmas\<close>

lemma sys_ok [simp]: "w_faults w = [] \<Longrightarrow> sys w = (True, w)"
  by (simp add: sys_def)

lemma put_node_faults [simp]: "w_faults (put_node p n w) = w_faults w"
  by (simp add: put_node_def)

lemma del_node_faults [simp]: "w_faults (del_node p w) = w_faults w"
  by (simp add: del_node_def)

lemma node_at_put [simp]: "node_at (put_node p n w) q = (if q = p then Some n else node_at w q)"
  by (simp add: node_at_def put_node_def update_conv')

lemma node_at_del [simp]: "node_at (del_node p w) q = (if q = p then None else node_at w q)"
  by (simp add: node_at_def del_node_def delete_conv')

lemma file_at_put [simp]:
  "file_at (put_node p (File bs) w) q = (if q = p then Some bs else file_at w q)"
  by (simp add: file_at_def)

lemma file_at_del [simp]: "file_at (del_node p w) q = (if q = p then None else file_at w q)"
  by (simp add: file_at_def)

lemma node_at_file: "file_at w p = Some bs \<longleftrightarrow> node_at w p = Some (File bs)"
  by (auto simp: file_at_def split: option.splits node.splits)

text \<open>A failing call leaves the files alone.\<close>

lemma sys_fs: "sys w = (ok, w') \<Longrightarrow> w_fs w' = w_fs w"
  by (auto simp: sys_def split: list.splits)

lemma sys_file_at: "sys w = (ok, w') \<Longrightarrow> file_at w' p = file_at w p"
  by (auto simp: file_at_def node_at_def dest: sys_fs)

lemma Append_ok:
  "w_faults w = [] \<Longrightarrow> file_at w p = Some old \<Longrightarrow> Append p bs w = (None, put_node p (File (old @ bs)) w)"
  by (simp add: Append_def)

lemma Call_ok [simp]: "w_faults w = [] \<Longrightarrow> Call what w = (None, w)"
  by (simp add: Call_def)

text \<open>The world after the file \<open>p\<close> got the content \<open>bs\<close> and nothing else happened.\<close>

definition wrote :: "world \<Rightarrow> path \<Rightarrow> bytes \<Rightarrow> world \<Rightarrow> bool" where
  "wrote w p bs w' \<longleftrightarrow> w_faults w' = [] \<and> node_at w' = (node_at w)(p \<mapsto> File bs)"

lemma wrote_file_at: "wrote w p bs w' \<Longrightarrow> file_at w' q = (if q = p then Some bs else file_at w q)"
  by (simp add: wrote_def file_at_def)

lemma wrote_trans: "wrote w p bs w' \<Longrightarrow> wrote w' p bs' w'' \<Longrightarrow> wrote w p bs' w''"
  by (simp add: wrote_def)

lemma wrote_refl: "w_faults w = [] \<Longrightarrow> file_at w p = Some bs \<Longrightarrow> wrote w p bs w"
  by (auto simp: wrote_def node_at_file fun_eq_iff)

lemma wrote_faults: "wrote w p bs w' \<Longrightarrow> w_faults w' = []"
  by (simp add: wrote_def)

lemma Append_wrote:
  "w_faults w = [] \<Longrightarrow> file_at w p = Some old \<Longrightarrow> \<exists>w'. Append p bs w = (None, w') \<and> wrote w p (old @ bs) w'"
  by (auto simp: Append_ok wrote_def fun_eq_iff)

lemma OpenCreate_wrote:
  assumes "w_faults w = []" "file_at w p = Some bs \<or> bs = [] \<and> node_at w p = None \<and> node_at w (butlast p) = Some Dir"
  shows "\<exists>w'. OpenCreate p w = (None, w') \<and> wrote w p bs w'"
  using assms by (auto simp: OpenCreate_def node_at_file wrote_def fun_eq_iff)

lemma OpenCreate_exists:
  assumes "w_faults w = []" "file_at w p = Some bs"
  shows "OpenCreate p w = (None, w)" "contents w p = bs"
  using assms by (simp_all add: OpenCreate_def contents_def) (simp add: node_at_file)

text \<open>A world with the root directory and one file, for examples.\<close>

definition one_file :: "path \<Rightarrow> bytes \<Rightarrow> world" where
  "one_file p bs = \<lparr>w_fs = [([], Dir), (p, File bs)], w_faults = []\<rparr>"

lemma one_file_simps [simp]:
  "w_faults (one_file p bs) = []"
  "p \<noteq> [] \<Longrightarrow> node_at (one_file p bs) q = (if q = [] then Some Dir else if q = p then Some (File bs) else None)"
  "p \<noteq> [] \<Longrightarrow> file_at (one_file p bs) q = (if q = p then Some bs else None)"
  by (simp_all add: one_file_def node_at_def file_at_def)

end
