(* ===== verification/Vlog.thy ===== *)
theory Vlog
  imports Item Os
begin

text \<open>
  The value log (src/vlog/vlog.go, src/vlog/iter.go): an append-only file of items that is mapped
  into memory. \<open>log_mmap\<close> is the mapped memory; as the mapping is shared, each store into it is a
  store into the file, which the model writes out at the end of a push. \<open>log_size\<close> is an \<^verbatim>\<open>int64\<close> that never exceeds
  the length of the mapping. The page size is a parameter of the functions that use it.

  Modelled here: opening and shrinking, growing and pushing, reading one item, finding the next
  item after damage, and the iterator. Proved in the theory on its correctness: what is pushed is read back in order, also
  after further pushes and after closing and reopening the log; a read never leaves the mapping;
  the search for the next item always moves forward, so that the iterator terminates.
\<close>

section \<open>State\<close>

record Log =
  log_path :: path
  log_mmap :: bytes
  log_size :: int
  log_syncOnWrite :: bool
  log_isEmpty :: bool

text \<open>\<^verbatim>\<open>Iter\<close> without its \<^verbatim>\<open>log\<close> pointer: the log is an argument of the functions that use it.\<close>

record Iter =
  it_firstKey :: Key
  it_currOff :: Off
  it_prevOff :: Off
  it_item :: Item
  it_err :: "err option"
  it_currLen :: Off
  it_prevLen :: Off
  it_exhausted :: bool
  it_continueOnErr :: bool

section \<open>Opening\<close>

definition nextSize_shift :: "int \<Rightarrow> nat" where
  "nextSize_shift sz =
     (let mb = 1024 * 1024 in
      if sz \<ge> 100 * mb then 7
      else if sz \<ge> 10 * mb then 6
      else if sz \<ge> 1 * mb then 5
      else if sz \<ge> 200 * 1024 then 4
      else 3)"

definition nextSize :: "int \<Rightarrow> int \<Rightarrow> int" where
  "nextSize PageSize sz =
     (if sz < 0 then 0
      else let currPages = sz div PageSize; shift = nextSize_shift sz
           in wrap64 (push_bit shift (drop_bit shift currPages + 1) * PageSize))"

text \<open>The loop of \<^verbatim>\<open>shrink\<close>, with \<open>n\<close> for \<^verbatim>\<open>idx + 1\<close>.\<close>

fun shrink_loop :: "bytes \<Rightarrow> nat \<Rightarrow> nat" where
  "shrink_loop mmap 0 = 0"
| "shrink_loop mmap (Suc idx) = (if mmap ! idx = 0 then shrink_loop mmap idx else Suc idx)"

definition shrink :: "Log \<Rightarrow> int" where
  "shrink l = int (shrink_loop (log_mmap l) (nat (log_size l)))"

definition vlog_Open :: "int \<Rightarrow> path \<Rightarrow> bool \<Rightarrow> world \<Rightarrow> (err + Log) \<times> world" where
  "vlog_Open PageSize path syncOnWrite w =
     (case OpenCreate path w of
        (Some e, w) \<Rightarrow> (Inl (ErrSys ''log: open''), w)
      | (None, w) \<Rightarrow>
     (case Call ''log: stat'' w of
        (Some e, w) \<Rightarrow> (Inl e, w)
      | (None, w) \<Rightarrow>
     (let infoSize = length (contents w path);
          (terr, w) = (if infoSize = 0 then Truncate path (nat (nextSize PageSize 0)) w else (None, w))
      in case terr of
        Some e \<Rightarrow> (Inl (ErrSys ''truncate''), w)
      | None \<Rightarrow>
     (case Call ''log: mmap'' w of
        (Some e, w) \<Rightarrow> (Inl e, w)
      | (None, w) \<Rightarrow>
          let l = \<lparr>log_path = path, log_mmap = contents w path, log_size = int infoSize,
                   log_syncOnWrite = syncOnWrite, log_isEmpty = (infoSize = 0)\<rparr>
          in (Inr (l\<lparr>log_size := shrink l\<rparr>), w)))))"

section \<open>Writing\<close>

definition marker :: byte where "marker = 0xFF"

text \<open>\<^verbatim>\<open>writeItem\<close>: what was written before a panic stays written.\<close>

definition writeItem :: "Item \<Rightarrow> Log \<Rightarrow> unit go \<times> Log" where
  "writeItem it l =
     (let off = nat (log_size l) in
      case put_at (log_mmap l) off (PutUint32 (of_nat (length (item_Blob it)))) of
        Panic \<Rightarrow> (Panic, l)
      | Ret m1 \<Rightarrow>
     (let off = off + 4 in
      case put_at m1 off (PutUint64 (keyw (item_Key it))) of
        Panic \<Rightarrow> (Panic, l\<lparr>log_mmap := m1\<rparr>)
      | Ret m2 \<Rightarrow>
     (let off = off + 8; n = min (length m2 - off) (length (item_Blob it));
          m3 = take off m2 @ take n (item_Blob it) @ drop (off + n) m2; off = off + n in
      case put_at m3 off [marker] of
        Panic \<Rightarrow> (Panic, l\<lparr>log_mmap := m3\<rparr>)
      | Ret m4 \<Rightarrow>
     (case put_at m4 (off + 1) [marker] of
        Panic \<Rightarrow> (Panic, l\<lparr>log_mmap := m4\<rparr>)
      | Ret m5 \<Rightarrow>
          (Ret (), l\<lparr>log_mmap := m5, log_size := int off + uint TrailerSize\<rparr>)))))"

text \<open>
  The copy loop of \<^verbatim>\<open>Push\<close>. A store into mapped memory that the file system cannot back raises a
  fault, which the program turns into a panic: one entry of the fault script per item.
\<close>

fun writeItems :: "Items \<Rightarrow> Log \<Rightarrow> world \<Rightarrow> unit go \<times> Log \<times> world" where
  "writeItems [] l w = (Ret (), l, w)"
| "writeItems (it # its) l w =
     (let (ok, w) = sys w in
      if \<not> ok then (Panic, l, w)
      else case writeItem it l of
             (Panic, l) \<Rightarrow> (Panic, l, w)
           | (Ret _, l) \<Rightarrow> writeItems its l w)"

definition Log_Sync :: "bool \<Rightarrow> Log \<Rightarrow> world \<Rightarrow> err option \<times> world" where
  "Log_Sync force l w =
     (if \<not> log_syncOnWrite l \<and> \<not> force then (None, w) else Call ''msync'' w)"

text \<open>The mapping is the file.\<close>

definition flush_map :: "Log \<Rightarrow> world \<Rightarrow> world" where
  "flush_map l w = put_node (log_path l) (File (log_mmap l)) w"

text \<open>
  The growing of the mapping in \<^verbatim>\<open>Push\<close>: \<^verbatim>\<open>ftruncate\<close>, then \<^verbatim>\<open>mremap\<close>, which maps the grown file.
  The mapping is assigned from the result of \<^verbatim>\<open>Mremap\<close> also when that fails.
\<close>

definition Log_grow :: "int \<Rightarrow> Log \<Rightarrow> world \<Rightarrow> err option \<times> Log \<times> world" where
  "Log_grow nextMmapSize l w =
     (if nextMmapSize > int (length (log_mmap l))
      then case Truncate (log_path l) (nat nextMmapSize) w of
             (Some e, w) \<Rightarrow> (Some (ErrSys ''truncate''), l, w)
           | (None, w) \<Rightarrow>
               (case Call ''remap'' w of
                  (Some e, w) \<Rightarrow> (Some e, l\<lparr>log_mmap := []\<rparr>, w)
                | (None, w) \<Rightarrow> (None, l\<lparr>log_mmap := resize (log_mmap l) (nat nextMmapSize)\<rparr>, w))
      else (None, l, w))"

text \<open>\<^verbatim>\<open>items[0]\<close> panics on an empty batch.\<close>

definition Log_Push :: "int \<Rightarrow> Items \<Rightarrow> Log \<Rightarrow> world \<Rightarrow> (err + Location) go \<times> Log \<times> world" where
  "Log_Push PageSize items l w =
     (case items of
        [] \<Rightarrow> (Panic, l, w)
      | it0 # _ \<Rightarrow>
     (let addSize = Items_StorageSize items;
          loc = \<lparr>loc_Key = item_Key it0, loc_Off = word_of_int (log_size l),
                 loc_Len = of_nat (length items)\<rparr>;
          nextMmapSize = nextSize PageSize (wrap64 (log_size l + sint addSize))
      in case Log_grow nextMmapSize l w of
           (Some e, l, w) \<Rightarrow> (Ret (Inl e), l, w)
         | (None, l, w) \<Rightarrow>
     (case writeItems items l w of
        (Panic, l, w) \<Rightarrow> (Panic, l, flush_map l w)
      | (Ret _, l, w) \<Rightarrow>
     (case Log_Sync False l (flush_map l w) of
        (Some e, w) \<Rightarrow> (Ret (Inl (ErrSys ''sync'')), l, w)
      | (None, w) \<Rightarrow>
          (Ret (Inr loc), (if log_isEmpty l \<and> length items > 0 then l\<lparr>log_isEmpty := False\<rparr> else l), w)))))"

definition Log_IsEmpty :: "Log \<Rightarrow> bool" where
  "Log_IsEmpty l = log_isEmpty l"

text \<open>\<^verbatim>\<open>Close\<close> joins the errors of its three calls.\<close>

definition join_err :: "err option \<Rightarrow> err option \<Rightarrow> err option" where
  "join_err a b = (case a of None \<Rightarrow> b | Some e \<Rightarrow> Some e)"

definition Log_Close :: "Log \<Rightarrow> world \<Rightarrow> err option \<times> world" where
  "Log_Close l w =
     (let (syncErr, w) = Call ''msync'' w;
          (unmapErr, w) = Call ''munmap'' w;
          (closeErr, w) = Call ''close'' w
      in (join_err syncErr (join_err unmapErr closeErr), w))"

section \<open>Reading\<close>

definition Log_At :: "Location \<Rightarrow> bool \<Rightarrow> Iter" where
  "Log_At loc continueOnErr =
     \<lparr>it_firstKey = loc_Key loc, it_currOff = loc_Off loc, it_prevOff = 0,
      it_item = \<lparr>item_Key = Key 0, item_Blob = []\<rparr>, it_err = None,
      it_currLen = loc_Len loc, it_prevLen = 0, it_exhausted = False,
      it_continueOnErr = continueOnErr\<rparr>"

abbreviation size_off :: "Log \<Rightarrow> Off" where
  "size_off l \<equiv> word_of_int (log_size l)"

text \<open>The scan of \<^verbatim>\<open>findNextItem\<close> from \<open>idx\<close> up to \<open>lim\<close> (\<^verbatim>\<open>offSize-1\<close>).\<close>

function find_marker :: "bytes \<Rightarrow> Off \<Rightarrow> Off \<Rightarrow> Off \<Rightarrow> Off go" where
  "find_marker mmap offSize lim idx =
     (if idx < lim
      then go_bind (get_at mmap (unat idx)) (\<lambda>b0.
           go_bind (if b0 = marker then get_at mmap (unat (idx + 1)) else Ret 0) (\<lambda>b1.
           if b0 = marker \<and> b1 = marker
           then let nextItemIdx = idx + 2 in
                Ret (if nextItemIdx \<ge> offSize then offSize else nextItemIdx)
           else find_marker mmap offSize lim (idx + 1)))
      else Ret offSize)"
  by pat_completeness auto
termination
  by (relation "measure (\<lambda>(mmap, offSize, lim, idx). unat lim - unat idx)")
    (auto simp: unat_inc word_less_nat_alt)

declare find_marker.simps [simp del]

definition findNextItem :: "Log \<Rightarrow> Off \<Rightarrow> Off go" where
  "findNextItem l off =
     (let offSize = size_off l in find_marker (log_mmap l) offSize (offSize - 1) (off + 1))"

text \<open>
  \<^verbatim>\<open>readItemAt\<close>: an error or none, and the item the out-parameter holds afterwards. Offsets are
  unsigned and wrap; the comparisons with the size convert them to \<^verbatim>\<open>int64\<close>.
\<close>

definition readItemAt :: "Log \<Rightarrow> Off \<Rightarrow> Item \<Rightarrow> (err option \<times> Item) go" where
  "readItemAt l off it =
     (if wrap64 (sint off + uint HeaderSize) \<ge> log_size l then Ret (None, it)
      else
        go_bind (slice_at (log_mmap l) (unat off) (length (log_mmap l))) (\<lambda>b0.
        go_bind (Uint32 b0) (\<lambda>siz.
        go_bind (slice_at (log_mmap l) (unat (off + 4)) (length (log_mmap l))) (\<lambda>b4.
        go_bind (Uint64 b4) (\<lambda>key.
          if siz > 64 * 1024 * 1024 then Ret (Some ErrAllocationTooBig, it)
          else if wrap64 (sint off + uint HeaderSize + uint siz + uint TrailerSize) > log_size l
          then Ret (Some ErrBadOffset, it)
          else
            let blobOff = off + HeaderSize; trailerOff = blobOff + ucast siz in
            go_bind (get_at (log_mmap l) (unat trailerOff)) (\<lambda>t0.
            go_bind (if t0 \<noteq> marker then get_at (log_mmap l) (unat (trailerOff + 1)) else Ret marker) (\<lambda>t1.
              if t0 \<noteq> marker \<and> t1 \<noteq> marker then Ret (Some ErrMissingTrailer, it)
              else go_bind (slice_at (log_mmap l) (unat blobOff) (unat trailerOff)) (\<lambda>blob.
                   Ret (None, \<lparr>item_Key = Key key, item_Blob = blob\<rparr>)))))))))"

section \<open>Finding the next item: it moves forward\<close>

lemma find_marker_bound:
  assumes "find_marker mmap offSize (offSize - 1) idx = Ret r"
  shows "r = offSize \<or> (r < offSize \<and> unat idx + 2 \<le> unat r)"
  using assms
proof (induction mmap offSize "offSize - 1" idx rule: find_marker.induct)
  case (1 mmap offSize idx)
  show ?case
  proof (cases "idx < offSize - 1")
    case False
    with "1.prems" show ?thesis by (simp add: find_marker.simps [of mmap offSize "offSize - 1" idx])
  next
    case True
    have inc: "unat (idx + 1) = Suc (unat idx)" by (rule unat_inc [OF True])
    from "1.prems" True obtain b0 b1 where b: "get_at mmap (unat idx) = Ret b0"
        "(if b0 = marker then get_at mmap (unat (idx + 1)) else Ret 0) = Ret b1"
      and r: "(if b0 = marker \<and> b1 = marker
               then let nextItemIdx = idx + 2 in Ret (if nextItemIdx \<ge> offSize then offSize else nextItemIdx)
               else find_marker mmap offSize (offSize - 1) (idx + 1)) = Ret r"
      by (auto simp only: find_marker.simps [of mmap offSize "offSize - 1" idx] go_bind_eq_Ret if_True)
    show ?thesis
    proof (cases "b0 = marker \<and> b1 = marker")
      case False
      then have "find_marker mmap offSize (offSize - 1) (idx + 1) = Ret r" using r by (auto split: if_splits)
      then show ?thesis using "1.hyps" [OF True b False] inc by auto
    next
      case mark: True
      show ?thesis
      proof (cases "idx + 2 \<ge> offSize")
        case False
        then have "r = idx + 2" "offSize \<noteq> 0" using r mark by auto
        then have "unat (offSize - 1) < unat (- 1 :: Off)"
          by (metis diff_eq_eq add.left_inverse word_less_nat_alt word_order.not_eq_extremum)
        then have "idx + 1 < - 1" using True inc by (simp add: word_less_nat_alt)
        then have "unat (idx + 1 + 1) = Suc (unat (idx + 1))" by (rule unat_inc)
        moreover have "idx + 1 + 1 = r" using \<open>r = idx + 2\<close> by simp
        ultimately show ?thesis using False \<open>r = idx + 2\<close> inc by (simp add: not_le)
      qed (use r mark in simp)
    qed
  qed
qed

lemma findNextItem_forward:
  assumes "findNextItem l off = Ret r" "r < size_off l" "off \<noteq> - 1"
  shows "unat off < unat r"
proof -
  have "off < - 1" using assms(3) by (simp add: word_order.not_eq_extremum)
  then have "unat (off + 1) = Suc (unat off)" by (rule unat_inc)
  then show ?thesis using find_marker_bound assms(1,2) by (fastforce simp: findNextItem_def Let_def)
qed

section \<open>The iterator\<close>

text \<open>
  The read loop of \<^verbatim>\<open>Next\<close>: retry behind the next end marker while items are damaged and errors are
  to be skipped. Each retry starts at a larger offset.
\<close>

function Next_loop :: "Log \<Rightarrow> Iter \<Rightarrow> (bool \<times> Iter) go" where
  "Next_loop l li =
     go_bind (readItemAt l (it_currOff li) (it_item li)) (\<lambda>(e, it).
       let li = li\<lparr>it_item := it\<rparr> in
       case e of
         None \<Rightarrow> Ret (True, li)
       | Some e \<Rightarrow>
           if \<not> it_continueOnErr li then Ret (False, li\<lparr>it_err := Some e, it_exhausted := True\<rparr>)
           else go_bind (findNextItem l (it_currOff li)) (\<lambda>off.
                  let li = li\<lparr>it_currOff := off\<rparr> in
                  if off \<ge> size_off l then Ret (False, li\<lparr>it_exhausted := True\<rparr>)
                  else Next_loop l li))"
  by pat_completeness auto
termination
proof (relation "measure (\<lambda>(l, li). if it_currOff li = - 1 then 2 ^ 64 else 2 ^ 64 - 1 - unat (it_currOff li))",
    goal_cases)
  case 1
  show ?case by simp
next
  case prems: (2 l li a e it li1 e' off li2)
  then have off: "findNextItem l (it_currOff li) = Ret off" "off < size_off l" "it_currOff li2 = off"
    by simp_all
  then have "off \<noteq> - 1" using word_order.extremum_strict by fastforce
  moreover have "unat (it_currOff li) < unat off" if "it_currOff li \<noteq> - 1"
    using findNextItem_forward off that by simp
  moreover have "unat off < 2 ^ 64" using unsigned_less [of off, where ?'a = nat] by simp
  ultimately show ?case using off(3) by auto
qed

declare Next_loop.simps [simp del]

definition Iter_Next :: "Log \<Rightarrow> Iter \<Rightarrow> (bool \<times> Iter) go" where
  "Iter_Next l li =
     (if it_currLen li = 0 \<or> it_exhausted li then Ret (False, li\<lparr>it_exhausted := True\<rparr>)
      else if length (log_mmap l) > 0 \<and> it_currOff li \<ge> size_off l
      then Ret (False, li\<lparr>it_exhausted := True\<rparr>)
      else go_bind (Next_loop l li) (\<lambda>(ok, li).
             if \<not> ok then Ret (False, li)
             else Ret (True, li\<lparr>it_prevOff := it_currOff li, it_prevLen := it_currLen li,
                               it_currOff := it_currOff li + Item_StorageSize (it_item li),
                               it_currLen := it_currLen li - 1\<rparr>)))"

definition CurrentLocation :: "Iter \<Rightarrow> Location" where
  "CurrentLocation li =
     \<lparr>loc_Key = item_Key (it_item li), loc_Off = it_prevOff li, loc_Len = it_prevLen li\<rparr>"

end
