(* ===== verification/Vlog_Correct.thy ===== *)
theory Vlog_Correct
  imports Vlog
begin

text \<open>
  Correctness of the value log. The abstract view of a log is the list of the items pushed to it:
  \<open>log_rep l its\<close> says that the used part of the mapping is the encoding of \<open>its\<close> and that zeros
  follow. \<open>stored l off its\<close> says that the items \<open>its\<close> stand at offset \<open>off\<close>.
\<close>

section \<open>The format\<close>

definition enc_item :: "Item \<Rightarrow> bytes" where
  "enc_item it = PutUint32 (of_nat (length (item_Blob it))) @ PutUint64 (keyw (item_Key it)) @
                 item_Blob it @ [marker, marker]"

definition enc_items :: "Items \<Rightarrow> bytes" where
  "enc_items its = concat (map enc_item its)"

text \<open>A payload that \<^verbatim>\<open>readItemAt\<close> accepts.\<close>

definition valid_item :: "Item \<Rightarrow> bool" where
  "valid_item it \<longleftrightarrow> length (item_Blob it) \<le> 64 * 1024 * 1024"

text \<open>A mapping is far smaller than the address space; \<open>2 ^ 62\<close> is a generous bound.\<close>

definition wf_log :: "Log \<Rightarrow> bool" where
  "wf_log l \<longleftrightarrow> 0 \<le> log_size l \<and> log_size l \<le> int (length (log_mmap l)) \<and>
               int (length (log_mmap l)) < 2 ^ 62"

text \<open>The part of the mapping that is in use.\<close>

definition used :: "Log \<Rightarrow> bytes" where
  "used l = take (nat (log_size l)) (log_mmap l)"

definition log_rep :: "Log \<Rightarrow> Items \<Rightarrow> bool" where
  "log_rep l its \<longleftrightarrow> wf_log l \<and> used l = enc_items its \<and>
     (\<forall>b\<in>set (drop (nat (log_size l)) (log_mmap l)). b = 0)"

definition stored :: "Log \<Rightarrow> Off \<Rightarrow> Items \<Rightarrow> bool" where
  "stored l off its \<longleftrightarrow> wf_log l \<and> (\<forall>it\<in>set its. valid_item it) \<and>
     (\<exists>p r. used l = p @ enc_items its @ r \<and> off = of_nat (length p))"

lemma length_enc_item [simp]: "length (enc_item it) = length (item_Blob it) + 14"
  by (simp add: enc_item_def)

lemma enc_items_simps [simp]:
  "enc_items [] = []" "enc_items (it # its) = enc_item it @ enc_items its"
  "enc_items (xs @ ys) = enc_items xs @ enc_items ys"
  by (simp_all add: enc_items_def)

lemma length_enc_items_ge: "14 * length its \<le> length (enc_items its)"
  by (induction its) simp_all

lemma length_used [simp]: "wf_log l \<Longrightarrow> length (used l) = nat (log_size l)"
  by (auto simp: used_def wf_log_def)

lemma mmap_split: "log_mmap l = used l @ drop (nat (log_size l)) (log_mmap l)"
  by (simp add: used_def)

lemma of_nat_Item_StorageSize: "Item_StorageSize it = of_nat (length (enc_item it))"
  by (simp add: Item_StorageSize_def HeaderSize_def TrailerSize_def)

lemma Items_StorageSize_enc: "Items_StorageSize its = of_nat (length (enc_items its))"
  by (induction its) (simp_all add: Items_StorageSize_sum of_nat_Item_StorageSize)

section \<open>Reading back one item\<close>

lemma header_consts [simp]: "uint HeaderSize = 12" "uint TrailerSize = 2"
  by (simp_all add: HeaderSize_def TrailerSize_def)

lemma uint_blob_size: "valid_item it \<Longrightarrow> uint (of_nat (length (item_Blob it)) :: 32 word) = int (length (item_Blob it))"
  by (simp add: valid_item_def uint_nat unat_of_nat)

lemma blob_size_ok: "valid_item it \<Longrightarrow> \<not> (64 * 1024 * 1024 < (of_nat (length (item_Blob it)) :: 32 word))"
  by (simp add: valid_item_def word_less_nat_alt unat_of_nat)

lemma ucast_blob_size:
  "valid_item it \<Longrightarrow> (ucast (of_nat (length (item_Blob it)) :: 32 word) :: Off) = of_nat (length (item_Blob it))"
  by (simp add: valid_item_def unsigned_of_nat take_bit_nat_eq_self)

lemma slice_to_end: "length p \<le> length buf \<Longrightarrow> buf = p @ r \<Longrightarrow> slice_at buf (length p) (length buf) = Ret r"
  by (simp add: slice_at_def)

lemma readItemAt_stored:
  assumes st: "wf_log l" "log_mmap l = p @ enc_item it @ r" "valid_item it"
    and le: "int (length p + length (enc_item it)) \<le> log_size l"
  shows "readItemAt l (of_nat (length p)) it0 = Ret (None, it)"
proof -
  define n where "n = length (item_Blob it)"
  have bound: "length p + n + 14 < 2 ^ 63" using st(1) le by (simp add: wf_log_def n_def)
  have off: "sint (of_nat (length p) :: Off) = int (length p)"
    using bound by (intro sint_of_nat64) simp
  have un: "unat (of_nat (length p) :: Off) = length p" "unat (of_nat (length p) + 4 :: Off) = length p + 4"
    "unat (of_nat (length p) + HeaderSize) = length p + 12"
    "unat (of_nat (length p) + HeaderSize + of_nat n) = length p + 12 + n"
    using bound by (simp_all add: unat_of_nat64 unat_word_ariths HeaderSize_def)
  note un = un [unfolded n_def]
  have m0: "log_mmap l = p @ PutUint32 (of_nat n) @ PutUint64 (keyw (item_Key it)) @ item_Blob it @ marker # marker # r"
    using st(2) by (simp add: enc_item_def n_def)
  have s0: "slice_at (log_mmap l) (length p) (length (log_mmap l)) =
      Ret (PutUint32 (of_nat n) @ PutUint64 (keyw (item_Key it)) @ item_Blob it @ marker # marker # r)"
    by (rule slice_to_end) (simp_all add: m0)
  have s4: "slice_at (log_mmap l) (length p + 4) (length (log_mmap l)) =
      Ret (PutUint64 (keyw (item_Key it)) @ item_Blob it @ marker # marker # r)"
    using slice_to_end [of "p @ PutUint32 (of_nat n)" "log_mmap l"] by (simp add: m0)
  have t0: "get_at (log_mmap l) (length p + 12 + n) = Ret marker"
    unfolding m0 using get_at_app [of "p @ PutUint32 (of_nat n) @ PutUint64 (keyw (item_Key it)) @ item_Blob it"]
    by (simp add: n_def)
  have sb: "slice_at (log_mmap l) (length p + 12) (length p + 12 + n) = Ret (item_Blob it)"
    unfolding m0 using slice_at_app [of "p @ PutUint32 (of_nat n) @ PutUint64 (keyw (item_Key it))"]
    by (simp add: n_def)
  have c1: "\<not> log_size l \<le> wrap64 (int (length p) + 12)" "\<not> log_size l < wrap64 (int (length p) + 12 + int n + 2)"
    using le bound by (simp_all add: n_def)
  show ?thesis
    unfolding readItemAt_def off un
    using c1 s0 s4 t0 sb blob_size_ok [OF st(3)] uint_blob_size [OF st(3)] ucast_blob_size [OF st(3)] un
    by (simp add: n_def Let_def)
qed

section \<open>Iterating over a batch\<close>

text \<open>What an iterator still has to yield: the current item and those after it.\<close>

definition iter_rep :: "Log \<Rightarrow> Iter \<Rightarrow> Items \<Rightarrow> bool" where
  "iter_rep l li xs \<longleftrightarrow> it_err li = None \<and>
     (if it_exhausted li then xs = []
      else xs \<noteq> [] \<and> it_item li = hd xs \<and>
           stored l (it_currOff li) (tl xs) \<and> it_currLen li = of_nat (length (tl xs)) \<and>
           stored l (it_prevOff li) xs \<and> it_prevLen li = of_nat (length xs))"

lemma stored_bound: "stored l off its \<Longrightarrow> unat off + length (enc_items its) \<le> nat (log_size l)"
proof -
  assume "stored l off its"
  then obtain p r where u: "used l = p @ enc_items its @ r" "off = of_nat (length p)" and wf: "wf_log l"
    by (auto simp: stored_def)
  have "length p + length (enc_items its) \<le> nat (log_size l)"
    using arg_cong [OF u(1), of length] wf by simp
  moreover have "nat (log_size l) < 2 ^ 63" using wf by (simp add: wf_log_def nat_less_iff)
  ultimately show ?thesis using u(2) by (simp add: unat_of_nat64)
qed

lemma stored_length: "stored l off its \<Longrightarrow> length its < 2 ^ 63"
proof -
  assume st: "stored l off its"
  then have "nat (log_size l) < 2 ^ 63" by (simp add: stored_def wf_log_def nat_less_iff)
  then show ?thesis using stored_bound [OF st] length_enc_items_ge [of its] by simp
qed

lemma stored_tl:
  assumes "stored l off (it # its)"
  shows "stored l (off + Item_StorageSize it) its"
proof -
  obtain p r where "used l = p @ enc_items (it # its) @ r" "off = of_nat (length p)"
    using assms by (auto simp: stored_def)
  then have "used l = (p @ enc_item it) @ enc_items its @ r"
    "off + Item_StorageSize it = of_nat (length (p @ enc_item it))"
    by (simp_all add: of_nat_Item_StorageSize)
  then show ?thesis using assms unfolding stored_def by fastforce
qed

lemma stored_off_less:
  assumes "stored l off (it # its)"
  shows "\<not> size_off l \<le> off"
proof -
  have "wf_log l" using assms by (simp add: stored_def)
  then have "unat (size_off l) = nat (log_size l)"
    by (simp add: wf_log_def unsigned_of_int take_bit_int_eq_self)
  then show ?thesis using stored_bound [OF assms] by (simp add: word_le_nat_alt)
qed

lemma readItemAt_hd:
  assumes "stored l off (it # its)"
  shows "readItemAt l off it0 = Ret (None, it)"
proof -
  obtain p r where p: "used l = p @ enc_items (it # its) @ r" "off = of_nat (length p)"
    and wf: "wf_log l" "valid_item it"
    using assms by (auto simp: stored_def)
  have "log_mmap l = p @ enc_item it @ (enc_items its @ r @ drop (nat (log_size l)) (log_mmap l))"
    using mmap_split [of l] p(1) by simp
  moreover have "int (length p + length (enc_item it)) \<le> log_size l"
    using arg_cong [OF p(1), of length] wf(1) by (simp add: wf_log_def nat_eq_iff)
  ultimately show ?thesis using readItemAt_stored [OF wf(1) _ wf(2)] p(2) by blast
qed

text \<open>One step of an iterator in front of a stored batch.\<close>

lemma Iter_Next_stored:
  assumes st: "stored l (it_currOff li) its" and len: "it_currLen li = of_nat (length its)"
    and ex: "\<not> it_exhausted li" and err: "it_err li = None"
  shows "\<exists>li'. Iter_Next l li = Ret (its \<noteq> [], li') \<and> iter_rep l li' its \<and>
           it_firstKey li' = it_firstKey li \<and> (its = [] \<longrightarrow> it_item li' = it_item li)"
proof (cases its)
  case Nil
  with len err show ?thesis by (simp add: Iter_Next_def iter_rep_def)
next
  case (Cons it rest)
  have n: "length its < 2 ^ 63" using st by (rule stored_length)
  have ne: "it_currLen li \<noteq> 0"
  proof
    assume "it_currLen li = 0"
    then have "unat (of_nat (length its) :: Off) = 0" using len by simp
    moreover have "unat (of_nat (length its) :: Off) = length its"
      using n by (intro unat_of_nat64) simp
    ultimately show False using Cons by simp
  qed
  have "Next_loop l li = Ret (True, li\<lparr>it_item := it\<rparr>)"
    using readItemAt_hd [of l "it_currOff li" it rest] st Cons by (simp add: Next_loop.simps [of l li])
  moreover have "\<not> size_off l \<le> it_currOff li" using st Cons stored_off_less by simp
  ultimately show ?thesis
    using ne ex err Cons stored_tl [of l "it_currOff li" it rest] st len
    by (simp add: Iter_Next_def iter_rep_def)
qed

lemma Log_At_Next:
  assumes "stored l (loc_Off loc) its" "loc_Len loc = of_nat (length its)"
  shows "\<exists>li. Iter_Next l (Log_At loc c) = Ret (its \<noteq> [], li) \<and> iter_rep l li its \<and>
           it_firstKey li = loc_Key loc"
  using Iter_Next_stored [of l "Log_At loc c" its] assms by (auto simp: Log_At_def)

lemma iter_rep_Next:
  assumes "iter_rep l li (x # xs)"
  shows "\<exists>li'. Iter_Next l li = Ret (xs \<noteq> [], li') \<and> iter_rep l li' xs \<and>
           it_firstKey li' = it_firstKey li \<and> (xs = [] \<longrightarrow> it_item li' = it_item li)"
  using assms by (intro Iter_Next_stored) (auto simp: iter_rep_def split: if_splits)

text \<open>Draining an iterator: the loop \<^verbatim>\<open>for iter.Next() { use(iter.Item()) }\<close>, with fuel.\<close>

fun drain :: "nat \<Rightarrow> Log \<Rightarrow> Iter \<Rightarrow> (Items \<times> Iter) go" where
  "drain 0 l li = Ret ([], li)"
| "drain (Suc n) l li =
     go_bind (Iter_Next l li) (\<lambda>(ok, li).
       if \<not> ok then Ret ([], li)
       else go_bind (drain n l li) (\<lambda>(its, li'). Ret (it_item li # its, li')))"

lemma drain_iter_rep:
  "iter_rep l li (x # xs) \<Longrightarrow> length xs < n \<Longrightarrow> \<exists>li'. drain n l li = Ret (xs, li') \<and> it_exhausted li' \<and> it_err li' = None"
proof (induction n arbitrary: li x xs)
  case (Suc n)
  obtain li1 where n: "Iter_Next l li = Ret (xs \<noteq> [], li1)" "iter_rep l li1 xs"
    using iter_rep_Next [OF Suc.prems(1)] by blast
  show ?case
  proof (cases xs)
    case Nil
    then show ?thesis using n by (auto simp: iter_rep_def split: if_splits)
  next
    case (Cons y ys)
    then have "it_item li1 = y" using n(2) by (auto simp: iter_rep_def split: if_splits)
    moreover obtain li' where "drain n l li1 = Ret (ys, li')" "it_exhausted li'" "it_err li' = None"
      using Suc.IH [of li1 y ys] n(2) Cons Suc.prems(2) by auto
    ultimately show ?thesis using n(1) Cons by simp
  qed
qed simp

lemma drain_At:
  assumes "stored l (loc_Off loc) its" "loc_Len loc = of_nat (length its)" "length its < n"
  shows "\<exists>li. drain n l (Log_At loc c) = Ret (its, li) \<and> it_exhausted li \<and> it_err li = None"
proof -
  obtain li where li: "Iter_Next l (Log_At loc c) = Ret (its \<noteq> [], li)" "iter_rep l li its"
    using Log_At_Next [OF assms(1,2)] by blast
  obtain m where m: "n = Suc m" using assms(3) by (cases n) auto
  show ?thesis
  proof (cases its)
    case Nil
    then show ?thesis using li m by (auto simp: iter_rep_def split: if_splits)
  next
    case (Cons x xs)
    then have "it_item li = x" using li(2) by (auto simp: iter_rep_def split: if_splits)
    moreover obtain li' where "drain m l li = Ret (xs, li')" "it_exhausted li'" "it_err li' = None"
      using drain_iter_rep [of l li x xs m] li(2) Cons assms(3) m by auto
    ultimately show ?thesis using li(1) m Cons by simp
  qed
qed

section \<open>Writing\<close>

lemma writeItem_ok:
  assumes "0 \<le> log_size l" "log_mmap l = p @ r" "log_size l = int (length p)"
    "length (enc_item it) \<le> length r"
  shows "writeItem it l =
    (Ret (), l\<lparr>log_mmap := p @ enc_item it @ drop (length (enc_item it)) r,
              log_size := int (length p + length (enc_item it))\<rparr>)"
proof -
  define b where "b = item_Blob it"
  define n where "n = length b"
  define h k where "h = PutUint32 (of_nat n)" and "k = PutUint64 (keyw (item_Key it))"
  have hk: "length h = 4" "length k = 8" by (simp_all add: h_def k_def)
  have len: "n + 14 \<le> length r" using assms(4) by (simp add: n_def b_def)
  have 1: "put_at (p @ r) (length p) h = Ret (p @ h @ drop 4 r)"
    using put_at_app [of p "length p" h r] hk len by simp
  have 2: "put_at (p @ h @ drop 4 r) (length p + 4) k = Ret (p @ h @ k @ drop 12 r)"
    using put_at_app [of "p @ h" "length p + 4" k "drop 4 r"] hk len by simp
  have 3: "min (length (p @ h @ k @ drop 12 r) - (length p + 4 + 8)) n = n" using hk len by simp
  have 4: "take (length p + 4 + 8) (p @ h @ k @ drop 12 r) @ take n b @ drop (length p + 4 + 8 + n) (p @ h @ k @ drop 12 r)
      = p @ h @ k @ b @ drop (12 + n) r"
    using hk by (simp add: n_def add.commute)
  have 5: "put_at (p @ h @ k @ b @ drop (12 + n) r) (length p + 4 + 8 + n) [marker] =
      Ret (p @ h @ k @ b @ marker # drop (13 + n) r)"
    using put_at_app [of "p @ h @ k @ b" "length p + 4 + 8 + n" "[marker]" "drop (12 + n) r"] hk len
    by (simp add: n_def)
  have 6: "put_at (p @ h @ k @ b @ marker # drop (13 + n) r) (length p + 4 + 8 + n + 1) [marker] =
      Ret (p @ h @ k @ b @ marker # marker # drop (14 + n) r)"
    using put_at_app [of "p @ h @ k @ b @ [marker]" "length p + 4 + 8 + n + 1" "[marker]" "drop (13 + n) r"] hk len
    by (simp add: n_def)
  have enc: "enc_item it = h @ k @ b @ [marker, marker]" by (simp add: enc_item_def h_def k_def n_def b_def)
  show ?thesis
    unfolding writeItem_def Let_def assms(2,3) nat_int b_def [symmetric] n_def [symmetric]
      h_def [symmetric] k_def [symmetric] 1 go.case 2 3 4 5 6
    using hk by (simp add: enc n_def add.commute)
qed

lemma writeItems_ok:
  assumes "w_faults w = []" "log_mmap l = p @ r" "log_size l = int (length p)"
    "length (enc_items its) \<le> length r"
  shows "writeItems its l w =
    (Ret (), l\<lparr>log_mmap := p @ enc_items its @ drop (length (enc_items its)) r,
              log_size := int (length p + length (enc_items its))\<rparr>, w)"
  using assms
proof (induction its arbitrary: l p r)
  case Nil
  then show ?case by simp
next
  case (Cons it its)
  have "writeItem it l = (Ret (), l\<lparr>log_mmap := p @ enc_item it @ drop (length (enc_item it)) r,
              log_size := int (length p + length (enc_item it))\<rparr>)"
    by (rule writeItem_ok) (use Cons.prems in simp_all)
  then show ?case
    using Cons.prems
      Cons.IH [of "l\<lparr>log_mmap := p @ enc_item it @ drop (length (enc_item it)) r,
              log_size := int (length p + length (enc_item it))\<rparr>" "p @ enc_item it" "drop (length (enc_item it)) r"]
    by (simp add: add.commute add.left_commute)
qed

section \<open>Growing\<close>

lemma nextSize_shift_le: "nextSize_shift sz \<le> 7"
  by (simp add: nextSize_shift_def Let_def)

lemma nextSize_eq:
  assumes "0 < pg" "0 \<le> sz" "sz + 128 * pg < 2 ^ 63"
  shows "nextSize pg sz = (sz div pg div 2 ^ nextSize_shift sz + 1) * 2 ^ nextSize_shift sz * pg"
    and "sz < nextSize pg sz" and "nextSize pg sz \<le> sz + 128 * pg"
proof -
  define c s where "c = sz div pg" and "s = nextSize_shift sz"
  define v where "v = (c div 2 ^ s + 1) * 2 ^ s"
  have "(2::int) ^ s \<le> 2 ^ 7" unfolding s_def by (intro power_increasing nextSize_shift_le) simp
  then have pow: "(2::int) ^ s \<le> 128" by simp
  have c: "c * pg \<le> sz" "sz < (c + 1) * pg"
    using pos_mod_bound [OF assms(1), of sz] pos_mod_sign [OF assms(1), of sz]
    by (simp_all add: c_def distrib_right minus_mod_eq_div_mult [symmetric])
  have "v = c - c mod 2 ^ s + 2 ^ s" by (simp add: v_def distrib_right minus_mod_eq_div_mult [symmetric])
  moreover have "0 \<le> c mod 2 ^ s" "c mod 2 ^ s < 2 ^ s" by simp_all
  ultimately have v: "c + 1 \<le> v" "v \<le> c + 128" using pow by linarith+
  have lower: "(c + 1) * pg \<le> v * pg" using v(1) assms(1) by (simp add: mult_right_mono)
  have upper: "v * pg \<le> c * pg + 128 * pg"
    using mult_right_mono [OF v(2), of pg] assms(1) by (simp add: algebra_simps)
  have "nextSize pg sz = wrap64 (v * pg)"
    using assms(2) by (simp add: nextSize_def c_def s_def v_def push_bit_eq_mult drop_bit_eq_div Let_def)
  also have "\<dots> = v * pg"
    using c lower upper assms by (intro wrap64_id) linarith+
  finally have eq: "nextSize pg sz = v * pg" .
  then show "nextSize pg sz = (sz div pg div 2 ^ nextSize_shift sz + 1) * 2 ^ nextSize_shift sz * pg"
    by (simp add: v_def c_def s_def)
  show "sz < nextSize pg sz" using eq c lower by linarith
  show "nextSize pg sz \<le> sz + 128 * pg" using eq c upper by linarith
qed

text \<open>The world holds the file of the log, with the content of the mapping.\<close>

definition log_on_disk :: "Log \<Rightarrow> world \<Rightarrow> bool" where
  "log_on_disk l w \<longleftrightarrow> file_at w (log_path l) = Some (log_mmap l)"

text \<open>Room for \<open>n\<close> more bytes: no \<^verbatim>\<open>int64\<close> of the push overflows.\<close>

definition room :: "int \<Rightarrow> Log \<Rightarrow> nat \<Rightarrow> bool" where
  "room pg l n \<longleftrightarrow> 0 < pg \<and> log_size l + int n + 128 * pg < 2 ^ 62"

lemma Log_grow_ok:
  assumes "w_faults w = []" "log_on_disk l w" "wf_log l" "room pg l n"
  obtains l' w' where "Log_grow (nextSize pg (log_size l + int n)) l w = (None, l', w')"
    "w_faults w' = []" "log_mmap l' = log_mmap l @ replicate (length (log_mmap l') - length (log_mmap l)) 0"
    "log_size l + int n \<le> int (length (log_mmap l'))" "int (length (log_mmap l')) < 2 ^ 62"
    "log_size l' = log_size l" "log_path l' = log_path l" "log_syncOnWrite l' = log_syncOnWrite l"
    "log_isEmpty l' = log_isEmpty l"
    "\<And>q. q \<noteq> log_path l \<Longrightarrow> node_at w' q = node_at w q"
proof -
  define N where "N = nextSize pg (log_size l + int n)"
  have N: "log_size l + int n < N" "N < 2 ^ 62"
    using nextSize_eq [of pg "log_size l + int n"] assms(3,4) by (simp_all add: N_def room_def wf_log_def)
  show ?thesis
  proof (cases "N > int (length (log_mmap l))")
    case True
    have "Log_grow N l w = (None, l\<lparr>log_mmap := resize (log_mmap l) (nat N)\<rparr>,
        put_node (log_path l) (File (resize (log_mmap l) (nat N))) w)"
      using assms(1,2) True by (simp add: Log_grow_def Truncate_def log_on_disk_def)
    moreover have "resize (log_mmap l) (nat N) = log_mmap l @ replicate (nat N - length (log_mmap l)) 0"
      using True by (simp add: resize_def)
    ultimately show ?thesis
      using assms(1) True N
      by (intro that [of "l\<lparr>log_mmap := resize (log_mmap l) (nat N)\<rparr>"
            "put_node (log_path l) (File (resize (log_mmap l) (nat N))) w"]) (simp_all flip: N_def)
  next
    case False
    then have "Log_grow N l w = (None, l, w)" by (simp add: Log_grow_def)
    then show ?thesis using assms N False by (intro that [of l w]) (simp_all flip: N_def add: wf_log_def)
  qed
qed

section \<open>Push\<close>

lemma log_rep_size: "log_rep l its \<Longrightarrow> log_size l = int (length (enc_items its))"
  unfolding log_rep_def using length_used [of l] by (auto simp: wf_log_def)

lemma Log_Push_ok:
  assumes rep: "log_rep l its" and ne: "items \<noteq> []" and nf: "w_faults w = []"
    and disk: "log_on_disk l w" and rm: "room pg l (length (enc_items items))"
  obtains l' w' where
    "Log_Push pg items l w =
       (Ret (Inr \<lparr>loc_Key = item_Key (hd items), loc_Off = of_nat (length (enc_items its)),
                  loc_Len = of_nat (length items)\<rparr>), l', w')"
    "log_rep l' (its @ items)" "log_on_disk l' w'" "w_faults w' = []" "\<not> log_isEmpty l'"
    "log_path l' = log_path l" "log_syncOnWrite l' = log_syncOnWrite l"
    "\<And>q. q \<noteq> log_path l \<Longrightarrow> node_at w' q = node_at w q"
proof -
  define n where "n = length (enc_items items)"
  have wf: "wf_log l" using rep by (simp add: log_rep_def)
  have size: "log_size l = int (length (enc_items its))" using rep by (rule log_rep_size)
  have "n < 2 ^ 63" using rm size by (simp add: room_def n_def)
  then have "sint (Items_StorageSize items) = int n"
    by (simp add: Items_StorageSize_enc sint_of_nat64 n_def)
  then have sz: "wrap64 (log_size l + sint (Items_StorageSize items)) = log_size l + int n"
    using rm size by (simp add: room_def n_def)
  obtain l1 w1 where g: "Log_grow (nextSize pg (log_size l + int n)) l w = (None, l1, w1)"
    and w1: "w_faults w1 = []" "\<And>q. q \<noteq> log_path l \<Longrightarrow> node_at w1 q = node_at w q"
    and l1: "log_mmap l1 = log_mmap l @ replicate (length (log_mmap l1) - length (log_mmap l)) 0"
    "log_size l + int n \<le> int (length (log_mmap l1))" "int (length (log_mmap l1)) < 2 ^ 62"
    "log_size l1 = log_size l" "log_path l1 = log_path l" "log_syncOnWrite l1 = log_syncOnWrite l"
    using Log_grow_ok [OF nf disk wf rm] unfolding n_def by metis
  define z where "z = drop (nat (log_size l)) (log_mmap l) @ replicate (length (log_mmap l1) - length (log_mmap l)) 0"
  have zeros: "\<forall>b\<in>set z. b = 0" using rep by (auto simp: z_def log_rep_def)
  have used: "used l = enc_items its" using rep by (simp add: log_rep_def)
  have m1: "log_mmap l1 = enc_items its @ z"
    using l1(1) mmap_split [of l] unfolding z_def used by (metis append.assoc)
  have len: "n \<le> length z" using l1(2) m1 size by simp
  define l2 where "l2 = l1\<lparr>log_mmap := enc_items its @ enc_items items @ drop n z,
                           log_size := int (length (enc_items its) + n)\<rparr>"
  have wr: "writeItems items l1 w1 = (Ret (), l2, w1)"
    unfolding l2_def n_def
    by (rule writeItems_ok) (use w1 m1 l1(4) size len in \<open>simp_all add: n_def\<close>)
  define l3 where "l3 = (if log_isEmpty l2 \<and> length items > 0 then l2\<lparr>log_isEmpty := False\<rparr> else l2)"
  have push: "Log_Push pg items l w =
      (Ret (Inr \<lparr>loc_Key = item_Key (hd items), loc_Off = of_nat (length (enc_items its)),
                 loc_Len = of_nat (length items)\<rparr>), l3, flush_map l2 w1)"
  proof -
    obtain it0 rest where it: "items = it0 # rest" using ne by (cases items) auto
    have "Log_Sync False l2 (flush_map l2 w1) = (None, flush_map l2 w1)"
      using w1 by (simp add: Log_Sync_def flush_map_def)
    then show ?thesis
      unfolding Log_Push_def it list.case Let_def sz [unfolded it] g prod.case option.case wr [unfolded it]
        go.case
      using it size by (simp add: l3_def)
  qed
  have len2: "length (log_mmap l2) = length (log_mmap l1)" using len m1 by (simp add: l2_def n_def)
  have "log_rep l2 (its @ items)"
    using len len2 l1(3) zeros m1
    by (auto simp: log_rep_def wf_log_def used_def l2_def n_def nat_int_add dest: in_set_dropD)
  then have rep3: "log_rep l3 (its @ items)" by (simp add: l3_def log_rep_def wf_log_def used_def)
  show ?thesis
    by (rule that [OF push rep3]) (use ne w1 l1 in \<open>auto simp: log_on_disk_def flush_map_def l3_def l2_def\<close>)
qed

lemma stored_new:
  assumes "log_rep l (its @ items)" "\<forall>it\<in>set items. valid_item it"
  shows "stored l (of_nat (length (enc_items its))) items"
proof -
  have "used l = enc_items its @ enc_items items @ []" using assms(1) by (simp add: log_rep_def)
  then show ?thesis using assms unfolding stored_def log_rep_def by blast
qed

text \<open>The log is append-only: what was stored stays stored.\<close>

lemma stored_mono:
  assumes "stored l off xs" "log_rep l its" "log_rep l' (its @ items)"
  shows "stored l' off xs"
proof -
  obtain p r where p: "used l = p @ enc_items xs @ r" "off = of_nat (length p)"
    using assms(1) by (auto simp: stored_def)
  then have "used l' = p @ enc_items xs @ (r @ enc_items items)"
    using assms(2,3) by (simp add: log_rep_def)
  then show ?thesis using assms p(2) unfolding stored_def log_rep_def by blast
qed

section \<open>Reopening\<close>

lemma shrink_loop_zeros: "\<forall>i. k \<le> i \<and> i < n \<longrightarrow> m ! i = 0 \<Longrightarrow> k \<le> n \<Longrightarrow> shrink_loop m n = shrink_loop m k"
proof (induction n)
  case (Suc n)
  show ?case
  proof (cases "k = Suc n")
    case False
    then have "k \<le> n" using Suc.prems(2) by simp
    then show ?thesis using Suc by simp
  qed simp
qed simp

lemma enc_items_last: "its \<noteq> [] \<Longrightarrow> \<exists>bs. enc_items its = bs @ [marker]"
proof (induction its)
  case (Cons it its)
  show ?case
  proof (cases its)
    case Nil
    then show ?thesis by (auto simp: enc_item_def)
  next
    case (Cons it' its')
    then obtain bs where "enc_items its = bs @ [marker]" using Cons.IH by auto
    then show ?thesis by (metis append.assoc enc_items_simps(2))
  qed
qed simp

text \<open>The end of the used part is found again: the last byte of an item is not zero.\<close>

lemma shrink_loop_enc:
  assumes "\<forall>b\<in>set z. b = 0" "m = enc_items its @ z"
  shows "shrink_loop m (length m) = length (enc_items its)"
proof -
  have "shrink_loop m (length m) = shrink_loop m (length (enc_items its))"
    by (rule shrink_loop_zeros) (use assms in \<open>auto simp: nth_append\<close>)
  also have "\<dots> = length (enc_items its)"
  proof (cases "its = []")
    case False
    then obtain bs where "enc_items its = bs @ [marker]" using enc_items_last by blast
    then show ?thesis using assms(2) by (simp add: nth_append marker_def)
  qed simp
  finally show ?thesis .
qed

lemma vlog_Open_existing:
  assumes rep: "log_rep l its" and disk: "log_on_disk l w" and ne: "log_mmap l \<noteq> []" and nf: "w_faults w = []"
  shows "vlog_Open pg (log_path l) sync w =
    (Inr (l\<lparr>log_syncOnWrite := sync, log_isEmpty := False\<rparr>), w)"
proof -
  have m: "log_mmap l = enc_items its @ drop (nat (log_size l)) (log_mmap l)"
    using mmap_split [of l] rep by (simp add: log_rep_def)
  have "shrink_loop (log_mmap l) (length (log_mmap l)) = length (enc_items its)"
    by (rule shrink_loop_enc [OF _ m]) (use rep in \<open>simp add: log_rep_def\<close>)
  then have "int (shrink_loop (log_mmap l) (length (log_mmap l))) = log_size l"
    using log_rep_size [OF rep] by simp
  moreover have "OpenCreate (log_path l) w = (None, w)"
    using disk nf by (simp add: OpenCreate_def log_on_disk_def node_at_file)
  moreover have "contents w (log_path l) = log_mmap l" using disk by (simp add: contents_def log_on_disk_def)
  ultimately show ?thesis
    using nf ne by (simp add: vlog_Open_def shrink_def Let_def)
qed

lemma vlog_Open_fresh:
  assumes nf: "w_faults w = []" and p: "node_at w p = None" "node_at w (butlast p) = Some Dir"
    and pg: "0 < pg" "128 * pg < 2 ^ 62"
  obtains l w' where "vlog_Open pg p sync w = (Inr l, w')" "log_rep l []" "log_on_disk l w'"
    "log_isEmpty l" "log_path l = p" "log_syncOnWrite l = sync" "w_faults w' = []" "log_mmap l \<noteq> []"
    "\<And>q. q \<noteq> p \<Longrightarrow> node_at w' q = node_at w q"
proof -
  define N where "N = nat (nextSize pg 0)"
  have "0 < nextSize pg 0" "nextSize pg 0 \<le> 0 + 128 * pg"
    using nextSize_eq(2,3) [of pg 0] pg by simp_all
  then have N: "0 < N" "int N < 2 ^ 62" using pg(2) unfolding N_def by linarith+
  define l where "l = \<lparr>log_path = p, log_mmap = replicate N 0, log_size = 0, log_syncOnWrite = sync, log_isEmpty = True\<rparr>"
  have "vlog_Open pg p sync w =
      (Inr l, put_node p (File (replicate N 0)) (put_node p (File []) w))"
    using nf p by (simp add: vlog_Open_def OpenCreate_def contents_def Truncate_def resize_def shrink_def
        l_def N_def Let_def)
  then show ?thesis
    by (rule that) (use N nf in \<open>simp_all add: l_def log_rep_def wf_log_def used_def log_on_disk_def\<close>)
qed

section \<open>No read leaves the mapping\<close>

lemma size_off_unat: "wf_log l \<Longrightarrow> unat (size_off l) = nat (log_size l)"
  by (simp add: wf_log_def unsigned_of_int take_bit_int_eq_self)

lemma sint_unat_small: "unat (w :: Off) < 2 ^ 63 \<Longrightarrow> sint w = int (unat w)"
  using sint_of_nat64 [of "unat w"] by simp

lemma readItemAt_no_panic:
  assumes wf: "wf_log l" and off: "off < size_off l"
  shows "readItemAt l off it \<noteq> Panic"
proof -
  define n m where "n = unat off" and "m = length (log_mmap l)"
  have lt: "n < nat (log_size l)" using off wf by (simp add: word_less_nat_alt size_off_unat n_def)
  have m: "log_size l \<le> int m" "m < 2 ^ 62" using wf by (simp_all add: wf_log_def m_def)
  have sint: "sint off = int n" using lt m by (simp add: sint_unat_small n_def)
  have c1: "wrap64 (int n + 12) = int n + 12" using lt m by simp
  show ?thesis
  proof (cases "log_size l \<le> int n + 12")
    case True
    then show ?thesis by (simp add: readItemAt_def sint c1)
  next
    case False
    have off4: "unat (off + 4) = n + 4" using lt m by (simp add: unat_add_lt n_def)
    have len: "4 \<le> length (drop n (log_mmap l))" "8 \<le> length (drop (n + 4) (log_mmap l))"
      using False m(1) unfolding m_def length_drop by linarith+
    obtain siz where siz: "Uint32 (drop n (log_mmap l)) = Ret siz"
      using Uint32_Ret [OF len(1)] by blast
    obtain key where key: "Uint64 (drop (n + 4) (log_mmap l)) = Ret key"
      using Uint64_Ret [OF len(2)] by blast
    have sl: "slice_at (log_mmap l) n (length (log_mmap l)) = Ret (drop n (log_mmap l))"
      "slice_at (log_mmap l) (n + 4) (length (log_mmap l)) = Ret (drop (n + 4) (log_mmap l))"
      using len by (simp_all add: slice_at_def)
    have usz: "uint siz < 2 ^ 32" using uint_bounded [of siz] by simp
    have c2: "wrap64 (int n + 12 + uint siz + 2) = int n + 12 + uint siz + 2" using lt m usz by simp
    have "unat siz < 2 ^ 32" using unsigned_less [of siz, where ?'a = nat] by simp
    moreover have "n < 2 ^ 62" using lt m by linarith
    ultimately have small: "n + 14 + unat siz < 2 ^ 64" by simp
    have o1: "unat (off + HeaderSize) = n + 12"
      using unat_add_lt [of off HeaderSize] small by (simp add: n_def HeaderSize_def)
    have o2: "unat (off + HeaderSize + ucast siz) = n + 12 + unat siz"
      using unat_add_lt [of "off + HeaderSize" "ucast siz"] small o1 by simp
    have o3: "unat (off + HeaderSize + ucast siz + 1) = n + 13 + unat siz"
      using unat_add_lt [of "off + HeaderSize + ucast siz" 1] small o2 by simp
    note eval = readItemAt_def sint header_consts c1 n_def [symmetric] off4 sl go_bind.simps siz key c2
      o1 o2 o3 Let_def
    show ?thesis
    proof (cases "log_size l < int n + 12 + uint siz + 2")
      case True
      then show ?thesis unfolding eval by simp
    next
      case in_range: False
      moreover have "uint siz = int (unat siz)" by simp
      ultimately have "n + 12 + unat siz + 2 \<le> m" using m(1) by linarith
      then have "get_at (log_mmap l) (n + 12 + unat siz) \<noteq> Panic" "get_at (log_mmap l) (n + 13 + unat siz) \<noteq> Panic"
        "slice_at (log_mmap l) (n + 12) (n + 12 + unat siz) \<noteq> Panic"
        by (simp_all add: get_at_def slice_at_def m_def)
      then obtain t0 t1 b where t: "get_at (log_mmap l) (n + 12 + unat siz) = Ret t0"
        "get_at (log_mmap l) (n + 13 + unat siz) = Ret t1"
        "slice_at (log_mmap l) (n + 12) (n + 12 + unat siz) = Ret b"
        by (metis go.exhaust)
      show ?thesis unfolding eval t by simp
    qed
  qed
qed

lemma find_marker_no_panic:
  assumes "unat lim < length mmap"
  shows "find_marker mmap offSize lim idx \<noteq> Panic"
  using assms
proof (induction mmap offSize lim idx rule: find_marker.induct)
  case (1 mmap offSize lim idx)
  show ?case
  proof (cases "idx < lim")
    case True
    have "unat (idx + 1) = Suc (unat idx)" using True by (rule unat_inc)
    moreover have "unat idx < unat lim" using True by (simp add: word_less_nat_alt)
    ultimately have b: "get_at mmap (unat idx) = Ret (mmap ! unat idx)"
      "get_at mmap (unat (idx + 1)) = Ret (mmap ! unat (idx + 1))"
      using "1.prems" by (simp_all add: get_at_def)
    show ?thesis
    proof (cases "mmap ! unat idx = marker \<and> mmap ! unat (idx + 1) = marker")
      case mark: True
      then show ?thesis using True b by (simp add: find_marker.simps [of mmap offSize lim idx] Let_def)
    next
      case nomark: False
      have "find_marker mmap offSize lim (idx + 1) \<noteq> Panic"
      proof (cases "mmap ! unat idx = marker")
        case True': True
        then show ?thesis using "1.IH" [OF True b(1), of "mmap ! unat (idx + 1)"] b nomark "1.prems" by simp
      next
        case False': False
        then show ?thesis using "1.IH" [OF True b(1), of 0] nomark "1.prems" by simp
      qed
      then show ?thesis using True b nomark by (auto simp: find_marker.simps [of mmap offSize lim idx])
    qed
  next
    case False
    then show ?thesis by (simp add: find_marker.simps [of mmap offSize lim idx])
  qed
qed

lemma findNextItem_no_panic:
  assumes "wf_log l" "off < size_off l"
  shows "findNextItem l off \<noteq> Panic"
proof -
  have "size_off l \<noteq> 0" using assms(2) by auto
  then have "unat (size_off l - 1) < unat (size_off l)"
    by (metis measure_unat)
  then have "unat (size_off l - 1) < length (log_mmap l)"
    using assms(1) size_off_unat [OF assms(1)] unfolding wf_log_def by linarith
  then show ?thesis by (simp add: findNextItem_def Let_def find_marker_no_panic)
qed

lemma Next_loop_no_panic:
  assumes "wf_log l" "it_currOff li < size_off l"
  shows "Next_loop l li \<noteq> Panic"
  using assms
proof (induction l li rule: Next_loop.induct)
  case (1 l li)
  obtain e it where r: "readItemAt l (it_currOff li) (it_item li) = Ret (e, it)"
    using readItemAt_no_panic [OF "1.prems", of "it_item li"]
    by (cases "readItemAt l (it_currOff li) (it_item li)") auto
  obtain off where off: "findNextItem l (it_currOff li) = Ret off"
    using findNextItem_no_panic [OF "1.prems"] by (cases "findNextItem l (it_currOff li)") auto
  show ?case
  proof (cases "e = None \<or> \<not> it_continueOnErr li \<or> size_off l \<le> off")
    case True
    then show ?thesis using r off by (auto simp: Next_loop.simps [of l li] Let_def split: option.split)
  next
    case False
    then obtain e' where e': "e = Some e'" by auto
    have "Next_loop l (li\<lparr>it_item := it, it_currOff := off\<rparr>) \<noteq> Panic"
      using "1.IH" [OF r refl refl e' _ _ refl] off False "1.prems" by (simp add: not_le)
    then show ?thesis using r off e' False by (simp add: Next_loop.simps [of l li] Let_def)
  qed
qed

section \<open>Pushing while system calls fail\<close>

lemma put_at_take_le: "put_at buf off bs = Ret buf' \<Longrightarrow> k \<le> off \<Longrightarrow> take k buf' = take k buf"
  by (metis put_at_take min.absorb1 take_take)

lemma writeItem_prefix:
  assumes "writeItem it l = (r, l')" "0 \<le> log_size l"
  shows "take (nat (log_size l)) (log_mmap l') = take (nat (log_size l)) (log_mmap l) \<and>
         log_size l \<le> log_size l' \<and> log_path l' = log_path l"
proof (cases "put_at (log_mmap l) (nat (log_size l)) (PutUint32 (of_nat (length (item_Blob it))))")
  case Panic
  then show ?thesis using assms by (simp add: writeItem_def)
next
  case 1: (Ret m1)
  define k n where "k = nat (log_size l)" and "n = length (item_Blob it)"
  have t1: "take k m1 = take k (log_mmap l)" using put_at_take_le [OF 1] by (simp add: k_def)
  show ?thesis
  proof (cases "put_at m1 (k + 4) (PutUint64 (keyw (item_Key it)))")
    case Panic
    then show ?thesis using assms 1 t1 by (auto simp: writeItem_def k_def Let_def)
  next
    case 2: (Ret m2)
    have t2: "take k m2 = take k m1" "k + 4 + 8 \<le> length m2"
      using put_at_take_le [OF 2] put_at_length [OF 2] 2 by (auto simp: put_at_def split: if_splits)
    define n' where "n' = min (length m2 - (k + 4 + 8)) n"
    define m3 where "m3 = take (k + 4 + 8) m2 @ take n' (item_Blob it) @ drop (k + 4 + 8 + n') m2"
    have t3: "take k m3 = take k m2" using t2(2) by (simp add: m3_def)
    note sz = assms(2)
    have rest: "writeItem it l =
        (case put_at m3 (k + 4 + 8 + n') [marker] of Panic \<Rightarrow> (Panic, l\<lparr>log_mmap := m3\<rparr>)
         | Ret m4 \<Rightarrow> (case put_at m4 (k + 4 + 8 + n' + 1) [marker] of Panic \<Rightarrow> (Panic, l\<lparr>log_mmap := m4\<rparr>)
           | Ret m5 \<Rightarrow> (Ret (), l\<lparr>log_mmap := m5, log_size := int (k + 4 + 8 + n') + uint TrailerSize\<rparr>)))"
      unfolding writeItem_def Let_def k_def [symmetric] n_def [symmetric] 1 [folded k_def n_def] go.case 2
        n'_def m3_def ..
    show ?thesis
      using assms(1) t1 t2(1) t3 sz unfolding rest k_def [symmetric]
      by (auto split: go.splits simp: k_def dest!: put_at_take_le [where k = "nat (log_size l)"])
  qed
qed

lemma writeItems_prefix:
  assumes "writeItems its l w = (r, l', w')" "0 \<le> log_size l"
  shows "take (nat (log_size l)) (log_mmap l') = take (nat (log_size l)) (log_mmap l) \<and>
         log_size l \<le> log_size l' \<and> log_path l' = log_path l"
  using assms
proof (induction its arbitrary: l w)
  case Nil
  then show ?case by simp
next
  case (Cons it its)
  obtain ok w1 where s: "sys w = (ok, w1)" by (cases "sys w")
  obtain r1 l1 where wi: "writeItem it l = (r1, l1)" by (cases "writeItem it l")
  note p = writeItem_prefix [OF wi Cons.prems(2)]
  show ?case
  proof (cases "ok \<and> r1 \<noteq> Panic")
    case True
    then have run: "writeItems its l1 w1 = (r, l', w')"
      using Cons.prems(1) s wi by (cases r1) auto
    have "0 \<le> log_size l1" using p Cons.prems(2) by linarith
    note q = Cons.IH [OF run this]
    have "take (nat (log_size l)) (log_mmap l') = take (nat (log_size l)) (log_mmap l1)"
      using q p by (metis min.absorb1 nat_mono take_take)
    then show ?thesis using p q by auto
  next
    case False
    then show ?thesis using Cons.prems s wi p by (cases r1) (auto split: if_splits)
  qed
qed

lemma Log_grow_prefix:
  assumes "Log_grow N l w = (e, l', w')" "e = None \<or> log_mmap l' \<noteq> []" "wf_log l"
  shows "take (nat (log_size l)) (log_mmap l') = take (nat (log_size l)) (log_mmap l) \<and>
         log_size l' = log_size l \<and> log_path l' = log_path l"
  using assms by (auto simp: Log_grow_def resize_def wf_log_def split: if_splits prod.splits option.splits)

section \<open>Properties of the value log\<close>

text \<open>C12 (push then read): whatever batch is pushed is read back from the location that \<^verbatim>\<open>Push\<close>
  returned, item by item and in order, and the iterator then stops without an error.\<close>

theorem vlog_push_read_back:
  assumes "log_rep l its" "items \<noteq> []" "w_faults w = []" "log_on_disk l w"
    "room pg l (length (enc_items items))" "\<forall>it\<in>set items. valid_item it" "length items < n"
  shows "\<exists>loc l' w' li. Log_Push pg items l w = (Ret (Inr loc), l', w') \<and>
           drain n l' (Log_At loc c) = Ret (items, li) \<and> it_exhausted li \<and> it_err li = None"
proof -
  let ?loc = "\<lparr>loc_Key = item_Key (hd items), loc_Off = of_nat (length (enc_items its)),
               loc_Len = of_nat (length items)\<rparr>"
  obtain l' w' where p: "Log_Push pg items l w = (Ret (Inr ?loc), l', w')" "log_rep l' (its @ items)"
    using Log_Push_ok [OF assms(1-5)] by metis
  have "stored l' (loc_Off ?loc) items" using stored_new [OF p(2) assms(6)] by simp
  then obtain li where "drain n l' (Log_At ?loc c) = Ret (items, li)" "it_exhausted li" "it_err li = None"
    using drain_At [of l' ?loc items n c] assms(7) by auto
  then show ?thesis using p(1) by blast
qed

text \<open>A batch that was stored before a push is read back unchanged after it.\<close>

theorem vlog_append_only:
  assumes "log_rep l its" "items \<noteq> []" "w_faults w = []" "log_on_disk l w"
    "room pg l (length (enc_items items))" "stored l (loc_Off loc0) old"
    "loc_Len loc0 = of_nat (length old)" "length old < n"
  shows "\<exists>loc l' w' li. Log_Push pg items l w = (Ret (Inr loc), l', w') \<and>
           drain n l' (Log_At loc0 c) = Ret (old, li) \<and> it_exhausted li \<and> it_err li = None"
proof -
  obtain loc l' w' where p: "Log_Push pg items l w = (Ret (Inr loc), l', w')" "log_rep l' (its @ items)"
    using Log_Push_ok [OF assms(1-5)] by metis
  have "stored l' (loc_Off loc0) old" using stored_mono [OF assms(6,1) p(2)] .
  then show ?thesis using drain_At [of l' loc0 old n c] assms(7,8) p(1) by auto
qed


text \<open>C30 (no panic): whatever location an iterator was made for and whatever bytes the log holds,
  advancing the iterator never reads outside the mapping.\<close>

theorem Iter_Next_no_panic:
  assumes "wf_log l" "log_mmap l \<noteq> []"
  shows "Iter_Next l li \<noteq> Panic"
proof (cases "it_currLen li = 0 \<or> it_exhausted li \<or> size_off l \<le> it_currOff li")
  case True
  then show ?thesis using assms(2) by (auto simp: Iter_Next_def)
next
  case False
  then have "Next_loop l li \<noteq> Panic" using assms(1) by (intro Next_loop_no_panic) auto
  then show ?thesis by (cases "Next_loop l li") (auto simp: Iter_Next_def split: if_splits)
qed

text \<open>C31 (failed pushes): whichever system calls fail during a push, the bytes that were in use
  before it are kept, unless the mapping itself is lost to a failed \<^verbatim>\<open>mremap\<close>.\<close>

theorem Log_Push_keeps_prefix:
  assumes "Log_Push pg items l w = (r, l', w')" "wf_log l" "log_mmap l' \<noteq> []"
  shows "take (nat (log_size l)) (log_mmap l') = used l \<and> log_size l \<le> log_size l'"
proof (cases items)
  case Nil
  then show ?thesis using assms by (simp add: Log_Push_def used_def)
next
  case (Cons it0 rest)
  define N where "N = nextSize pg (wrap64 (log_size l + sint (Items_StorageSize items)))"
  obtain e l1 w1 where g: "Log_grow N l w = (e, l1, w1)" by (cases "Log_grow N l w")
  obtain r2 l2 w2 where wr: "writeItems items l1 w1 = (r2, l2, w2)" by (cases "writeItems items l1 w1")
  have l': "log_mmap l' = (if e = None then log_mmap l2 else log_mmap l1)"
    "log_size l' = (if e = None then log_size l2 else log_size l1)"
    using assms(1) Cons g wr
    by (auto simp: Log_Push_def N_def Let_def split: option.splits go.splits prod.splits if_splits)
  have pre: "take (nat (log_size l)) (log_mmap l1) = used l" "log_size l1 = log_size l"
    if "e = None \<or> log_mmap l1 \<noteq> []"
    using Log_grow_prefix [OF g that assms(2)] by (simp_all add: used_def)
  show ?thesis
  proof (cases e)
    case None
    then have "0 \<le> log_size l1" using pre assms(2) by (simp add: wf_log_def)
    then show ?thesis using writeItems_prefix [OF wr] pre l' None by simp
  next
    case (Some x)
    then show ?thesis using l' pre assms(3) by simp
  qed
qed

text \<open>C32 (growth): the mapping grows to the next multiple of a block of pages: the new size is a
  multiple of the page size, exceeds the size asked for, by at most 128 pages.\<close>

theorem nextSize_bounds:
  assumes "0 < pg" "0 \<le> sz" "sz + 128 * pg < 2 ^ 63"
  shows "pg dvd nextSize pg sz \<and> sz < nextSize pg sz \<and> nextSize pg sz \<le> sz + 128 * pg"
  using nextSize_eq [OF assms] by simp

text \<open>The search for the next item either reaches the end of the used part or
  stops at a larger offset inside it.\<close>

theorem findNextItem_progress:
  assumes "wf_log l" "off < size_off l"
  shows "\<exists>r. findNextItem l off = Ret r \<and> (r = size_off l \<or> off < r \<and> r < size_off l)"
proof -
  obtain r where r: "findNextItem l off = Ret r"
    using findNextItem_no_panic [OF assms] by (cases "findNextItem l off") auto
  have "off \<noteq> - 1" using assms(2) word_order.extremum_strict by fastforce
  then have "r < size_off l \<longrightarrow> off < r" using findNextItem_forward [OF r] by (simp add: word_less_nat_alt)
  moreover have "r = size_off l \<or> r < size_off l"
    using find_marker_bound [of "log_mmap l" "size_off l" "off + 1" r] r by (auto simp: findNextItem_def Let_def)
  ultimately show ?thesis using r by blast
qed

text \<open>C33 (stale item): within 12 bytes of the end of the log \<^verbatim>\<open>readItemAt\<close> reports success without
  setting the item, so that \<^verbatim>\<open>Next\<close> yields the item it had before once more.\<close>

theorem Iter_Next_stale_item:
  assumes "wf_log l" "it_currLen li \<noteq> 0" "\<not> it_exhausted li" "it_currOff li < size_off l"
    "log_size l \<le> int (unat (it_currOff li)) + 12"
  shows "\<exists>li'. Iter_Next l li = Ret (True, li') \<and> it_item li' = it_item li"
proof -
  define n where "n = unat (it_currOff li)"
  have lt: "int n < log_size l"
    using assms(1,4) by (simp add: word_less_nat_alt size_off_unat zless_nat_eq_int_zless n_def)
  have sm: "log_size l < 2 ^ 62" using assms(1) by (simp add: wf_log_def)
  have "sint (it_currOff li) = int n"
    using lt sm sint_unat_small [of "it_currOff li"] by (simp add: n_def [symmetric])
  moreover have "wrap64 (int n + 12) = int n + 12" using lt sm by (intro wrap64_id) simp_all
  ultimately have "readItemAt l (it_currOff li) (it_item li) = Ret (None, it_item li)"
    using assms(5) by (simp only: readItemAt_def header_consts n_def if_True)
  then have "Next_loop l li = Ret (True, li)" by (simp add: Next_loop.simps [of l li])
  then show ?thesis using assms(2-4) by (simp add: Iter_Next_def not_le)
qed

section \<open>Witnesses\<close>

definition wit_item :: "int \<Rightarrow> Item" where
  "wit_item k = \<lparr>item_Key = key_of_int k, item_Blob = [7]\<rparr>"

text \<open>A log with one item in it, and its file.\<close>

definition wit_log :: Log where
  "wit_log = \<lparr>log_path = [''dat.log''], log_mmap = enc_items [wit_item 3] @ replicate 3 0, log_size = 15,
              log_syncOnWrite = False, log_isEmpty = False\<rparr>"

definition wit_world :: world where
  "wit_world = \<lparr>w_fs = [([''dat.log''], File (log_mmap wit_log))], w_faults = []\<rparr>"

text \<open>A log with three bytes of garbage.\<close>

definition wit_damaged :: Log where
  "wit_damaged = wit_log\<lparr>log_mmap := [1, 2, 3, 0, 0, 0, 0, 0], log_size := 3\<rparr>"

lemma length_enc_wit [simp]: "length (enc_items [wit_item k]) = 15"
  by (simp add: wit_item_def)

lemma wit_valid [simp]: "valid_item (wit_item k)"
  by (simp add: wit_item_def valid_item_def)

lemma wit_rep: "log_rep wit_log [wit_item 3]"
  by (simp add: log_rep_def wf_log_def used_def wit_log_def del: enc_items_simps)

lemma wit_facts:
  "log_on_disk wit_log wit_world" "w_faults wit_world = []" "log_mmap wit_log \<noteq> []"
  "room 1 wit_log (length (enc_items [wit_item k]))" "wf_log wit_damaged" "log_mmap wit_damaged \<noteq> []"
  by (simp_all add: wit_world_def log_on_disk_def file_at_def node_at_def room_def wf_log_def
      wit_damaged_def wit_log_def wit_item_def enc_item_def)

lemma wit_stored: "stored wit_log 0 [wit_item 3]"
  using stored_new [of wit_log "[]" "[wit_item 3]"] wit_rep by simp

theorem vlog_push_read_back_witness:
  "\<exists>loc l' w' li. Log_Push 1 [wit_item 5] wit_log wit_world = (Ret (Inr loc), l', w') \<and>
     drain 2 l' (Log_At loc True) = Ret ([wit_item 5], li) \<and> it_exhausted li \<and> it_err li = None"
  by (rule vlog_push_read_back [OF wit_rep]) (use wit_facts in simp_all)

theorem vlog_append_only_witness:
  "\<exists>loc l' w' li. Log_Push 1 [wit_item 5] wit_log wit_world = (Ret (Inr loc), l', w') \<and>
     drain 2 l' (Log_At \<lparr>loc_Key = key_of_int 3, loc_Off = 0, loc_Len = 1\<rparr> True) = Ret ([wit_item 3], li) \<and>
     it_exhausted li \<and> it_err li = None"
  by (rule vlog_append_only [OF wit_rep]) (use wit_facts wit_stored in simp_all)


theorem Iter_Next_no_panic_witness:
  "Iter_Next wit_damaged (Log_At \<lparr>loc_Key = Key 0, loc_Off = 2, loc_Len = 9\<rparr> True) \<noteq> Panic"
  by (rule Iter_Next_no_panic [OF wit_facts(5,6)])

lemma wit_push_fails:
  "Log_Push 1 [wit_item 5] wit_log (wit_world\<lparr>w_faults := [True]\<rparr>) =
     (Ret (Inl (ErrSys ''truncate'')), wit_log, wit_world)"
proof -
  have "sint (Items_StorageSize [wit_item 5]) = 15" by (simp add: Items_StorageSize_enc del: enc_items_simps)
  moreover have "nextSize 1 30 = 32" by (simp add: nextSize_def nextSize_shift_def push_bit_eq_mult drop_bit_eq_div)
  moreover have "length (log_mmap wit_log) = 18" "log_size wit_log = 15"
    by (simp_all add: wit_log_def wit_item_def)
  ultimately show ?thesis
    by (simp add: Log_Push_def Log_grow_def Truncate_def sys_def wit_world_def Let_def)
qed

theorem Log_Push_keeps_prefix_witness:
  "take (nat (log_size wit_log)) (log_mmap wit_log) = used wit_log \<and> log_size wit_log \<le> log_size wit_log"
  using Log_Push_keeps_prefix [OF wit_push_fails _ wit_facts(3)] wit_rep by (simp add: log_rep_def)

theorem nextSize_bounds_witness:
  "4096 dvd nextSize 4096 5000 \<and> 5000 < nextSize 4096 5000 \<and> nextSize 4096 5000 \<le> 5000 + 128 * 4096"
  by (rule nextSize_bounds) simp_all

theorem findNextItem_progress_witness:
  "\<exists>r. findNextItem wit_damaged 0 = Ret r \<and>
     (r = size_off wit_damaged \<or> 0 < r \<and> r < size_off wit_damaged)"
  by (rule findNextItem_progress [OF wit_facts(5)]) (simp add: wit_damaged_def)

theorem Iter_Next_stale_item_witness:
  "\<exists>li'. Iter_Next wit_damaged (Log_At \<lparr>loc_Key = Key 0, loc_Off = 0, loc_Len = 4\<rparr> True) = Ret (True, li') \<and>
     it_item li' = it_item (Log_At \<lparr>loc_Key = Key 0, loc_Off = 0, loc_Len = 4\<rparr> True)"
  by (rule Iter_Next_stale_item [OF wit_facts(5)]) (simp_all add: wit_damaged_def Log_At_def)

end
