(* ===== verification/Heap.thy ===== *)
theory Heap
  imports Vlog_Correct
begin

text \<open>
  The heap of batch iterators (src/vlog/heap.go), a copy of Go's \<^verbatim>\<open>container/heap\<close> for the type
  \<^verbatim>\<open>Iters\<close>. The sifting loops are written over any comparison \<open>lt\<close>; the locale \<open>heap_order\<close> states
  what the comparison must promise and proves the heap property and the preservation of the
  elements once. It is interpreted on the comparison of the code: exhausted iterators last, then by
  the key of the current item.

  Indices are natural numbers; the code's check for an overflow of \<^verbatim>\<open>2*i+1\<close> cannot fire, as the
  index of a slice is far below \<^verbatim>\<open>2^62\<close>.
\<close>

section \<open>The loops\<close>

type_synonym Iters = "Iter list"

definition iter_less :: "Iter \<Rightarrow> Iter \<Rightarrow> bool" where
  "iter_less a b \<longleftrightarrow>
     (if it_exhausted a \<noteq> it_exhausted b then \<not> it_exhausted a
      else item_Key (it_item a) < item_Key (it_item b))"

definition swap :: "'a list \<Rightarrow> nat \<Rightarrow> nat \<Rightarrow> 'a list" where
  "swap xs i j = xs[i := xs ! j, j := xs ! i]"

function sift_up :: "('a \<Rightarrow> 'a \<Rightarrow> bool) \<Rightarrow> nat \<Rightarrow> 'a list \<Rightarrow> 'a list" where
  "sift_up lt j xs =
     (let i = (j - 1) div 2 in
      if i = j \<or> \<not> lt (xs ! j) (xs ! i) then xs
      else sift_up lt i (swap xs i j))"
  by pat_completeness auto
termination
  by (relation "measure (\<lambda>(lt, j, xs). j)") auto

declare sift_up.simps [simp del]

text \<open>The loop of \<^verbatim>\<open>down\<close> returns the slice and the last \<^verbatim>\<open>i\<close>.\<close>

function sift_down :: "('a \<Rightarrow> 'a \<Rightarrow> bool) \<Rightarrow> nat \<Rightarrow> nat \<Rightarrow> 'a list \<Rightarrow> 'a list \<times> nat" where
  "sift_down lt i n xs =
     (let j1 = 2 * i + 1 in
      if j1 \<ge> n then (xs, i)
      else let j2 = j1 + 1; j = (if j2 < n \<and> lt (xs ! j2) (xs ! j1) then j2 else j1) in
           if \<not> lt (xs ! j) (xs ! i) then (xs, i)
           else sift_down lt j n (swap xs i j))"
  by pat_completeness auto
termination
  by (relation "measure (\<lambda>(lt, i, n, xs). n - i)") (auto split: if_splits)

declare sift_down.simps [simp del]

definition Iters_up :: "nat \<Rightarrow> Iters \<Rightarrow> Iters" where
  "Iters_up j is = sift_up iter_less j is"

definition Iters_down :: "nat \<Rightarrow> nat \<Rightarrow> Iters \<Rightarrow> bool \<times> Iters" where
  "Iters_down i0 n is = (let (is', i) = sift_down iter_less i0 n is in (i > i0, is'))"

definition Iters_Push :: "Iter \<Rightarrow> Iters \<Rightarrow> Iters" where
  "Iters_Push i is = (let is = is @ [i] in Iters_up (length is - 1) is)"

definition Iters_Fix :: "nat \<Rightarrow> Iters \<Rightarrow> Iters" where
  "Iters_Fix i is =
     (let (moved, is) = Iters_down i (length is) is in if \<not> moved then Iters_up i is else is)"

section \<open>Heaps over a strict weak order\<close>

abbreviation par :: "nat \<Rightarrow> nat" where
  "par j \<equiv> (j - 1) div 2"

lemma par_child: "par j = i \<and> 0 < j \<longleftrightarrow> j = 2 * i + 1 \<or> j = 2 * i + 2"
  by auto

lemma swap_nth: "i < length xs \<Longrightarrow> j < length xs \<Longrightarrow> k < length xs \<Longrightarrow>
  swap xs i j ! k = (if k = i then xs ! j else if k = j then xs ! i else xs ! k)"
  by (auto simp: swap_def nth_list_update)

lemma length_swap [simp]: "length (swap xs i j) = length xs"
  by (simp add: swap_def)

lemma mset_swap_eq [simp]: "i < length xs \<Longrightarrow> j < length xs \<Longrightarrow> mset (swap xs i j) = mset xs"
  by (simp add: swap_def mset_swap)

locale heap_order =
  fixes lt :: "'a \<Rightarrow> 'a \<Rightarrow> bool"
  assumes asym: "lt a b \<Longrightarrow> \<not> lt b a"
    and neg_trans: "\<not> lt b a \<Longrightarrow> \<not> lt c b \<Longrightarrow> \<not> lt c a"
begin

definition heap_at :: "'a list \<Rightarrow> nat \<Rightarrow> bool" where
  "heap_at xs j \<longleftrightarrow> \<not> lt (xs ! j) (xs ! par j)"

definition heap :: "'a list \<Rightarrow> bool" where
  "heap xs \<longleftrightarrow> (\<forall>j. 0 < j \<and> j < length xs \<longrightarrow> heap_at xs j)"

text \<open>A heap but for the children of \<open>i\<close>, which are not below the parent of \<open>i\<close>.\<close>

definition heap_below :: "'a list \<Rightarrow> nat \<Rightarrow> bool" where
  "heap_below xs i \<longleftrightarrow>
     (\<forall>j. 0 < j \<and> j < length xs \<and> par j \<noteq> i \<longrightarrow> heap_at xs j) \<and>
     (\<forall>j. 0 < i \<and> 0 < j \<and> j < length xs \<and> par j = i \<longrightarrow> \<not> lt (xs ! j) (xs ! par i))"

text \<open>A heap but for \<open>k\<close> itself, whose children are not below the parent of \<open>k\<close>.\<close>

definition heap_above :: "'a list \<Rightarrow> nat \<Rightarrow> bool" where
  "heap_above xs k \<longleftrightarrow>
     (\<forall>j. 0 < j \<and> j < length xs \<and> j \<noteq> k \<longrightarrow> heap_at xs j) \<and>
     (\<forall>j. 0 < k \<and> 0 < j \<and> j < length xs \<and> par j = k \<longrightarrow> \<not> lt (xs ! j) (xs ! par k))"

lemma heap_min:
  assumes "heap xs" "i < length xs"
  shows "\<not> lt (xs ! i) (xs ! 0)"
  using assms(2)
proof (induction i rule: less_induct)
  case (less i)
  show ?case
  proof (cases "i = 0")
    case True
    then show ?thesis using asym by blast
  next
    case False
    then have "par i < i" "par i < length xs" using less.prems by auto
    then have "\<not> lt (xs ! par i) (xs ! 0)" using less.IH by blast
    moreover have "\<not> lt (xs ! i) (xs ! par i)"
      using assms(1) False less.prems by (auto simp: heap_def heap_at_def)
    ultimately show ?thesis using neg_trans by blast
  qed
qed

lemma sift_up_mset: "j < length xs \<Longrightarrow> mset (sift_up lt j xs) = mset xs"
proof (induction lt j xs rule: sift_up.induct)
  case (1 lt j xs)
  then show ?case by (auto simp: sift_up.simps [of lt j xs] Let_def)
qed

lemma sift_down_mset: "i < n \<Longrightarrow> n \<le> length xs \<Longrightarrow> mset (fst (sift_down lt i n xs)) = mset xs"
proof (induction lt i n xs rule: sift_down.induct)
  case (1 lt i n xs)
  then show ?case by (auto simp: sift_down.simps [of lt i n xs] Let_def)
qed

lemma heap_below_swap:
  assumes hb: "heap_below xs i" and j: "0 < j" "j < length xs" "par j = i"
    and best: "\<And>c. 0 < c \<Longrightarrow> c < length xs \<Longrightarrow> par c = i \<Longrightarrow> \<not> lt (xs ! c) (xs ! j)"
    and l: "lt (xs ! j) (xs ! i)"
  shows "heap_below (swap xs i j) j"
proof -
  have ij: "i < j" "i < length xs" using j by auto
  have ok: "\<not> lt (xs ! k) (xs ! par k)" if "0 < k" "k < length xs" "par k \<noteq> i" for k
    using hb that by (auto simp: heap_below_def heap_at_def)
  have "heap_at (swap xs i j) k" if k: "0 < k" "k < length xs" "par k \<noteq> j" for k
  proof -
    have pk: "par k < k" "par k < length xs" using k by auto
    consider "k = i" | "k = j" | "k \<noteq> i" "k \<noteq> j" "par k = i" | "k \<noteq> i" "k \<noteq> j" "par k \<noteq> i" by blast
    then show ?thesis
    proof cases
      case 1
      then have "\<not> lt (xs ! j) (xs ! par i)" using hb k j by (auto simp: heap_below_def)
      then show ?thesis using 1 k pk ij j by (simp add: heap_at_def swap_nth)
    next
      case 2
      then show ?thesis using asym [OF l] j ij k by (simp add: heap_at_def swap_nth)
    next
      case 3
      then show ?thesis using best k pk ij j by (simp add: heap_at_def swap_nth)
    next
      case 4
      then show ?thesis using ok k pk ij j by (simp add: heap_at_def swap_nth)
    qed
  qed
  moreover have "\<not> lt (swap xs i j ! k) (swap xs i j ! par j)" if "0 < k" "k < length xs" "par k = j" for k
  proof -
    have "k \<noteq> i" "k \<noteq> j" "par k \<noteq> i" using that ij by auto
    then show ?thesis using ok [of k] that ij j by (simp add: swap_nth)
  qed
  ultimately show ?thesis by (simp add: heap_below_def)
qed

lemma sift_down_heap:
  "heap_below xs i \<Longrightarrow> i < length xs \<Longrightarrow> heap (fst (sift_down lt i (length xs) xs))"
proof (induction "length xs - i" arbitrary: i xs rule: less_induct)
  case less
  define j1 where "j1 = 2 * i + 1"
  show ?case
  proof (cases "j1 \<ge> length xs")
    case True
    have "par j \<noteq> i" if "0 < j" "j < length xs" for j using that True by (auto simp: j1_def)
    then have "heap xs" using less.prems(1) by (auto simp: heap_below_def heap_def)
    then show ?thesis using True by (simp add: sift_down.simps [of lt i "length xs" xs] j1_def)
  next
    case False
    define j where "j = (if j1 + 1 < length xs \<and> lt (xs ! (j1 + 1)) (xs ! j1) then j1 + 1 else j1)"
    have j: "0 < j" "j < length xs" "par j = i" using False by (auto simp: j_def j1_def)
    have best: "\<not> lt (xs ! c) (xs ! j)" if "0 < c" "c < length xs" "par c = i" for c
    proof -
      have "c = j1 \<or> c = j1 + 1" using that par_child [of c i] by (auto simp: j1_def)
      then show ?thesis using that asym by (auto simp: j_def)
    qed
    have eq: "sift_down lt i (length xs) xs =
        (if \<not> lt (xs ! j) (xs ! i) then (xs, i) else sift_down lt j (length xs) (swap xs i j))"
      by (subst sift_down.simps, unfold Let_def j1_def [symmetric] j_def [symmetric]) (use False in simp)
    show ?thesis
    proof (cases "lt (xs ! j) (xs ! i)")
      case True
      have "heap (fst (sift_down lt j (length (swap xs i j)) (swap xs i j)))"
        by (rule less.hyps) (use j heap_below_swap [OF less.prems(1) j best True] in auto)
      then show ?thesis using True by (simp add: eq)
    next
      case stop: False
      have "heap_at xs c" if "0 < c" "c < length xs" for c
      proof (cases "par c = i")
        case True
        then show ?thesis using best [of c] that stop neg_trans by (simp add: heap_at_def)
      next
        case False
        then show ?thesis using less.prems(1) that by (simp add: heap_below_def)
      qed
      then have "heap xs" by (simp add: heap_def)
      then show ?thesis using stop by (simp add: eq)
    qed
  qed
qed

lemma heap_above_swap:
  assumes ha: "heap_above xs k" and k: "0 < k" "k < length xs" and l: "lt (xs ! k) (xs ! par k)"
  shows "heap_above (swap xs (par k) k) (par k)"
proof -
  define i where "i = par k"
  have ik: "i < k" "i < length xs" using k by (auto simp: i_def)
  have ok: "\<not> lt (xs ! m) (xs ! par m)" if "0 < m" "m < length xs" "m \<noteq> k" for m
    using ha that by (auto simp: heap_above_def heap_at_def)
  have pk: "(k - Suc 0) div 2 = i" by (simp add: i_def)
  have nl: "\<not> lt (xs ! i) (xs ! k)" using asym l by (simp add: i_def)
  have "heap_at (swap xs i k) m" if m: "0 < m" "m < length xs" "m \<noteq> i" for m
  proof -
    have pm: "par m < m" "par m < length xs" using m by auto
    consider "m = k" | "m \<noteq> k" "par m = k" | "m \<noteq> k" "par m = i" | "m \<noteq> k" "par m \<noteq> k" "par m \<noteq> i" by blast
    then show ?thesis
    proof cases
      case 1
      then show ?thesis using nl ik k pk by (simp add: heap_at_def swap_nth)
    next
      case 2
      then have "\<not> lt (xs ! m) (xs ! par k)" using ha k m by (auto simp: heap_above_def)
      then show ?thesis using 2 m ik k pk by (simp add: heap_at_def swap_nth)
    next
      case 3
      then have "\<not> lt (xs ! m) (xs ! i)" using ok [of m] m by simp
      then have "\<not> lt (xs ! m) (xs ! k)" using nl neg_trans by blast
      then show ?thesis using 3 m ik k by (simp add: heap_at_def swap_nth)
    next
      case 4
      then show ?thesis using ok m pm ik k by (simp add: heap_at_def swap_nth)
    qed
  qed
  moreover have "\<not> lt (swap xs i k ! m) (swap xs i k ! par i)"
    if "0 < i" "0 < m" "m < length xs" "par m = i" for m
  proof -
    have pi: "par i < i" "\<not> lt (xs ! i) (xs ! par i)" using ok [of i] that ik by auto
    show ?thesis
    proof (cases "m = k")
      case True
      then show ?thesis using pi ik k by (simp add: swap_nth)
    next
      case False
      then have "\<not> lt (xs ! m) (xs ! i)" using ok [of m] that by simp
      then have "\<not> lt (xs ! m) (xs ! par i)" using pi neg_trans by blast
      moreover have "m \<noteq> i" using that by auto
      ultimately show ?thesis using False pi ik k that by (simp add: swap_nth)
    qed
  qed
  ultimately show ?thesis by (simp add: heap_above_def i_def)
qed

lemma sift_up_heap: "heap_above xs k \<Longrightarrow> k < length xs \<Longrightarrow> heap (sift_up lt k xs)"
proof (induction k arbitrary: xs rule: less_induct)
  case (less k)
  show ?case
  proof (cases "par k = k \<or> \<not> lt (xs ! k) (xs ! par k)")
    case True
    then have "heap xs" using less.prems(1) by (auto simp: heap_above_def heap_def heap_at_def)
    then show ?thesis using True by (simp add: sift_up.simps [of lt k xs] Let_def)
  next
    case False
    then have k: "0 < k" "par k < k" by auto
    then have "heap (sift_up lt (par k) (swap xs (par k) k))"
      using less.IH [OF k(2)] heap_above_swap [OF less.prems(1) k(1) less.prems(2)] False less.prems(2) by simp
    then show ?thesis using False by (simp add: sift_up.simps [of lt k xs] Let_def)
  qed
qed

lemma heap_snoc_above: "heap xs \<Longrightarrow> heap_above (xs @ [x]) (length xs)"
proof -
  assume h: "heap xs"
  have "heap_at (xs @ [x]) j" if "0 < j" "j < length xs" for j
  proof -
    have "par j < length xs" using that by auto
    then show ?thesis using h that by (simp add: heap_def heap_at_def nth_append)
  qed
  moreover have "par j \<noteq> length xs" if "0 < j" "j < Suc (length xs)" for j using that by auto
  ultimately show ?thesis by (auto simp: heap_above_def less_Suc_eq)
qed

lemma heap_update_below: "heap xs \<Longrightarrow> heap_below (xs[0 := x]) 0"
  unfolding heap_below_def heap_def heap_at_def by (auto simp: nth_list_update)

end

section \<open>The iterator heap\<close>

interpretation iters: heap_order iter_less
  by unfold_locales (auto simp: iter_less_def split: if_splits)

lemma sift_up_0 [simp]: "sift_up lt 0 xs = xs"
  by (simp add: sift_up.simps)

lemma Iters_Push_heap: "iters.heap is \<Longrightarrow> iters.heap (Iters_Push i is)"
  by (simp add: Iters_Push_def Iters_up_def iters.sift_up_heap iters.heap_snoc_above)

lemma Iters_Push_mset [simp]: "mset (Iters_Push i is) = add_mset i (mset is)"
  by (simp add: Iters_Push_def Iters_up_def iters.sift_up_mset)

lemma Iters_Fix0: "Iters_Fix 0 is = fst (sift_down iter_less 0 (length is) is)"
  by (simp add: Iters_Fix_def Iters_down_def Iters_up_def split: prod.split)

lemma Iters_Fix0_heap: "iters.heap is \<Longrightarrow> is \<noteq> [] \<Longrightarrow> iters.heap (Iters_Fix 0 (is[0 := i]))"
  using iters.sift_down_heap [OF iters.heap_update_below, of "is" i] by (simp add: Iters_Fix0)

lemma Iters_Fix0_mset [simp]: "mset (Iters_Fix 0 is) = mset is"
  by (cases "is = []") (simp_all add: Iters_Fix0 iters.sift_down_mset sift_down.simps [of _ _ 0])

lemma heap_single [simp]: "iters.heap [i]"
  by (simp add: iters.heap_def)

lemma heap_top: "iters.heap is \<Longrightarrow> i \<in> set is \<Longrightarrow> \<not> iter_less i (is ! 0)"
  using iters.heap_min by (auto simp: in_set_conv_nth)

text \<open>When the first iterator is exhausted, all are.\<close>

lemma heap_top_exhausted: "iters.heap is \<Longrightarrow> it_exhausted (is ! 0) \<Longrightarrow> i \<in> set is \<Longrightarrow> it_exhausted i"
  using heap_top [of "is" i] by (auto simp: iter_less_def split: if_splits)

lemma heap_top_le:
  "iters.heap is \<Longrightarrow> i \<in> set is \<Longrightarrow> \<not> it_exhausted i \<Longrightarrow>
   \<not> it_exhausted (is ! 0) \<and> item_Key (it_item (is ! 0)) \<le> item_Key (it_item i)"
  using heap_top [of "is" i] by (auto simp: iter_less_def split: if_splits)

section \<open>Properties of the heap\<close>

text \<open>C27 (heap): pushing an iterator and repairing the heap after its first iterator was advanced both
  give a heap of the same iterators, whose first one no other iterator is less than.\<close>

theorem Iters_heap_ops:
  assumes "heap_order.heap iter_less is" "is \<noteq> []"
  shows "heap_order.heap iter_less (Iters_Push i is) \<and> mset (Iters_Push i is) = add_mset i (mset is) \<and>
         (\<forall>x. x \<in># mset (Iters_Push i is) \<longrightarrow> \<not> iter_less x (Iters_Push i is ! 0)) \<and>
         heap_order.heap iter_less (Iters_Fix 0 (is[0 := i])) \<and>
         mset (Iters_Fix 0 (is[0 := i])) = mset (is[0 := i]) \<and>
         (\<forall>x. x \<in># mset (is[0 := i]) \<longrightarrow> \<not> iter_less x (Iters_Fix 0 (is[0 := i]) ! 0))"
proof -
  have push: "iters.heap (Iters_Push i is)" using assms(1) by (rule Iters_Push_heap)
  have fixed: "iters.heap (Iters_Fix 0 (is[0 := i]))" using assms by (rule Iters_Fix0_heap)
  have "\<not> iter_less x (Iters_Fix 0 (is[0 := i]) ! 0)" if "x \<in># mset (is[0 := i])" for x
    using heap_top [OF fixed] that by (metis Iters_Fix0_mset set_mset_mset)
  moreover have "\<not> iter_less x (Iters_Push i is ! 0)" if "x \<in># mset (Iters_Push i is)" for x
    using heap_top [OF push] that by (metis set_mset_mset)
  ultimately show ?thesis using push fixed by (metis Iters_Push_mset Iters_Fix0_mset)
qed

theorem Iters_heap_ops_witness:
  "let a = Log_At \<lparr>loc_Key = key_of_int 4, loc_Off = 0, loc_Len = 1\<rparr> True; b = a\<lparr>it_exhausted := True\<rparr> in
   \<not> iter_less a (Iters_Push a [b] ! 0) \<and> \<not> iter_less b (Iters_Push a [b] ! 0)"
proof -
  define a where "a = Log_At \<lparr>loc_Key = key_of_int 4, loc_Off = 0, loc_Len = 1\<rparr> True"
  have "heap_order.heap iter_less [a\<lparr>it_exhausted := True\<rparr>]" by simp
  from Iters_heap_ops [OF this, of a] show ?thesis by (simp add: a_def [symmetric] Let_def)
qed

end
