(* ===== verification/Index.thy ===== *)
theory Index
  imports Btree Heap
begin

text \<open>
  The batch index (src/index/index.go, reader.go, writer.go): an ordered map from the first key of a
  batch to the locations of the batches with that key, and the log of index records on disk from
  which it is rebuilt. The ordered map is the parameter \<open>bt\<close> of all definitions.
\<close>

section \<open>The index in memory\<close>

record 'm Index =
  idx_m :: 'm
  idx_len :: Off
  idx_nentries :: Off

text \<open>\<^verbatim>\<open>Trailer\<close> has the single field \<^verbatim>\<open>TotalEntries\<close>.\<close>

type_synonym Trailer = Off

type_synonym 'm ibtree = "(Key, Location list, 'm) btree"

definition Index_zero :: "'m ibtree \<Rightarrow> 'm Index" where
  "Index_zero bt = \<lparr>idx_m = bt_empty bt, idx_len = 0, idx_nentries = 0\<rparr>"

definition zero_loc :: Location where
  "zero_loc = \<lparr>loc_Key = Key 0, loc_Off = 0, loc_Len = 0\<rparr>"

definition Index_Set :: "'m ibtree \<Rightarrow> Location \<Rightarrow> 'm Index \<Rightarrow> 'm Index" where
  "Index_Set bt loc i =
     (let oldLocs = (case bt_get bt (idx_m i) (loc_Key loc) of None \<Rightarrow> [] | Some ls \<Rightarrow> ls)
      in i\<lparr>idx_m := bt_set bt (idx_m i) (loc_Key loc) (oldLocs @ [loc]),
           idx_len := idx_len i + loc_Len loc,
           idx_nentries := idx_nentries i + loc_Len loc\<rparr>)"

text \<open>\<^verbatim>\<open>oldLocs[0]\<close> panics if the list of a key is empty; no operation stores such a list.\<close>

definition Index_Delete :: "'m ibtree \<Rightarrow> Key \<Rightarrow> 'm Index \<Rightarrow> (Location \<times> 'm Index) go" where
  "Index_Delete bt key i =
     (case bt_get bt (idx_m i) key of
        None \<Rightarrow> Ret (zero_loc, i)
      | Some [] \<Rightarrow> Panic
      | Some (old # rest) \<Rightarrow>
          let i = i\<lparr>idx_len := idx_len i - loc_Len old, idx_nentries := idx_nentries i + loc_Len old\<rparr> in
          if length (old # rest) > 1
          then Ret (old, i\<lparr>idx_m := bt_set bt (idx_m i) key rest\<rparr>)
          else Ret (old, i\<lparr>idx_m := bt_delete bt (idx_m i) key\<rparr>))"

definition Index_Len :: "'m Index \<Rightarrow> Off" where
  "Index_Len i = idx_len i"

definition Index_NEntries :: "'m Index \<Rightarrow> Off" where
  "Index_NEntries i = idx_nentries i"

definition Index_Trailer :: "'m Index \<Rightarrow> Trailer" where
  "Index_Trailer i = idx_len i"

text \<open>The copied map has the same content.\<close>

definition Index_Copy :: "'m Index \<Rightarrow> 'm Index" where
  "Index_Copy i = \<lparr>idx_m = idx_m i, idx_len = idx_len i, idx_nentries = idx_nentries i\<rparr>"

text \<open>The iterator: what the map's iterator has still to visit, and the locations of the current key.\<close>

record IndexIter =
  ii_iter :: "(Key \<times> Location list) list"
  ii_curr :: "Location list"

definition Index_Iter :: "'m ibtree \<Rightarrow> 'm Index \<Rightarrow> IndexIter" where
  "Index_Iter bt i = \<lparr>ii_iter = bt_iter bt (idx_m i), ii_curr = []\<rparr>"

definition IndexIter_Next :: "IndexIter \<Rightarrow> bool \<times> IndexIter" where
  "IndexIter_Next ii =
     (if length (ii_curr ii) > 1 then (True, ii\<lparr>ii_curr := tl (ii_curr ii)\<rparr>)
      else case ii_iter ii of
             [] \<Rightarrow> (False, ii)
           | (k, v) # rest \<Rightarrow> (True, ii\<lparr>ii_iter := rest, ii_curr := v\<rparr>))"

definition IndexIter_Value :: "IndexIter \<Rightarrow> Location" where
  "IndexIter_Value ii = (case ii_curr ii of [] \<Rightarrow> zero_loc | loc # _ \<Rightarrow> loc)"

section \<open>The index on disk\<close>

definition LocationSize :: nat where "LocationSize = 8 + 8 + 4 + 4"

definition enc_loc :: "Location \<Rightarrow> Trailer \<Rightarrow> bytes" where
  "enc_loc loc trailer =
     PutUint64 (keyw (loc_Key loc)) @ PutUint64 (loc_Off loc) @
     PutUint32 (ucast (loc_Len loc)) @ PutUint32 (ucast trailer)"

record Writer =
  wr_path :: path
  wr_sync :: bool

definition NewWriter :: "path \<Rightarrow> bool \<Rightarrow> world \<Rightarrow> (err + Writer) \<times> world" where
  "NewWriter p s w =
     (case OpenCreate p w of
        (Some e, w) \<Rightarrow> (Inl e, w)
      | (None, w) \<Rightarrow> (Inr \<lparr>wr_path = p, wr_sync = s\<rparr>, w))"

definition Writer_Push :: "Writer \<Rightarrow> Location \<Rightarrow> Trailer \<Rightarrow> world \<Rightarrow> err option \<times> world" where
  "Writer_Push wr loc trailer w = Append (wr_path wr) (enc_loc loc trailer) w"

definition Writer_Close :: "Writer \<Rightarrow> world \<Rightarrow> err option \<times> world" where
  "Writer_Close wr w =
     (let (syncErr, w) = Call ''fsync'' w; (closeErr, w) = Call ''close'' w
      in (join_err syncErr closeErr, w))"

definition Writer_Sync :: "bool \<Rightarrow> Writer \<Rightarrow> world \<Rightarrow> err option \<times> world" where
  "Writer_Sync force wr w =
     (if \<not> wr_sync wr \<and> \<not> force then (None, w) else Call ''fsync'' w)"

text \<open>
  \<^verbatim>\<open>Reader.Next\<close> on what is left of the file: \<open>Ret None\<close> at its end, an error on a partial record.
\<close>

definition Reader_Next :: "bytes \<Rightarrow> (err + (Location \<times> bytes) option) go" where
  "Reader_Next bs =
     (if bs = [] then Ret (Inr None)
      else if length bs < LocationSize then Ret (Inl ErrUnexpectedEOF)
      else let locBuf = take LocationSize bs in
           go_bind (Uint64 (take 8 locBuf)) (\<lambda>key.
           go_bind (Uint64 (drop 8 locBuf)) (\<lambda>off.
           go_bind (Uint32 (drop 16 locBuf)) (\<lambda>len.
             Ret (Inr (Some (\<lparr>loc_Key = Key key, loc_Off = off, loc_Len = ucast len\<rparr>,
                             drop LocationSize bs)))))))"

lemma Reader_Next_shrinks: "Reader_Next bs = Ret (Inr (Some (loc, rest))) \<Longrightarrow> length rest < length bs"
  by (auto simp: Reader_Next_def Let_def go_bind_eq_Ret LocationSize_def split: if_splits)

text \<open>The loop of \<^verbatim>\<open>Load\<close>\<close>

function Load_loop :: "'m ibtree \<Rightarrow> bytes \<Rightarrow> 'm Index \<Rightarrow> ('m Index \<times> err option) go" where
  "Load_loop bt bs index =
     go_bind (Reader_Next bs) (\<lambda>r.
       case r of
         Inl e \<Rightarrow> Ret (index, Some e)
       | Inr None \<Rightarrow> Ret (index, None)
       | Inr (Some (loc, rest)) \<Rightarrow>
           if loc_Len loc = 0
           then go_bind (Index_Delete bt (loc_Key loc) index) (\<lambda>(_, index). Load_loop bt rest index)
           else Load_loop bt rest (Index_Set bt loc index))"
  by pat_completeness auto
termination
  by (relation "measure (\<lambda>(bt, bs, index). length bs)") (auto dest: Reader_Next_shrinks)

declare Load_loop.simps [simp del]

definition Index_Load :: "'m ibtree \<Rightarrow> path \<Rightarrow> world \<Rightarrow> (err option \<times> 'm Index) go \<times> world" where
  "Index_Load bt p w =
     (case OpenCreate p w of
        (Some e, w) \<Rightarrow> (Ret (Some e, Index_zero bt), w)
      | (None, w) \<Rightarrow>
          (go_bind (Load_loop bt (contents w p) (Index_zero bt)) (\<lambda>(index, e). Ret (e, index)), w))"

text \<open>\<^verbatim>\<open>WriteIndex\<close> numbers the records it writes; the writer is not closed.\<close>

function WriteIndex_loop :: "Writer \<Rightarrow> IndexIter \<Rightarrow> Off \<Rightarrow> world \<Rightarrow> err option \<times> world" where
  "WriteIndex_loop wr iter totalEntries w =
     (case IndexIter_Next iter of
        (False, iter) \<Rightarrow> (None, w)
      | (True, iter) \<Rightarrow>
          (case Writer_Push wr (IndexIter_Value iter) totalEntries w of
             (Some e, w) \<Rightarrow> (Some e, w)
           | (None, w) \<Rightarrow> WriteIndex_loop wr iter (totalEntries + 1) w))"
  by pat_completeness auto
termination
  by (relation "measure (\<lambda>(wr, iter, n, w). length (ii_curr iter) +
        (\<Sum>e\<leftarrow>ii_iter iter. Suc (length (snd e))))")
    (auto simp: IndexIter_Next_def split: if_splits list.splits)

declare WriteIndex_loop.simps [simp del]

definition WriteIndex :: "'m ibtree \<Rightarrow> 'm Index \<Rightarrow> path \<Rightarrow> world \<Rightarrow> err option \<times> world" where
  "WriteIndex bt idx p w =
     (case NewWriter p True w of
        (Inl e, w) \<Rightarrow> (Some e, w)
      | (Inr wr, w) \<Rightarrow> WriteIndex_loop wr (Index_Iter bt idx) 0 w)"

definition ReadTrailer :: "path \<Rightarrow> world \<Rightarrow> (err + Trailer) \<times> world" where
  "ReadTrailer p w =
     (case OpenRead p w of
        (Inl e, w) \<Rightarrow> (Inl e, w)
      | (Inr bs, w) \<Rightarrow>
     (case Call ''stat'' w of
        (Some e, w) \<Rightarrow> (Inl e, w)
      | (None, w) \<Rightarrow>
          if length bs < LocationSize then (Inr 0, w)
          else (case Uint32 (drop (length bs - 4) bs) of
                  Ret n \<Rightarrow> (Inr (ucast n), w)
                | Panic \<Rightarrow> (Inr 0, w))))"

definition HasSuffix :: "string \<Rightarrow> string \<Rightarrow> bool" where
  "HasSuffix s suf \<longleftrightarrow> length suf \<le> length s \<and> drop (length s - length suf) s = suf"

definition TrimSuffix :: "string \<Rightarrow> string \<Rightarrow> string" where
  "TrimSuffix s suf = (if HasSuffix s suf then take (length s - length suf) s else s)"

text \<open>\<^verbatim>\<open>ReadTrailers\<close>: the calls of the callback, in order, and the error that ended them if any.\<close>

fun ReadTrailers_loop :: "path \<Rightarrow> string list \<Rightarrow> world \<Rightarrow> err option \<times> (string \<times> Trailer) list \<times> world" where
  "ReadTrailers_loop d [] w = (None, [], w)"
| "ReadTrailers_loop d (name # names) w =
     (if \<not> HasSuffix name ''idx.log'' then ReadTrailers_loop d names w
      else case ReadTrailer (d @ [name]) w of
             (Inl e, w) \<Rightarrow> (Some e, [], w)
           | (Inr trailer, w) \<Rightarrow>
               let consumerName = TrimSuffix (TrimSuffix name ''idx.log'') ''.'';
                   (e, calls, w) = ReadTrailers_loop d names w
               in (e, (consumerName, trailer) # calls, w))"

definition ReadTrailers :: "path \<Rightarrow> world \<Rightarrow> err option \<times> (string \<times> Trailer) list \<times> world" where
  "ReadTrailers d w =
     (case ReadDir d w of
        (Inl e, w) \<Rightarrow> (Some e, [], w)
      | (Inr names, w) \<Rightarrow> ReadTrailers_loop d names w)"

section \<open>Rebuilding the index from the value log\<close>

lemma Next_loop_currLen: "Next_loop l li = Ret (ok, li') \<Longrightarrow> it_currLen li' = it_currLen li"
proof (induction l li rule: Next_loop.induct)
  case (1 l li)
  from "1.prems" obtain e it where r: "readItemAt l (it_currOff li) (it_item li) = Ret (e, it)"
    by (auto simp: Next_loop.simps [of l li] go_bind_eq_Ret)
  show ?case
  proof (cases "e = None \<or> \<not> it_continueOnErr li")
    case True
    then show ?thesis using "1.prems" r by (cases e) (auto simp: Next_loop.simps [of l li])
  next
    case False
    then obtain e' off where e': "e = Some e'" "findNextItem l (it_currOff li) = Ret off"
      using "1.prems" r by (auto simp: Next_loop.simps [of l li] go_bind_eq_Ret Let_def)
    show ?thesis
    proof (cases "size_off l \<le> off")
      case True
      then show ?thesis using "1.prems" r e' False by (auto simp: Next_loop.simps [of l li] Let_def)
    next
      case further: False
      then have "Next_loop l (li\<lparr>it_item := it, it_currOff := off\<rparr>) = Ret (ok, li')"
        using "1.prems" r e' False by (simp add: Next_loop.simps [of l li] Let_def)
      then show ?thesis using "1.IH" [OF r refl refl e'(1) _ _ refl] e'(2) False further by simp
    qed
  qed
qed

text \<open>Each item an iterator yields uses up one of its length.\<close>

lemma Iter_Next_currLen:
  assumes "Iter_Next l li = Ret (True, li')"
  shows "unat (it_currLen li') < unat (it_currLen li)"
proof -
  have "it_currLen li \<noteq> 0" using assms by (auto simp: Iter_Next_def)
  moreover have "it_currLen li' = it_currLen li - 1"
    using assms Next_loop_currLen
    by (auto simp: Iter_Next_def go_bind_eq_Ret split: if_splits)
  ultimately show ?thesis by (simp add: measure_unat)
qed

text \<open>The variables of the loop of \<^verbatim>\<open>FromVlog\<close>\<close>

record 'm runs =
  fv_index :: "'m Index"
  fv_prevLoc :: Location
  fv_lastLoc :: Location
  fv_isInitialItem :: bool

definition FromVlog_step :: "'m ibtree \<Rightarrow> Item \<Rightarrow> 'm runs \<Rightarrow> 'm runs" where
  "FromVlog_step bt it s =
     (let s = (if loc_Key (fv_prevLoc s) > item_Key it
               then s\<lparr>fv_index := Index_Set bt (fv_lastLoc s) (fv_index s),
                      fv_lastLoc := \<lparr>loc_Key = item_Key it, loc_Off = loc_Off (fv_prevLoc s), loc_Len = 0\<rparr>\<rparr>
               else s);
          s = s\<lparr>fv_lastLoc := (fv_lastLoc s)\<lparr>loc_Len := loc_Len (fv_lastLoc s) + 1\<rparr>\<rparr>;
          s = (if fv_isInitialItem s
               then s\<lparr>fv_lastLoc := (fv_lastLoc s)\<lparr>loc_Key := item_Key it\<rparr>, fv_isInitialItem := False\<rparr>
               else s)
      in s\<lparr>fv_prevLoc := (fv_prevLoc s)\<lparr>
             loc_Off := loc_Off (fv_prevLoc s) + (HeaderSize + of_nat (length (item_Blob it)) + TrailerSize),
             loc_Key := item_Key it\<rparr>\<rparr>)"

function FromVlog_loop :: "'m ibtree \<Rightarrow> Log \<Rightarrow> Iter \<Rightarrow> 'm runs \<Rightarrow> (Iter \<times> 'm runs) go" where
  "FromVlog_loop bt l iter s =
     go_bind (Iter_Next l iter) (\<lambda>(ok, iter).
       if \<not> ok then Ret (iter, s)
       else FromVlog_loop bt l iter (FromVlog_step bt (it_item iter) s))"
  by pat_completeness auto
termination
  by (relation "measure (\<lambda>(bt, l, iter, s). unat (it_currLen iter))") (auto dest: Iter_Next_currLen)

declare FromVlog_loop.simps [simp del]

definition FromVlog :: "'m ibtree \<Rightarrow> Log \<Rightarrow> (err + 'm Index) go" where
  "FromVlog bt l =
     (let iter = Log_At \<lparr>loc_Key = Key 0, loc_Off = 0, loc_Len = NOT 0\<rparr> True;
          s0 = \<lparr>fv_index = Index_zero bt, fv_prevLoc = zero_loc, fv_lastLoc = zero_loc, fv_isInitialItem = True\<rparr>
      in go_bind (FromVlog_loop bt l iter s0) (\<lambda>(iter, s).
           case it_err iter of
             Some e \<Rightarrow> Ret (Inl e)
           | None \<Rightarrow>
               Ret (Inr (if loc_Len (fv_lastLoc s) > 0
                         then Index_Set bt (fv_lastLoc s) (fv_index s) else fv_index s))))"

end
