(* ===== verification/Bucket.thy ===== *)
theory Bucket
  imports Options Index
begin

text \<open>
  A bucket (src/bucket.go): a value log, and for each fork an index in memory with its log on disk.
  The Go map of forks is an association list whose order stands for the order in which the runtime
  happens to iterate over the map; the theorems hold for every order. The pointers \<^verbatim>\<open>Log\<close> and \<^verbatim>\<open>Mem\<close>
  of a fork are owned by that fork alone, so a state-passing model with a value for each of them has
  the same behaviour; what \<^verbatim>\<open>Index.Copy\<close> shares between forks is noted in the root theory.

  The functions take the ordered map \<open>bt\<close> and the page size \<open>pg\<close> as parameters; \<open>cp\<close> is
  \<^verbatim>\<open>copy.Copy\<close> of github.com/otiai10/copy.
\<close>

section \<open>State\<close>

type_synonym ForkName = string

definition dataLogName :: string where "dataLogName = ''dat.log''"

definition ReadOpPeek :: int where "ReadOpPeek = 0"
definition ReadOpPop :: int where "ReadOpPop = 1"

record 'm bucketIndex =
  bi_Log :: Writer
  bi_Mem :: "'m Index"

record 'm bucket =
  b_dir :: path
  b_key :: Key
  b_log :: Log
  b_opts :: Options
  b_indexes :: "(ForkName \<times> 'm bucketIndex) list"

text \<open>The callback of \<^verbatim>\<open>Read\<close>: what to do with the items, or an error.\<close>

type_synonym bucketReadOpFn = "Items \<Rightarrow> int \<times> err option"

definition idxForFork :: "'m bucket \<Rightarrow> ForkName \<Rightarrow> err + 'm bucketIndex" where
  "idxForFork b fork =
     (case map_of (b_indexes b) fork of None \<Rightarrow> Inl ErrNoSuchFork | Some idx \<Rightarrow> Inr idx)"

text \<open>Writing back what a pointer in the map of forks refers to.\<close>

definition put_index :: "ForkName \<Rightarrow> 'm bucketIndex \<Rightarrow> 'm bucket \<Rightarrow> 'm bucket" where
  "put_index fork idx b = b\<lparr>b_indexes := AList.update fork idx (b_indexes b)\<rparr>"

section \<open>Opening\<close>

text \<open>The index recovered from the value log replaces the file; the log lines are not modelled.\<close>

definition recoverIndexFromLog :: "'m ibtree \<Rightarrow> Log \<Rightarrow> path \<Rightarrow> world \<Rightarrow> (err + 'm Index) go \<times> world" where
  "recoverIndexFromLog bt log path w =
     (case FromVlog bt log of
        Panic \<Rightarrow> (Panic, w)
      | Ret (Inl memErr) \<Rightarrow> (Ret (Inl memErr), w)
      | Ret (Inr mem) \<Rightarrow>
     (case Remove path w of
        (Some e, w) \<Rightarrow> (Ret (Inl e), w)
      | (None, w) \<Rightarrow>
     (case WriteIndex bt mem path w of
        (Some e, w) \<Rightarrow> (Ret (Inl (ErrSys ''index: write during recover did not work'')), w)
      | (None, w) \<Rightarrow> (Ret (Inr mem), w))))"

definition idxPath :: "path \<Rightarrow> ForkName \<Rightarrow> path" where
  "idxPath dir fork =
     (let idxName = (if fork = '''' then ''idx.log'' else fork @ ''.idx.log'') in dir @ [idxName])"

definition loadIndex :: "'m ibtree \<Rightarrow> path \<Rightarrow> Log \<Rightarrow> Options \<Rightarrow> world \<Rightarrow> (err + 'm bucketIndex) go \<times> world" where
  "loadIndex bt path log opts w =
     (case Index_Load bt path w of
        (Panic, w) \<Rightarrow> (Panic, w)
      | (Ret (loadErr, mem), w) \<Rightarrow>
     (let (r, w) = (if loadErr \<noteq> None \<or> (Index_NEntries mem = 0 \<and> \<not> Log_IsEmpty log)
                    then recoverIndexFromLog bt log path w else (Ret (Inr mem), w))
      in case r of
           Panic \<Rightarrow> (Panic, w)
         | Ret (Inl e) \<Rightarrow> (Ret (Inl e), w)
         | Ret (Inr mem) \<Rightarrow>
     (case NewWriter path (opt_SyncMode opts AND SyncIndex > 0) w of
        (Inl e, w) \<Rightarrow> (Ret (Inl e), w)
      | (Inr idxLog, w) \<Rightarrow> (Ret (Inr \<lparr>bi_Log = idxLog, bi_Mem = mem\<rparr>), w))))"

text \<open>The loop of \<^verbatim>\<open>openBucket\<close> over the forks\<close>

fun loadIndexes :: "'m ibtree \<Rightarrow> path \<Rightarrow> Log \<Rightarrow> Options \<Rightarrow> ForkName list \<Rightarrow>
    (ForkName \<times> 'm bucketIndex) list \<Rightarrow> Off \<Rightarrow> world \<Rightarrow>
    (err + (ForkName \<times> 'm bucketIndex) list \<times> Off) go \<times> world" where
  "loadIndexes bt dir log opts [] indexes entries w = (Ret (Inr (indexes, entries)), w)"
| "loadIndexes bt dir log opts (fork # forks) indexes entries w =
     (case loadIndex bt (idxPath dir fork) log opts w of
        (Panic, w) \<Rightarrow> (Panic, w)
      | (Ret (Inl e), w) \<Rightarrow> (Ret (Inl e), w)
      | (Ret (Inr idx), w) \<Rightarrow>
          loadIndexes bt dir log opts forks (AList.update fork idx indexes)
            (entries + Index_NEntries (bi_Mem idx)) w)"

definition bucket_AllEmpty :: "'m bucket \<Rightarrow> bool" where
  "bucket_AllEmpty b \<longleftrightarrow> list_all (\<lambda>(_, idx). \<not> Index_Len (bi_Mem idx) > 0) (b_indexes b)"

fun close_logs :: "(ForkName \<times> 'm bucketIndex) list \<Rightarrow> err option \<Rightarrow> world \<Rightarrow> err option \<times> world" where
  "close_logs [] e w = (e, w)"
| "close_logs ((_, idx) # rest) e w =
     (let (e', w) = Writer_Close (bi_Log idx) w in close_logs rest (join_err e e') w)"

definition bucket_Close :: "'m bucket \<Rightarrow> world \<Rightarrow> err option \<times> world" where
  "bucket_Close b w = (let (e, w) = Log_Close (b_log b) w in close_logs (b_indexes b) e w)"

definition filterIsNotExist :: "err option \<Rightarrow> err option" where
  "filterIsNotExist e = (if e = Some ErrNotExist then None else e)"

fun remove_indexes :: "path \<Rightarrow> ForkName list \<Rightarrow> err option \<Rightarrow> world \<Rightarrow> err option \<times> world" where
  "remove_indexes dir [] e w = (e, w)"
| "remove_indexes dir (fork # forks) e w =
     (let (e', w) = Remove (idxPath dir fork) w
      in remove_indexes dir forks (join_err e (filterIsNotExist e')) w)"

definition removeBucketDir :: "path \<Rightarrow> ForkName list \<Rightarrow> world \<Rightarrow> err option \<times> world" where
  "removeBucketDir dir forks w =
     (let (e0, w) = remove_indexes dir forks None w;
          (e1, w) = Remove (dir @ [''dat.log'']) w;
          (e2, w) = Remove (dir @ [''idx.log'']) w;
          (e3, w) = Remove dir w
      in (join_err e0 (join_err (filterIsNotExist e1) (join_err (filterIsNotExist e2) (filterIsNotExist e3))), w))"

text \<open>
  \<^verbatim>\<open>openBucket\<close> calls itself after it removed a bucket with nothing left in it. The first argument
  bounds the depth of the calls; \<open>openBucket_returns\<close> shows that two are always enough.
\<close>

fun openBucket_rec :: "nat \<Rightarrow> 'm ibtree \<Rightarrow> int \<Rightarrow> path \<Rightarrow> ForkName list \<Rightarrow> Options \<Rightarrow> world \<Rightarrow>
    (err + 'm bucket) option \<times> world" where
  "openBucket_rec 0 bt pg dir forks opts w = (None, w)"
| "openBucket_rec (Suc depth) bt pg dir forks opts w =
     (case MkdirAll dir w of
        (Some e, w) \<Rightarrow> (Some (Inl e), w)
      | (None, w) \<Rightarrow>
     (case vlog_Open pg (dir @ [dataLogName]) (opt_SyncMode opts AND SyncData > 0) w of
        (Inl e, w) \<Rightarrow> (Some (Inl e), w)
      | (Inr log, w) \<Rightarrow>
     (let forks = forks @ [''''] in
      case loadIndexes bt dir log opts forks [] 0 w of
        (Panic, w) \<Rightarrow> (Some (Inl ErrPanic), w)
      | (Ret (Inl e), w) \<Rightarrow> (Some (Inl e), w)
      | (Ret (Inr (indexes, entries)), w) \<Rightarrow>
     (case KeyFromString (last dir) of
        Inl e \<Rightarrow> (Some (Inl e), w)
      | Inr key \<Rightarrow>
     (let buck = \<lparr>b_dir = dir, b_key = key, b_log = log, b_opts = opts, b_indexes = indexes\<rparr> in
      if bucket_AllEmpty buck \<and> entries > 0
      then (case bucket_Close buck w of
              (Some e, w) \<Rightarrow> (Some (Inl e), w)
            | (None, w) \<Rightarrow>
           (case removeBucketDir dir forks w of
              (Some e, w) \<Rightarrow> (Some (Inl e), w)
            | (None, w) \<Rightarrow> openBucket_rec depth bt pg dir forks opts w))
      else (Some (Inr buck), w))))))"

definition openBucket :: "'m ibtree \<Rightarrow> int \<Rightarrow> path \<Rightarrow> ForkName list \<Rightarrow> Options \<Rightarrow> world \<Rightarrow>
    (err + 'm bucket) option \<times> world" where
  "openBucket bt pg dir forks opts w = openBucket_rec 2 bt pg dir forks opts w"

fun sync_logs :: "bool \<Rightarrow> (ForkName \<times> 'm bucketIndex) list \<Rightarrow> err option \<Rightarrow> world \<Rightarrow> err option \<times> world" where
  "sync_logs force [] e w = (e, w)"
| "sync_logs force ((_, idx) # rest) e w =
     (let (e', w) = Writer_Sync force (bi_Log idx) w in sync_logs force rest (join_err e e') w)"

definition bucket_Sync :: "bool \<Rightarrow> 'm bucket \<Rightarrow> world \<Rightarrow> err option \<times> world" where
  "bucket_Sync force b w = (let (e, w) = Log_Sync force (b_log b) w in sync_logs force (b_indexes b) e w)"

text \<open>The calls of the callback, in order\<close>

definition bucket_Trailers :: "'m bucket \<Rightarrow> (ForkName \<times> Trailer) list" where
  "bucket_Trailers b = map (\<lambda>(fork, idx). (fork, Index_Trailer (bi_Mem idx))) (b_indexes b)"

section \<open>Push\<close>

text \<open>One fork receives a location: in memory first, then in its log.\<close>

definition push_index :: "'m ibtree \<Rightarrow> Location \<Rightarrow> 'm bucketIndex \<Rightarrow> world \<Rightarrow> err option \<times> 'm bucketIndex \<times> world" where
  "push_index bt loc idx w =
     (let idx = idx\<lparr>bi_Mem := Index_Set bt loc (bi_Mem idx)\<rparr>;
          (e, w) = Writer_Push (bi_Log idx) loc (Index_Trailer (bi_Mem idx)) w
      in (e, idx, w))"

fun push_all :: "'m ibtree \<Rightarrow> Location \<Rightarrow> (ForkName \<times> 'm bucketIndex) list \<Rightarrow> world \<Rightarrow>
    err option \<times> (ForkName \<times> 'm bucketIndex) list \<times> world" where
  "push_all bt loc [] w = (None, [], w)"
| "push_all bt loc ((name, idx) # rest) w =
     (case push_index bt loc idx w of
        (Some e, idx, w) \<Rightarrow> (Some e, (name, idx) # rest, w)
      | (None, idx, w) \<Rightarrow>
          (let (e, rest, w) = push_all bt loc rest w in (e, (name, idx) # rest, w)))"

definition bucket_Push :: "'m ibtree \<Rightarrow> int \<Rightarrow> Items \<Rightarrow> bool \<Rightarrow> ForkName \<Rightarrow> 'm bucket \<Rightarrow> world \<Rightarrow>
    err option \<times> 'm bucket \<times> world" where
  "bucket_Push bt pg items all name b w =
     (if items = [] then (None, b, w)
      else case Log_Push pg items (b_log b) w of
             (Panic, l, w) \<Rightarrow> (Some ErrPanic, b\<lparr>b_log := l\<rparr>, w)
           | (Ret (Inl e), l, w) \<Rightarrow> (Some e, b\<lparr>b_log := l\<rparr>, w)
           | (Ret (Inr loc), l, w) \<Rightarrow>
               let b = b\<lparr>b_log := l\<rparr> in
               if all
               then let (e, indexes, w) = push_all bt loc (b_indexes b) w
                    in (e, b\<lparr>b_indexes := indexes\<rparr>, w)
               else case idxForFork b name of
                      Inl e \<Rightarrow> (Some e, b, w)
                    | Inr idx \<Rightarrow>
                        let (e, idx, w) = push_index bt loc idx w
                        in (e, put_index name idx b, w))"

section \<open>Read\<close>

definition bucket_logAt :: "'m bucket \<Rightarrow> Location \<Rightarrow> Iter" where
  "bucket_logAt b loc = Log_At loc (opt_ErrorMode (b_opts b) \<noteq> ErrorModeAbort)"

text \<open>\<^verbatim>\<open>addIter\<close>: its two results, then the heap and the index iterator it changed.\<close>

definition addIter :: "'m bucket \<Rightarrow> Iters \<Rightarrow> IndexIter \<Rightarrow> (bool \<times> err option \<times> Iters \<times> IndexIter) go" where
  "addIter b batchIters idxIter =
     go_bind (Iter_Next (b_log b) (bucket_logAt b (IndexIter_Value idxIter))) (\<lambda>(ok, batchIter).
       if \<not> ok then Ret (False, it_err batchIter, batchIters, idxIter)
       else let batchIters = Iters_Push batchIter batchIters;
                (more, idxIter) = IndexIter_Next idxIter
            in Ret (\<not> more, None, batchIters, idxIter))"

text \<open>
  The loop of \<^verbatim>\<open>peek\<close>; the first argument is \<^verbatim>\<open>n - numAppends\<close>. The result is what \<^verbatim>\<open>peek\<close> returns:
  the iterators (\<open>None\<close> for nil), the items, their number and the error.
\<close>

type_synonym peeked = "Iters option \<times> Items \<times> int \<times> err option"

fun peek_loop :: "'m bucket \<Rightarrow> nat \<Rightarrow> int \<Rightarrow> Items \<Rightarrow> Iters \<Rightarrow> IndexIter \<Rightarrow> bool \<Rightarrow> peeked go" where
  "peek_loop b 0 numAppends dst batchIters idxIter indexExhausted =
     Ret (Some batchIters, dst, numAppends, None)"
| "peek_loop b (Suc k) numAppends dst batchIters idxIter indexExhausted =
     (case batchIters of
        [] \<Rightarrow> Panic
      | currIter # _ \<Rightarrow>
          if it_exhausted currIter then Ret (Some batchIters, dst, numAppends, None)
          else
            let dst = dst @ [it_item currIter]; numAppends = numAppends + 1 in
            go_bind (Iter_Next (b_log b) currIter) (\<lambda>(_, currIter).
              let currKey = item_Key (it_item currIter) in
              case it_err currIter of
                Some e \<Rightarrow> Ret (None, dst, 0, Some e)
              | None \<Rightarrow>
                  let currIsExhausted = it_exhausted currIter;
                      batchIters = Iters_Fix 0 (batchIters[0 := currIter]) in
                  if \<not> indexExhausted \<and>
                     (currIsExhausted \<or> loc_Key (IndexIter_Value idxIter) \<le> currKey)
                  then go_bind (addIter b batchIters idxIter) (\<lambda>(indexExhausted, e, batchIters, idxIter).
                         case e of
                           Some e \<Rightarrow> Ret (None, dst, 0, Some e)
                         | None \<Rightarrow> peek_loop b k numAppends dst batchIters idxIter indexExhausted)
                  else peek_loop b k numAppends dst batchIters idxIter indexExhausted))"

text \<open>A panic is recovered into an error; the caller then looks at nothing but the error.\<close>

definition bucket_peek :: "'m ibtree \<Rightarrow> 'm bucket \<Rightarrow> int \<Rightarrow> Items \<Rightarrow> 'm Index \<Rightarrow> peeked" where
  "bucket_peek bt b n dst idx =
     (case IndexIter_Next (Index_Iter bt idx) of
        (False, _) \<Rightarrow> (None, dst, 0, None)
      | (True, idxIter) \<Rightarrow>
          (case go_bind (addIter b [] idxIter) (\<lambda>(indexExhausted, e, batchIters, idxIter).
                  case e of
                    Some e \<Rightarrow> Ret (None, dst, 0, Some e)
                  | None \<Rightarrow>
                      if batchIters = [] then Ret (None, dst, 0, None)
                      else peek_loop b (nat n) 0 dst batchIters idxIter indexExhausted) of
             Panic \<Rightarrow> (None, [], 0, Some ErrPanic)
           | Ret r \<Rightarrow> r))"

text \<open>The body of the loop of \<^verbatim>\<open>popSync\<close>, and the loop\<close>

definition popSync_one :: "'m ibtree \<Rightarrow> Iter \<Rightarrow> 'm bucketIndex \<Rightarrow> world \<Rightarrow>
    err option go \<times> 'm bucketIndex \<times> world" where
  "popSync_one bt batchIter idx w =
     (let (e, idx, w) = (if \<not> it_exhausted batchIter then push_index bt (CurrentLocation batchIter) idx w
                         else (None, idx, w))
      in case e of
           Some e \<Rightarrow> (Ret (Some e), idx, w)
         | None \<Rightarrow>
     (case Index_Delete bt (it_firstKey batchIter) (bi_Mem idx) of
        Panic \<Rightarrow> (Panic, idx, w)
      | Ret (_, mem) \<Rightarrow>
          let idx = idx\<lparr>bi_Mem := mem\<rparr>;
              deadLoc = \<lparr>loc_Key = it_firstKey batchIter, loc_Off = 0, loc_Len = 0\<rparr>;
              (e, w) = Writer_Push (bi_Log idx) deadLoc (Index_Trailer (bi_Mem idx)) w
          in (Ret e, idx, w)))"

fun popSync_loop :: "'m ibtree \<Rightarrow> Iters \<Rightarrow> 'm bucketIndex \<Rightarrow> world \<Rightarrow>
    err option go \<times> 'm bucketIndex \<times> world" where
  "popSync_loop bt [] idx w =
     (let (e, w) = Writer_Sync False (bi_Log idx) w in (Ret e, idx, w))"
| "popSync_loop bt (batchIter # rest) idx w =
     (case popSync_one bt batchIter idx w of
        (Ret None, idx, w) \<Rightarrow> popSync_loop bt rest idx w
      | r \<Rightarrow> r)"

definition popSync :: "'m ibtree \<Rightarrow> Iters \<Rightarrow> 'm bucketIndex \<Rightarrow> world \<Rightarrow>
    err option go \<times> 'm bucketIndex \<times> world" where
  "popSync bt batchIters idx w =
     (if batchIters = [] then (Ret None, idx, w) else popSync_loop bt batchIters idx w)"

text \<open>
  \<^verbatim>\<open>Read\<close>: the error, and the items the callback was called with, if it was. The buffer \<^verbatim>\<open>dst\<close> only
  provides memory: \<^verbatim>\<open>peek\<close> starts from \<^verbatim>\<open>(*dst)[:0]\<close>.
\<close>

definition bucket_Read :: "'m ibtree \<Rightarrow> int \<Rightarrow> ForkName \<Rightarrow> bucketReadOpFn \<Rightarrow> 'm bucket \<Rightarrow> world \<Rightarrow>
    (err option \<times> Items option) go \<times> 'm bucket \<times> world" where
  "bucket_Read bt n fork fn b w =
     (if n \<le> 0 then (Ret (None, None), b, w)
      else case idxForFork b fork of
             Inl e \<Rightarrow> (Ret (Some e, None), b, w)
           | Inr idx \<Rightarrow>
     (case bucket_peek bt b n [] (bi_Mem idx) of
        (_, _, _, Some e) \<Rightarrow> (Ret (Some e, None), b, w)
      | (iters, items, _, None) \<Rightarrow>
     (case fn items of
        (_, Some e) \<Rightarrow> (Ret (Some e, Some items), b, w)
      | (op, None) \<Rightarrow>
          if op = ReadOpPop
          then (case iters of
                  None \<Rightarrow> (Ret (None, Some items), b, w)
                | Some iters \<Rightarrow>
                    let (r, idx, w) = popSync bt iters idx w
                    in (go_bind r (\<lambda>e. Ret (e, Some items)), put_index fork idx b, w))
          else (Ret (None, Some items), b, w))))"

section \<open>Delete\<close>

text \<open>The inner loop of \<^verbatim>\<open>Delete\<close>: how many items stay on the left, and where the right part starts.\<close>

function delete_scan :: "Log \<Rightarrow> Key \<Rightarrow> Key \<Rightarrow> Iter \<Rightarrow> Off \<Rightarrow> Location \<Rightarrow> (Off \<times> Location) go" where
  "delete_scan l from to logIter leftLen rightLoc =
     go_bind (Iter_Next l logIter) (\<lambda>(ok, logIter).
       if \<not> ok then Ret (leftLen, rightLoc)
       else let key = item_Key (it_item logIter);
                leftLen = (if key < from then leftLen + 1 else leftLen) in
            if key > to \<and> loc_Len rightLoc = 0 then Ret (leftLen, CurrentLocation logIter)
            else delete_scan l from to logIter leftLen rightLoc)"
  by pat_completeness auto
termination
  by (relation "measure (\<lambda>(l, from, to, logIter, n, r). unat (it_currLen logIter))")
    (auto dest: Iter_Next_currLen)

declare delete_scan.simps [simp del]

record deletion =
  dl_ndeleted :: int
  dl_deleteEntries :: "Key list"
  dl_partialSetEntries :: "Location list"
  dl_pushErr :: "err option"

text \<open>The two blocks that remember and log a part that is kept\<close>

definition push_part :: "Writer \<Rightarrow> Location \<Rightarrow> Trailer \<Rightarrow> deletion \<Rightarrow> world \<Rightarrow> deletion \<times> world" where
  "push_part wr part trailer d w =
     (if loc_Len part > 0
      then let (e, w) = Writer_Push wr part trailer w
           in (d\<lparr>dl_partialSetEntries := dl_partialSetEntries d @ [part],
                 dl_pushErr := join_err (dl_pushErr d) e\<rparr>, w)
      else (d, w))"

text \<open>The outer loop; the flag says whether it panicked.\<close>

function delete_loop :: "'m bucket \<Rightarrow> Writer \<Rightarrow> Key \<Rightarrow> Key \<Rightarrow> Off \<Rightarrow> IndexIter \<Rightarrow> deletion \<Rightarrow> world \<Rightarrow>
    bool \<times> deletion \<times> world" where
  "delete_loop b wr from to lenBefore iter d w =
     (case IndexIter_Next iter of
        (False, iter) \<Rightarrow> (False, d, w)
      | (True, iter) \<Rightarrow>
     (let loc = IndexIter_Value iter in
      if loc_Key loc > to then (False, d, w)
      else case delete_scan (b_log b) from to (bucket_logAt b loc) 0 zero_loc of
             Panic \<Rightarrow> (True, d, w)
           | Ret (leftLen, rightLoc) \<Rightarrow>
     (let leftLoc = loc\<lparr>loc_Len := leftLen\<rparr>;
          locShrinked = sint (loc_Len loc - loc_Len leftLoc - loc_Len rightLoc) in
      if locShrinked = 0 then delete_loop b wr from to lenBefore iter d w
      else let d = d\<lparr>dl_deleteEntries := dl_deleteEntries d @ [loc_Key loc],
                     dl_ndeleted := wrap64 (dl_ndeleted d + locShrinked)\<rparr>;
               (d, w) = push_part wr leftLoc (lenBefore - loc_Len loc - loc_Len leftLoc) d w;
               (d, w) = push_part wr rightLoc (lenBefore - word_of_int (dl_ndeleted d)) d w
           in delete_loop b wr from to lenBefore iter d w)))"
  by pat_completeness auto
termination
  by (relation "measure (\<lambda>(b, wr, from, to, n, iter, d, w). length (ii_curr iter) +
        (\<Sum>e\<leftarrow>ii_iter iter. Suc (length (snd e))))")
    (auto simp: IndexIter_Next_def split: if_splits list.splits)

declare delete_loop.simps [simp del]

text \<open>The loop over \<^verbatim>\<open>deleteEntries\<close>\<close>

fun delete_entries :: "'m ibtree \<Rightarrow> Off \<Rightarrow> Key list \<Rightarrow> err option \<Rightarrow> 'm bucketIndex \<Rightarrow> world \<Rightarrow>
    err option go \<times> 'm bucketIndex \<times> world" where
  "delete_entries bt totalEntries [] pushErr idx w = (Ret pushErr, idx, w)"
| "delete_entries bt totalEntries (key # keys) pushErr idx w =
     (case Index_Delete bt key (bi_Mem idx) of
        Panic \<Rightarrow> (Panic, idx, w)
      | Ret (_, mem) \<Rightarrow>
          let idx = idx\<lparr>bi_Mem := mem\<rparr>;
              (e, w) = Writer_Push (bi_Log idx) \<lparr>loc_Key = key, loc_Off = 0, loc_Len = 0\<rparr> totalEntries w
          in delete_entries bt totalEntries keys (join_err pushErr e) idx w)"

definition bucket_Delete :: "'m ibtree \<Rightarrow> ForkName \<Rightarrow> Key \<Rightarrow> Key \<Rightarrow> 'm bucket \<Rightarrow> world \<Rightarrow>
    (int \<times> err option) \<times> 'm bucket \<times> world" where
  "bucket_Delete bt fork from to b w =
     (if b_key b > to then ((0, None), b, w)
      else if to < from then ((0, Some (ErrInvalid ''to < from in bucket delete'')), b, w)
      else case idxForFork b fork of
             Inl e \<Rightarrow> ((0, Some e), b, w)
           | Inr idx \<Rightarrow>
     (let lenBefore = Index_Len (bi_Mem idx);
          (panicked, d, w) = delete_loop b (bi_Log idx) from to lenBefore (Index_Iter bt (bi_Mem idx))
             \<lparr>dl_ndeleted = 0, dl_deleteEntries = [], dl_partialSetEntries = [], dl_pushErr = None\<rparr> w in
      if panicked then ((dl_ndeleted d, Some ErrPanic), b, w)
      else case delete_entries bt (lenBefore - word_of_int (dl_ndeleted d)) (dl_deleteEntries d)
                  (dl_pushErr d) idx w of
             (Panic, idx, w) \<Rightarrow> ((dl_ndeleted d, Some ErrPanic), put_index fork idx b, w)
           | (Ret pushErr, idx, w) \<Rightarrow>
     (let idx = idx\<lparr>bi_Mem := fold (Index_Set bt) (dl_partialSetEntries d) (bi_Mem idx)\<rparr>;
          (e, w) = Writer_Sync False (bi_Log idx) w
      in ((dl_ndeleted d, join_err pushErr e), put_index fork idx b, w))))"

section \<open>Queries\<close>

definition bucket_Empty :: "'m bucket \<Rightarrow> ForkName \<Rightarrow> bool" where
  "bucket_Empty b fork =
     (case idxForFork b fork of Inl _ \<Rightarrow> True | Inr idx \<Rightarrow> Index_Len (bi_Mem idx) = 0)"

definition bucket_Key :: "'m bucket \<Rightarrow> Key" where
  "bucket_Key b = b_key b"

definition bucket_Len :: "'m bucket \<Rightarrow> ForkName \<Rightarrow> int" where
  "bucket_Len b fork =
     (case idxForFork b fork of Inl _ \<Rightarrow> 0 | Inr idx \<Rightarrow> sint (Index_Len (bi_Mem idx)))"

section \<open>Forks\<close>

definition bucket_Fork :: "'m ibtree \<Rightarrow> ForkName \<Rightarrow> ForkName \<Rightarrow> 'm bucket \<Rightarrow> world \<Rightarrow>
    err option \<times> 'm bucket \<times> world" where
  "bucket_Fork bt src dst b w =
     (case idxForFork b src of
        Inl e \<Rightarrow> (Some e, b, w)
      | Inr srcIdx \<Rightarrow>
     (case idxForFork b dst of
        Inr _ \<Rightarrow> (None, b, w)
      | Inl _ \<Rightarrow>
     (let dstPath = idxPath (b_dir b) dst in
      case WriteIndex bt (bi_Mem srcIdx) dstPath w of
        (Some e, w) \<Rightarrow> (Some e, b, w)
      | (None, w) \<Rightarrow>
     (case NewWriter dstPath (opt_SyncMode (b_opts b) AND SyncIndex > 0) w of
        (Inl e, w) \<Rightarrow> (Some e, b, w)
      | (Inr dstIdxLog, w) \<Rightarrow>
          (None, put_index dst \<lparr>bi_Log = dstIdxLog, bi_Mem = Index_Copy (bi_Mem srcIdx)\<rparr> b, w)))))"

definition forkOffline :: "(path \<Rightarrow> path \<Rightarrow> world \<Rightarrow> err option \<times> world) \<Rightarrow> path \<Rightarrow> ForkName \<Rightarrow> ForkName \<Rightarrow>
    world \<Rightarrow> err option \<times> world" where
  "forkOffline cp buckDir src dst w =
     (let dstPath = idxPath buckDir dst in
      case Stat dstPath w of
        (None, w) \<Rightarrow> (None, w)
      | (Some _, w) \<Rightarrow> cp (idxPath buckDir src) dstPath w)"

definition bucket_RemoveFork :: "ForkName \<Rightarrow> 'm bucket \<Rightarrow> world \<Rightarrow> err option \<times> 'm bucket \<times> world" where
  "bucket_RemoveFork fork b w =
     (case idxForFork b fork of
        Inl e \<Rightarrow> (Some e, b, w)
      | Inr idx \<Rightarrow>
          let dstPath = idxPath (b_dir b) fork;
              b = b\<lparr>b_indexes := AList.delete fork (b_indexes b)\<rparr>;
              (e1, w) = Writer_Close (bi_Log idx) w;
              (e2, w) = Remove dstPath w
          in (join_err e1 e2, b, w))"

definition removeForkOffline :: "path \<Rightarrow> ForkName \<Rightarrow> world \<Rightarrow> err option \<times> world" where
  "removeForkOffline buckDir fork w = Remove (idxPath buckDir fork) w"

definition bucket_Forks :: "'m bucket \<Rightarrow> ForkName list" where
  "bucket_Forks b = sort (filter (\<lambda>fork. fork \<noteq> '''') (map fst (b_indexes b)))"

end
