(* ===== verification/Index_Correct.thy ===== *)
theory Index_Correct
  imports Index
begin

text \<open>
  Correctness of the index. The abstract view is the function \<open>locs_at\<close> from keys to the queue of
  batch locations with that first key: setting a location appends to a queue, deleting a key takes
  the head of its queue. The lemmas are proved in the locale \<open>index_btree\<close>, for every ordered map
  that meets the laws, and include that loading the records the writer wrote repeats the operations.
\<close>

section \<open>The abstract view\<close>

definition locs_at :: "'m ibtree \<Rightarrow> 'm Index \<Rightarrow> Key \<Rightarrow> Location list" where
  "locs_at bt i k = (case bt_get bt (idx_m i) k of None \<Rightarrow> [] | Some ls \<Rightarrow> ls)"

definition all_locs :: "'m ibtree \<Rightarrow> 'm Index \<Rightarrow> Location list" where
  "all_locs bt i = concat (map snd (bt_iter bt (idx_m i)))"

definition wf_index :: "'m ibtree \<Rightarrow> 'm Index \<Rightarrow> bool" where
  "wf_index bt i \<longleftrightarrow>
     (\<forall>(k, ls) \<in> set (bt_iter bt (idx_m i)). ls \<noteq> [] \<and> (\<forall>loc \<in> set ls. loc_Key loc = k)) \<and>
     idx_len i = (\<Sum>loc\<leftarrow>all_locs bt i. loc_Len loc)"

text \<open>What a record of the index log does to the queues.\<close>

definition apply_rec :: "Location \<Rightarrow> (Key \<Rightarrow> Location list) \<Rightarrow> Key \<Rightarrow> Location list" where
  "apply_rec loc q =
     (if loc_Len loc = 0 then q(loc_Key loc := tl (q (loc_Key loc)))
      else q(loc_Key loc := q (loc_Key loc) @ [loc]))"

definition enc_recs :: "(Location \<times> Trailer) list \<Rightarrow> bytes" where
  "enc_recs rs = concat (map (\<lambda>(loc, t). enc_loc loc t) rs)"

text \<open>A location whose length survives the 32-bit field of the record.\<close>

definition rec_ok :: "Location \<Rightarrow> bool" where
  "rec_ok loc \<longleftrightarrow> unat (loc_Len loc) < 2 ^ 32"

section \<open>Association lists of queues\<close>

abbreviation queue_of :: "('k \<times> 'v list) list \<Rightarrow> 'k \<Rightarrow> 'v list" where
  "queue_of es k \<equiv> (case map_of es k of None \<Rightarrow> [] | Some ls \<Rightarrow> ls)"

lemma map_of_None_sorted: "sorted_keys ((a, b) # es) \<Longrightarrow> k \<le> a \<Longrightarrow> map_of es k = None"
  by (auto simp: map_of_eq_None_iff)

lemma mset_al_set:
  "sorted_keys es \<Longrightarrow>
   mset (concat (map snd (al_set k v es))) + mset (queue_of es k) = mset (concat (map snd es)) + mset v"
proof (induction k v es rule: al_set.induct)
  case (2 k v a b es)
  then show ?case using map_of_None_sorted [OF "2.prems", of k] by (auto simp: not_less)
qed simp

lemma mset_al_del:
  "sorted_keys es \<Longrightarrow> mset (concat (map snd (al_del k es))) + mset (queue_of es k) = mset (concat (map snd es))"
proof (induction es)
  case (Cons e es)
  obtain a b where e: "e = (a, b)" by (cases e)
  show ?case
  proof (cases "a = k")
    case True
    then have "map_of es k = None" using Cons.prems map_of_None_sorted [of a b es k] e by simp
    moreover from this have "k \<notin> fst ` set es" by (simp add: map_of_eq_None_iff)
    then have "al_del k es = es" unfolding al_del_def by (intro filter_True) auto
    ultimately show ?thesis using True e by (simp add: al_del_def)
  next
    case False
    then show ?thesis using Cons e by (simp add: al_del_def)
  qed
qed (simp add: al_del_def)

lemma set_al_set: "set (al_set k v es) \<subseteq> insert (k, v) (set es)"
  by (induction k v es rule: al_set.induct) auto

lemma set_al_del: "set (al_del k es) \<subseteq> set es"
  by (auto simp: al_del_def)

section \<open>The operations\<close>

locale index_btree = btree_map bt for bt :: "(Key, Location list, 'm) btree"
begin

lemma locs_at_queue: "locs_at bt i k = queue_of (bt_iter bt (idx_m i)) k"
  by (simp add: locs_at_def get_iter)

lemma locs_at_zero [simp]: "locs_at bt (Index_zero bt) k = []"
  by (simp add: locs_at_def Index_zero_def)

lemma all_locs_zero [simp]: "all_locs bt (Index_zero bt) = []"
  by (simp add: all_locs_def Index_zero_def)

lemma wf_index_zero [simp]: "wf_index bt (Index_zero bt)"
  by (simp add: wf_index_def all_locs_def Index_zero_def)

lemma locs_at_Set: "locs_at bt (Index_Set bt loc i) = (locs_at bt i)(loc_Key loc := locs_at bt i (loc_Key loc) @ [loc])"
  by (auto simp: locs_at_def Index_Set_def fun_eq_iff Let_def)

lemma mset_all_locs_Set: "mset (all_locs bt (Index_Set bt loc i)) = add_mset loc (mset (all_locs bt i))"
proof -
  have "mset (all_locs bt (Index_Set bt loc i)) + mset (locs_at bt i (loc_Key loc)) =
      mset (all_locs bt i) + mset (locs_at bt i (loc_Key loc) @ [loc])"
    using mset_al_set [OF iter_sorted [of "idx_m i"], of "loc_Key loc" "locs_at bt i (loc_Key loc) @ [loc]"]
    by (simp add: all_locs_def Index_Set_def locs_at_queue get_iter Let_def)
  then show ?thesis by simp
qed

lemma sum_all_locs_mset: "(\<Sum>loc\<leftarrow>all_locs bt i. f loc) = (\<Sum>loc\<in>#mset (all_locs bt i). f loc)"
  by (simp add: sum_mset_sum_list [symmetric] flip: mset_map)

lemma wf_locs_key: "wf_index bt i \<Longrightarrow> loc \<in> set (locs_at bt i k) \<Longrightarrow> loc_Key loc = k"
  unfolding wf_index_def locs_at_queue
  by (cases "map_of (bt_iter bt (idx_m i)) k") (auto dest!: map_of_SomeD)

lemma wf_locs_nonempty: "wf_index bt i \<Longrightarrow> (k, ls) \<in> set (bt_iter bt (idx_m i)) \<Longrightarrow> ls \<noteq> []"
  unfolding wf_index_def by auto

lemma wf_index_Set: "wf_index bt i \<Longrightarrow> wf_index bt (Index_Set bt loc i)"
proof -
  assume wf: "wf_index bt i"
  have "idx_len (Index_Set bt loc i) = (\<Sum>loc\<leftarrow>all_locs bt (Index_Set bt loc i). loc_Len loc)"
    using wf unfolding sum_all_locs_mset mset_all_locs_Set
    by (simp add: wf_index_def Index_Set_def Let_def sum_all_locs_mset add.commute)
  moreover have "ls \<noteq> [] \<and> (\<forall>l \<in> set ls. loc_Key l = k)"
    if "(k, ls) \<in> set (bt_iter bt (idx_m (Index_Set bt loc i)))" for k ls
  proof -
    have "(k, ls) = (loc_Key loc, locs_at bt i (loc_Key loc) @ [loc]) \<or> (k, ls) \<in> set (bt_iter bt (idx_m i))"
      using that set_al_set [of "loc_Key loc" _ "bt_iter bt (idx_m i)"]
      by (auto simp: Index_Set_def Let_def locs_at_def)
    then show ?thesis using wf wf_locs_key [OF wf] by (auto simp: wf_index_def)
  qed
  ultimately show ?thesis by (auto simp: wf_index_def)
qed

text \<open>Deleting a key takes the oldest batch with that key and never panics.\<close>

lemma Index_Delete_ok:
  assumes wf: "wf_index bt i"
  obtains i' where
    "Index_Delete bt k i = Ret (if locs_at bt i k = [] then zero_loc else hd (locs_at bt i k), i')"
    "wf_index bt i'" "locs_at bt i' = (locs_at bt i)(k := tl (locs_at bt i k))"
    "mset (all_locs bt i) = mset (take 1 (locs_at bt i k)) + mset (all_locs bt i')"
    "idx_nentries i' = idx_nentries i + (\<Sum>l\<leftarrow>take 1 (locs_at bt i k). loc_Len l)"
proof (cases "bt_get bt (idx_m i) k")
  case None
  then have "locs_at bt i k = []" by (simp add: locs_at_def)
  then show ?thesis using None wf by (intro that [of i]) (auto simp: Index_Delete_def fun_eq_iff)
next
  case (Some ls)
  have q: "locs_at bt i k = ls" using Some by (simp add: locs_at_def)
  have "ls \<noteq> []" using Some wf wf_locs_nonempty [OF wf, of k ls] by (simp add: get_iter map_of_SomeD)
  then obtain old rest where ls: "ls = old # rest" by (cases ls) auto
  define m' where "m' = (if rest \<noteq> [] then bt_set bt (idx_m i) k rest else bt_delete bt (idx_m i) k)"
  define i' where "i' = i\<lparr>idx_len := idx_len i - loc_Len old, idx_nentries := idx_nentries i + loc_Len old, idx_m := m'\<rparr>"
  have del: "Index_Delete bt k i = Ret (old, i')"
    using Some ls by (simp add: Index_Delete_def i'_def m'_def Let_def)
  have m: "mset (all_locs bt i) = add_mset old (mset (all_locs bt i'))"
    using mset_al_set [OF iter_sorted [of "idx_m i"], of k rest] mset_al_del [OF iter_sorted [of "idx_m i"], of k]
      Some ls by (auto simp: all_locs_def i'_def m'_def get_iter)
  have at: "locs_at bt i' = (locs_at bt i)(k := rest)"
    using ls q by (auto simp: locs_at_def i'_def m'_def fun_eq_iff)
  have "idx_len i = loc_Len old + (\<Sum>loc\<leftarrow>all_locs bt i'. loc_Len loc)"
    using wf m unfolding sum_all_locs_mset wf_index_def by simp
  moreover have "idx_len i' = idx_len i - loc_Len old" by (simp add: i'_def)
  ultimately have "idx_len i' = (\<Sum>loc\<leftarrow>all_locs bt i'. loc_Len loc)" by simp
  moreover have "ls' \<noteq> [] \<and> (\<forall>l \<in> set ls'. loc_Key l = k')" if "(k', ls') \<in> set (bt_iter bt m')" for k' ls'
  proof -
    have "(k' = k \<and> ls' = rest \<and> rest \<noteq> []) \<or> (k', ls') \<in> set (bt_iter bt (idx_m i))"
      using that set_al_set [of k rest "bt_iter bt (idx_m i)"] set_al_del [of k "bt_iter bt (idx_m i)"]
      by (auto simp: m'_def split: if_splits)
    then show ?thesis using wf wf_locs_key [OF wf, of _ k] q ls by (auto simp: wf_index_def)
  qed
  ultimately have "wf_index bt i'" by (auto simp: wf_index_def i'_def)
  then show ?thesis using del at m q ls by (intro that [of i']) (simp_all add: i'_def)
qed

text \<open>The queues determine the sequence an iteration runs through.\<close>

lemma iter_eqI:
  assumes "wf_index bt i" "wf_index bt i'" "locs_at bt i = locs_at bt i'"
  shows "bt_iter bt (idx_m i) = bt_iter bt (idx_m i')"
proof (rule sorted_keys_ext [OF iter_sorted iter_sorted])
  have "map_of (bt_iter bt (idx_m j)) k = (if locs_at bt j k = [] then None else Some (locs_at bt j k))"
    if "wf_index bt j" for j k
    using wf_locs_nonempty [OF that, of k]
    by (cases "map_of (bt_iter bt (idx_m j)) k") (auto simp: locs_at_queue dest: map_of_SomeD)
  then show "map_of (bt_iter bt (idx_m i)) = map_of (bt_iter bt (idx_m i'))"
    using assms by (simp add: fun_eq_iff)
qed

lemma all_locs_eqI:
  "wf_index bt i \<Longrightarrow> wf_index bt i' \<Longrightarrow> locs_at bt i = locs_at bt i' \<Longrightarrow> all_locs bt i = all_locs bt i'"
  using iter_eqI [of i i'] by (simp add: all_locs_def)

end

section \<open>Iterating over the index\<close>

text \<open>The locations an iterator has still to yield, the current one first.\<close>

definition ii_pending :: "IndexIter \<Rightarrow> Location list" where
  "ii_pending ii = ii_curr ii @ concat (map snd (ii_iter ii))"

definition ii_ok :: "IndexIter \<Rightarrow> bool" where
  "ii_ok ii \<longleftrightarrow> (\<forall>e \<in> set (ii_iter ii). snd e \<noteq> [])"

lemma IndexIter_Next_step:
  assumes "ii_ok ii" "ii_curr ii \<noteq> []"
  obtains ii' where "IndexIter_Next ii = (tl (ii_pending ii) \<noteq> [], ii')" "ii_ok ii'"
    "tl (ii_pending ii) \<noteq> [] \<Longrightarrow> ii_curr ii' \<noteq> [] \<and> ii_pending ii' = tl (ii_pending ii)"
proof -
  obtain l ls where c: "ii_curr ii = l # ls" using assms(2) by (cases "ii_curr ii") auto
  show ?thesis
  proof (cases ls)
    case Nil
    then show ?thesis using assms c
      by (intro that [of "snd (IndexIter_Next ii)"])
        (auto simp: IndexIter_Next_def ii_pending_def ii_ok_def split: list.splits)
  next
    case (Cons l' ls')
    then show ?thesis using assms c
      by (intro that [of "snd (IndexIter_Next ii)"]) (simp_all add: IndexIter_Next_def ii_pending_def ii_ok_def)
  qed
qed

lemma IndexIter_Next_first:
  assumes "ii_ok ii" "ii_curr ii = []"
  obtains ii' where "IndexIter_Next ii = (ii_pending ii \<noteq> [], ii')" "ii_ok ii'"
    "ii_pending ii \<noteq> [] \<Longrightarrow> ii_curr ii' \<noteq> [] \<and> ii_pending ii' = ii_pending ii"
  using assms by (intro that [of "snd (IndexIter_Next ii)"])
    (auto simp: IndexIter_Next_def ii_pending_def ii_ok_def split: list.splits)

lemma IndexIter_Value_hd: "ii_curr ii \<noteq> [] \<Longrightarrow> IndexIter_Value ii = hd (ii_pending ii)"
  by (cases "ii_curr ii") (simp_all add: IndexIter_Value_def ii_pending_def)

section \<open>Records\<close>

lemma length_enc_loc [simp]: "length (enc_loc loc t) = 24"
  by (simp add: enc_loc_def)

lemma enc_recs_simps [simp]:
  "enc_recs [] = []" "enc_recs ((loc, t) # rs) = enc_loc loc t @ enc_recs rs"
  "enc_recs (rs @ rs') = enc_recs rs @ enc_recs rs'"
  by (simp_all add: enc_recs_def)

lemma ucast_down_up: "unat (w :: 64 word) < 2 ^ 32 \<Longrightarrow> ucast (ucast w :: 32 word) = w"
  by (simp add: word_eq_iff_unsigned [where ?'a = nat] unsigned_ucast_eq unsigned_take_bit_eq take_bit_nat_eq_self)

text \<open>A record that was written is read back, its length cut to 32 bits.\<close>

lemma Reader_Next_enc:
  "Reader_Next (enc_loc loc t @ rest) =
     Ret (Inr (Some (loc\<lparr>loc_Len := ucast (ucast (loc_Len loc) :: 32 word)\<rparr>, rest)))"
proof -
  have t: "take LocationSize (enc_loc loc t @ rest) = enc_loc loc t" "drop LocationSize (enc_loc loc t @ rest) = rest"
    by (simp_all add: LocationSize_def)
  have d: "take 8 (enc_loc loc t) = PutUint64 (keyw (loc_Key loc)) @ []"
    "drop 8 (enc_loc loc t) = PutUint64 (loc_Off loc) @ PutUint32 (ucast (loc_Len loc)) @ PutUint32 (ucast t)"
    "drop 16 (enc_loc loc t) = PutUint32 (ucast (loc_Len loc)) @ PutUint32 (ucast t)"
    by (simp_all add: enc_loc_def)
  have ne: "enc_loc loc t @ rest \<noteq> []" "\<not> length (enc_loc loc t @ rest) < LocationSize"
    using length_enc_loc [of loc t] by (auto simp: LocationSize_def simp del: length_enc_loc)
  show ?thesis
    unfolding Reader_Next_def Let_def t d Uint64_PutUint64 Uint32_PutUint32 go_bind.simps
    using ne by simp
qed

lemma Reader_Next_rec: "rec_ok loc \<Longrightarrow> Reader_Next (enc_loc loc t @ rest) = Ret (Inr (Some (loc, rest)))"
  by (simp add: Reader_Next_enc rec_ok_def ucast_down_up)

context index_btree
begin

text \<open>Loading a log of records repeats the operations they stand for, whatever follows the records.\<close>

lemma Load_recs:
  assumes "wf_index bt i" "\<forall>(loc, t) \<in> set rs. rec_ok loc"
  obtains i' where "Load_loop bt (enc_recs rs @ rest) i = Load_loop bt rest i'" "wf_index bt i'"
    "locs_at bt i' = fold apply_rec (map fst rs) (locs_at bt i)"
  using assms
proof (induction rs arbitrary: i thesis)
  case (Cons r rs)
  obtain loc t where r: "r = (loc, t)" by (cases r)
  define bs where "bs = enc_loc loc t @ enc_recs rs @ rest"
  have rd: "Reader_Next bs = Ret (Inr (Some (loc, enc_recs rs @ rest)))"
    using Cons.prems(3) by (simp add: r Reader_Next_rec bs_def)
  have ok: "\<forall>(loc, t) \<in> set rs. rec_ok loc" using Cons.prems(3) by simp
  have bs: "enc_recs (r # rs) @ rest = bs" by (simp add: bs_def r)
  show ?case
  proof (cases "loc_Len loc = 0")
    case True
    obtain l i1 where d: "Index_Delete bt (loc_Key loc) i = Ret (l, i1)" "wf_index bt i1"
      "locs_at bt i1 = (locs_at bt i)(loc_Key loc := tl (locs_at bt i (loc_Key loc)))"
      using Index_Delete_ok [OF Cons.prems(2)] by metis
    obtain i' where "Load_loop bt (enc_recs rs @ rest) i1 = Load_loop bt rest i'" "wf_index bt i'"
      "locs_at bt i' = fold apply_rec (map fst rs) (locs_at bt i1)"
      using Cons.IH [OF _ d(2) ok] by blast
    moreover have "apply_rec loc (locs_at bt i) = locs_at bt i1" using d(3) True by (simp add: apply_rec_def)
    ultimately show ?thesis using d(1) rd True r unfolding bs
      by (intro Cons.prems(1) [of i', unfolded bs]) (simp_all add: Load_loop.simps [of _ bs])
  next
    case False
    obtain i' where "Load_loop bt (enc_recs rs @ rest) (Index_Set bt loc i) = Load_loop bt rest i'" "wf_index bt i'"
      "locs_at bt i' = fold apply_rec (map fst rs) (locs_at bt (Index_Set bt loc i))"
      using Cons.IH [OF _ wf_index_Set [OF Cons.prems(2)] ok] by blast
    moreover have "apply_rec loc (locs_at bt i) = locs_at bt (Index_Set bt loc i)"
      using False by (simp add: apply_rec_def locs_at_Set)
    ultimately show ?thesis using rd False r
      by (intro Cons.prems(1) [of i', unfolded bs]) (simp_all add: Load_loop.simps [of _ bs])
  qed
qed simp

lemma Load_all:
  assumes "\<forall>(loc, t) \<in> set rs. rec_ok loc"
  obtains i' where "Load_loop bt (enc_recs rs) (Index_zero bt) = Ret (i', None)" "wf_index bt i'"
    "locs_at bt i' = fold apply_rec (map fst rs) (\<lambda>_. [])"
proof -
  have z: "locs_at bt (Index_zero bt) = (\<lambda>_. [])" by auto
  have "Load_loop bt [] i = Ret (i, None)" for i
    by (simp add: Load_loop.simps [of _ "[]"] Reader_Next_def)
  then show ?thesis
    using Load_recs [OF wf_index_zero assms, of "[]"] that unfolding z append_Nil2 by metis
qed

text \<open>A partial record at the end is reported, with what the complete ones built.\<close>

lemma Load_torn:
  assumes "\<forall>(loc, t) \<in> set rs. rec_ok loc" "torn \<noteq> []" "length torn < LocationSize"
  obtains i' where "Load_loop bt (enc_recs rs @ torn) (Index_zero bt) = Ret (i', Some ErrUnexpectedEOF)"
    "wf_index bt i'" "locs_at bt i' = fold apply_rec (map fst rs) (\<lambda>_. [])"
proof -
  have z: "locs_at bt (Index_zero bt) = (\<lambda>_. [])" by auto
  have "Load_loop bt torn i = Ret (i, Some ErrUnexpectedEOF)" for i
    using assms(2,3) by (simp add: Load_loop.simps [of _ torn] Reader_Next_def)
  then show ?thesis
    using Load_recs [OF wf_index_zero assms(1), of torn] that unfolding z by metis
qed

end

section \<open>Writing an index\<close>

text \<open>The records that \<^verbatim>\<open>WriteIndex\<close> writes: the trailer counts the records before it.\<close>

fun number_from :: "Off \<Rightarrow> Location list \<Rightarrow> (Location \<times> Trailer) list" where
  "number_from n [] = []"
| "number_from n (loc # locs) = (loc, n) # number_from (n + 1) locs"

lemma map_fst_number_from [simp]: "map fst (number_from n locs) = locs"
  by (induction n locs rule: number_from.induct) simp_all

lemma number_from_last: "locs \<noteq> [] \<Longrightarrow> last (number_from n locs) = (last locs, n + of_nat (length locs - 1))"
  by (induction n locs rule: number_from.induct) (auto simp: Suc_diff_Suc neq_Nil_conv split: if_splits)

lemma number_from_rec_ok: "\<forall>loc \<in> set locs. rec_ok loc \<Longrightarrow> \<forall>(loc, t) \<in> set (number_from n locs). rec_ok loc"
  by (induction n locs rule: number_from.induct) auto

lemma WriteIndex_loop_wrote:
  assumes "w_faults w = []" "file_at w (wr_path wr) = Some old" "ii_ok ii" "ii_curr ii \<noteq> []"
  shows "\<exists>w'. WriteIndex_loop wr ii n w = (None, w') \<and>
           wrote w (wr_path wr) (old @ enc_recs (number_from n (tl (ii_pending ii)))) w'"
  using assms
proof (induction "ii_pending ii" arbitrary: ii old n w)
  case Nil
  then show ?case by (simp add: ii_pending_def)
next
  case (Cons l ls)
  obtain ii' where nx: "IndexIter_Next ii = (tl (ii_pending ii) \<noteq> [], ii')" "ii_ok ii'"
    "tl (ii_pending ii) \<noteq> [] \<Longrightarrow> ii_curr ii' \<noteq> [] \<and> ii_pending ii' = tl (ii_pending ii)"
    using IndexIter_Next_step [OF Cons.prems(3,4)] by metis
  have ls: "tl (ii_pending ii) = ls" using Cons.hyps(2) by (metis list.sel(3))
  show ?case
  proof (cases "ls = []")
    case True
    then show ?thesis using nx(1) ls Cons.prems
      by (simp add: WriteIndex_loop.simps [of wr ii] wrote_refl)
  next
    case False
    then have ii': "ii_curr ii' \<noteq> []" "ls = ii_pending ii'" using nx(3) ls by simp_all
    define rec where "rec = enc_loc (hd ls) n"
    obtain w1 where w1: "Append (wr_path wr) rec w = (None, w1)" "wrote w (wr_path wr) (old @ rec) w1"
      using Append_wrote [OF Cons.prems(1,2)] by blast
    have "Writer_Push wr (IndexIter_Value ii') n w = (None, w1)"
      using w1(1) IndexIter_Value_hd [OF ii'(1)] by (simp add: Writer_Push_def rec_def ii'(2))
    then have "WriteIndex_loop wr ii n w = WriteIndex_loop wr ii' (n + 1) w1"
      using nx(1) ls False by (simp add: WriteIndex_loop.simps [of wr ii])
    moreover obtain w2 where "WriteIndex_loop wr ii' (n + 1) w1 = (None, w2)"
      "wrote w1 (wr_path wr) ((old @ rec) @ enc_recs (number_from (n + 1) (tl ls))) w2"
      using Cons.hyps(1) [OF ii'(2) wrote_faults [OF w1(2)] _ nx(2) ii'(1), of "old @ rec" "n + 1"]
        wrote_file_at [OF w1(2)] ii'(2) by auto
    moreover have "rec @ enc_recs (number_from (n + 1) (tl ls)) = enc_recs (number_from n ls)"
      using False by (cases ls) (simp_all add: rec_def)
    ultimately show ?thesis using w1(2) ls by (auto intro: wrote_trans)
  qed
qed

context index_btree
begin

lemma ii_ok_Iter: "wf_index bt i \<Longrightarrow> ii_ok (Index_Iter bt i)"
  by (auto simp: ii_ok_def Index_Iter_def wf_index_def)

lemma ii_pending_Iter: "ii_pending (Index_Iter bt i) = all_locs bt i" "ii_curr (Index_Iter bt i) = []"
  by (simp_all add: ii_pending_def Index_Iter_def all_locs_def)


lemma WriteIndex_wrote:
  assumes "w_faults w = []" "file_at w p = Some old \<or> old = [] \<and> node_at w p = None \<and> node_at w (butlast p) = Some Dir"
    "wf_index bt i"
  obtains w' where "WriteIndex bt i p w = (None, w')"
    "wrote w p (old @ enc_recs (number_from 0 (all_locs bt i))) w'"
proof -
  define wr where "wr = \<lparr>wr_path = p, wr_sync = True\<rparr>"
  define ii where "ii = Index_Iter bt i"
  obtain w1 where w1: "OpenCreate p w = (None, w1)" "wrote w p old w1"
    using OpenCreate_wrote [OF assms(1,2)] by blast
  have f1: "file_at w1 (wr_path wr) = Some old" using wrote_file_at [OF w1(2)] by (simp add: wr_def)
  have W: "WriteIndex bt i p w = WriteIndex_loop wr ii 0 w1"
    using w1(1) by (simp add: WriteIndex_def NewWriter_def wr_def ii_def)
  obtain ii' where nx: "IndexIter_Next ii = (all_locs bt i \<noteq> [], ii')" "ii_ok ii'"
    "all_locs bt i \<noteq> [] \<Longrightarrow> ii_curr ii' \<noteq> [] \<and> ii_pending ii' = all_locs bt i"
    using IndexIter_Next_first [OF ii_ok_Iter [OF assms(3)] ii_pending_Iter(2)]
    unfolding ii_pending_Iter(1) ii_def by metis
  show ?thesis
  proof (cases "all_locs bt i")
    case Nil
    then show ?thesis using that [of w1] W nx(1) w1(2) by (simp add: WriteIndex_loop.simps [of wr ii])
  next
    case (Cons l ls)
    then have ii': "ii_curr ii' \<noteq> []" "ii_pending ii' = l # ls" using nx(3) by simp_all
    obtain w2 where w2: "Append (wr_path wr) (enc_loc l 0) w1 = (None, w2)" "wrote w1 p (old @ enc_loc l 0) w2"
      using Append_wrote [OF wrote_faults [OF w1(2)] f1, of "enc_loc l 0"] by (auto simp: wr_def)
    have "Writer_Push wr (IndexIter_Value ii') 0 w1 = (None, w2)"
      using w2(1) IndexIter_Value_hd [OF ii'(1)] ii'(2) by (simp add: Writer_Push_def)
    then have L: "WriteIndex_loop wr ii 0 w1 = WriteIndex_loop wr ii' 1 w2"
      using nx(1) Cons by (simp add: WriteIndex_loop.simps [of wr ii])
    have f2: "file_at w2 (wr_path wr) = Some (old @ enc_loc l 0)"
      using wrote_file_at [OF w2(2)] by (simp add: wr_def)
    obtain w3 where w3: "WriteIndex_loop wr ii' 1 w2 = (None, w3)"
      "wrote w2 p ((old @ enc_loc l 0) @ enc_recs (number_from 1 ls)) w3"
      using WriteIndex_loop_wrote [OF wrote_faults [OF w2(2)] f2 nx(2) ii'(1), of 1] ii'(2)
      by (auto simp: wr_def)
    then show ?thesis using W L w1(2) w2(2) Cons by (intro that [of w3]) (auto intro: wrote_trans)
  qed
qed

text \<open>Replaying set records of an index in iteration order gives its queues.\<close>

lemma fold_apply_sets:
  "\<forall>loc \<in> set locs. loc_Len loc \<noteq> 0 \<Longrightarrow> fold apply_rec locs q k = q k @ filter (\<lambda>loc. loc_Key loc = k) locs"
  by (induction locs arbitrary: q) (auto simp: apply_rec_def)

lemma filter_all_locs:
  assumes "wf_index bt i"
  shows "filter (\<lambda>loc. loc_Key loc = k) (all_locs bt i) = locs_at bt i k"
proof -
  have "filter (\<lambda>loc. loc_Key loc = k) (concat (map snd es)) = queue_of es k"
    if "sorted_keys es" "\<forall>(k, ls) \<in> set es. \<forall>loc \<in> set ls. loc_Key loc = k" for es :: "(Key \<times> Location list) list"
    using that
  proof (induction es)
    case (Cons e es)
    obtain a ls where e: "e = (a, ls)" by (cases e)
    have IH: "filter (\<lambda>loc. loc_Key loc = k) (concat (map snd es)) = queue_of es k"
      using Cons by simp
    show ?case
    proof (cases "a = k")
      case True
      then have "map_of es k = None" "filter (\<lambda>loc. loc_Key loc = k) ls = ls"
        using map_of_None_sorted [of a ls es k] Cons.prems e by auto
      then show ?thesis using IH e True by simp
    next
      case False
      then have "filter (\<lambda>loc. loc_Key loc = k) ls = []" using Cons.prems e by (auto simp: filter_empty_conv)
      then show ?thesis using IH e False by simp
    qed
  qed simp
  then show ?thesis using assms iter_sorted
    by (fastforce simp: all_locs_def wf_index_def locs_at_queue)
qed

lemma fold_all_locs:
  assumes "wf_index bt i" "\<forall>loc \<in> set (all_locs bt i). loc_Len loc \<noteq> 0"
  shows "fold apply_rec (all_locs bt i) (\<lambda>_. []) = locs_at bt i"
  using fold_apply_sets [OF assms(2), of "\<lambda>_. []"] filter_all_locs [OF assms(1)] by auto

lemma wf_len_eqI:
  "wf_index bt i \<Longrightarrow> wf_index bt i' \<Longrightarrow> all_locs bt i = all_locs bt i' \<Longrightarrow> idx_len i = idx_len i'"
  by (simp add: wf_index_def)

end

interpretation alist_index: index_btree alist_btree
  by unfold_locales

section \<open>Properties\<close>

lemma ucast_of_nat_32: "ucast (of_nat n :: 64 word) = (of_nat n :: 32 word)"
  by (rule bit_word_eqI) (auto simp: bit_simps)

lemma ReadTrailer_last:
  assumes "w_faults w = []" "file_at w p = Some (enc_recs (rs @ [(loc, t)]))"
  shows "ReadTrailer p w = (Inr (ucast (ucast t :: 32 word)), w)"
proof -
  define bs where "bs = enc_recs (rs @ [(loc, t)])"
  define pre where "pre = enc_recs rs @ PutUint64 (keyw (loc_Key loc)) @ PutUint64 (loc_Off loc) @ PutUint32 (ucast (loc_Len loc))"
  have bs: "bs = pre @ PutUint32 (ucast t)" by (simp add: bs_def pre_def enc_loc_def)
  have "24 \<le> length bs" by (simp add: bs_def)
  moreover have "drop (length bs - 4) bs = PutUint32 (ucast t) @ []" by (simp add: bs)
  moreover have "node_at w p = Some (File bs)" using assms(2) by (simp add: node_at_file bs_def)
  ultimately show ?thesis
    using assms(1) by (simp add: ReadTrailer_def OpenRead_def LocationSize_def Uint32_PutUint32 [of _ "[]", simplified])
qed

text \<open>
  C26 (refinement): the index implements a map from keys to queues of locations. \<^verbatim>\<open>Set\<close> appends to the
  queue of its key; \<^verbatim>\<open>Delete\<close> returns the oldest location of the key (the zero location if there is
  none), takes exactly that one away and does not panic; both keep the cached length equal to the
  sum of the lengths of the locations. The hypothesis is that the ordered map meets its laws.
\<close>

theorem Index_Set_Delete_queue:
  assumes "index_btree bt" "wf_index bt i"
  shows "locs_at bt (Index_Set bt loc i) = (locs_at bt i)(loc_Key loc := locs_at bt i (loc_Key loc) @ [loc]) \<and>
    wf_index bt (Index_Set bt loc i) \<and>
    (\<exists>i'. Index_Delete bt k i = Ret (if locs_at bt i k = [] then zero_loc else hd (locs_at bt i k), i') \<and>
       wf_index bt i' \<and> locs_at bt i' = (locs_at bt i)(k := tl (locs_at bt i k)) \<and>
       mset (all_locs bt i) = mset (take 1 (locs_at bt i k)) + mset (all_locs bt i'))"
proof -
  obtain i' where "Index_Delete bt k i = Ret (if locs_at bt i k = [] then zero_loc else hd (locs_at bt i k), i')"
    "wf_index bt i'" "locs_at bt i' = (locs_at bt i)(k := tl (locs_at bt i k))"
    "mset (all_locs bt i) = mset (take 1 (locs_at bt i k)) + mset (all_locs bt i')"
    using index_btree.Index_Delete_ok [OF assms] by metis
  then show ?thesis
    using index_btree.locs_at_Set [OF assms(1)] index_btree.wf_index_Set [OF assms] by blast
qed

definition demo_loc :: "64 word \<Rightarrow> Off \<Rightarrow> Location" where
  "demo_loc k off = \<lparr>loc_Key = Key k, loc_Off = off, loc_Len = 2\<rparr>"

definition demo_index :: "(Key \<times> Location list) list Index" where
  "demo_index = Index_Set alist_btree (demo_loc 7 48) (Index_Set alist_btree (demo_loc 7 0) (Index_zero alist_btree))"

lemma demo_index_wf: "wf_index alist_btree demo_index"
  by (simp add: demo_index_def alist_index.wf_index_Set)

lemma demo_index_at: "locs_at alist_btree demo_index (Key 7) = [demo_loc 7 0, demo_loc 7 48]"
  by (simp add: demo_index_def alist_index.locs_at_Set demo_loc_def)

theorem Index_Set_Delete_queue_witness:
  "\<exists>i'. Index_Delete alist_btree (Key 7) demo_index = Ret (demo_loc 7 0, i') \<and>
     locs_at alist_btree i' (Key 7) = [demo_loc 7 48]"
  using Index_Set_Delete_queue [OF alist_index.index_btree_axioms demo_index_wf, of "demo_loc 7 0" "Key 7"]
  by (auto simp: demo_index_at)

text \<open>
  C13 (functional): loading an index log repeats the operations its records stand for: starting from
  the empty index, a record with a length appends the location to the queue of its key, a record
  without one takes the oldest location of the key away. If the log ends in a partial record (a torn
  write), the load reports it and still returns what the complete records give. \<^verbatim>\<open>rec_ok\<close> says that
  the lengths fit the 32-bit field of a record.
\<close>

theorem Index_Load_replays:
  assumes "index_btree bt" "\<forall>(loc, t) \<in> set rs. rec_ok loc" "length torn < LocationSize"
    "w_faults w = []" "file_at w p = Some (enc_recs rs @ torn)"
  shows "\<exists>i. Index_Load bt p w = (Ret (if torn = [] then None else Some ErrUnexpectedEOF, i), w) \<and>
    wf_index bt i \<and> locs_at bt i = fold apply_rec (map fst rs) (\<lambda>_. [])"
proof -
  note op = OpenCreate_exists [OF assms(4,5)]
  obtain i where "Load_loop bt (enc_recs rs @ torn) (Index_zero bt) =
      Ret (i, if torn = [] then None else Some ErrUnexpectedEOF)" "wf_index bt i"
    "locs_at bt i = fold apply_rec (map fst rs) (\<lambda>_. [])"
  proof (cases "torn = []")
    case True
    obtain i where "Load_loop bt (enc_recs rs) (Index_zero bt) = Ret (i, None)" "wf_index bt i"
      "locs_at bt i = fold apply_rec (map fst rs) (\<lambda>_. [])"
      by (rule index_btree.Load_all [OF assms(1,2)])
    then show ?thesis using that [of i] True by simp
  next
    case False
    obtain i where "Load_loop bt (enc_recs rs @ torn) (Index_zero bt) = Ret (i, Some ErrUnexpectedEOF)" "wf_index bt i"
      "locs_at bt i = fold apply_rec (map fst rs) (\<lambda>_. [])"
      by (rule index_btree.Load_torn [OF assms(1,2) False assms(3)])
    then show ?thesis using that [of i] False by simp
  qed
  then show ?thesis using op by (auto simp: Index_Load_def)
qed

definition demo_recs :: "(Location \<times> Trailer) list" where
  "demo_recs = [(demo_loc 7 0, 2), (demo_loc 7 48, 4), (\<lparr>loc_Key = Key 7, loc_Off = 0, loc_Len = 0\<rparr>, 2)]"

theorem Index_Load_replays_witness:
  "\<exists>i. Index_Load alist_btree [''idx.log''] (one_file [''idx.log''] (enc_recs demo_recs @ [0, 1])) =
       (Ret (Some ErrUnexpectedEOF, i), one_file [''idx.log''] (enc_recs demo_recs @ [0, 1])) \<and>
     locs_at alist_btree i (Key 7) = [demo_loc 7 48]"
proof -
  have "\<forall>(loc, t) \<in> set demo_recs. rec_ok loc" by (simp add: demo_recs_def demo_loc_def rec_ok_def)
  moreover have "fold apply_rec (map fst demo_recs) (\<lambda>_. []) (Key 7) = [demo_loc 7 48]"
    by (simp add: demo_recs_def demo_loc_def apply_rec_def)
  ultimately show ?thesis
    using Index_Load_replays [OF alist_index.index_btree_axioms,
      of demo_recs "[0, 1]" "one_file [''idx.log''] (enc_recs demo_recs @ [0, 1])" "[''idx.log'']"]
    by (auto simp: LocationSize_def)
qed

text \<open>
  C25 (roundtrip): writing an index to a new file and loading the file gives an index with the same
  locations in the same order and the same length; the trailer that \<^verbatim>\<open>ReadTrailer\<close> finds in the
  file is the number of its records less one, not the number of items in the index.
\<close>

theorem WriteIndex_Load:
  assumes "index_btree bt" "wf_index bt i" "\<forall>loc \<in> set (all_locs bt i). rec_ok loc \<and> loc_Len loc \<noteq> 0"
    "w_faults w = []" "node_at w p = None" "node_at w (butlast p) = Some Dir"
  shows "\<exists>w' i'. WriteIndex bt i p w = (None, w') \<and> Index_Load bt p w' = (Ret (None, i'), w') \<and>
    all_locs bt i' = all_locs bt i \<and> Index_Len i' = Index_Len i \<and>
    (all_locs bt i \<noteq> [] \<longrightarrow>
       ReadTrailer p w' = (Inr (ucast (of_nat (length (all_locs bt i) - 1) :: 32 word)), w'))"
proof -
  define rs where "rs = number_from 0 (all_locs bt i)"
  obtain w' where w': "WriteIndex bt i p w = (None, w')" "wrote w p (enc_recs rs) w'"
    using index_btree.WriteIndex_wrote [OF assms(1,4) _ assms(2), of p "[]"] assms(5,6) by (auto simp: rs_def)
  have ok: "\<forall>(loc, t) \<in> set rs. rec_ok loc" unfolding rs_def using assms(3) by (intro number_from_rec_ok) simp
  have f: "file_at w' p = Some (enc_recs rs)" using wrote_file_at [OF w'(2)] by simp
  note op = OpenCreate_exists [OF wrote_faults [OF w'(2)] f]
  obtain i' where i': "Load_loop bt (enc_recs rs) (Index_zero bt) = Ret (i', None)" "wf_index bt i'"
    "locs_at bt i' = fold apply_rec (map fst rs) (\<lambda>_. [])"
    using index_btree.Load_all [OF assms(1) ok] by blast
  have "locs_at bt i' = locs_at bt i"
    using i'(3) index_btree.fold_all_locs [OF assms(1,2)] assms(3) by (simp add: rs_def)
  then have same: "all_locs bt i' = all_locs bt i"
    using index_btree.all_locs_eqI [OF assms(1) i'(2) assms(2)] by simp
  then have len: "Index_Len i' = Index_Len i"
    using index_btree.wf_len_eqI [OF assms(1) i'(2) assms(2)] by (simp add: Index_Len_def)
  have tr: "ReadTrailer p w' = (Inr (ucast (of_nat (length (all_locs bt i) - 1) :: 32 word)), w')"
    if ne: "all_locs bt i \<noteq> []"
  proof -
    define locs where "locs = all_locs bt i"
    have "rs \<noteq> []" using ne by (cases "all_locs bt i") (simp_all add: rs_def)
    then have "rs = butlast rs @ [(last locs, of_nat (length locs - 1))]"
      using number_from_last [OF ne, of 0] by (metis append_butlast_last_id add_0 rs_def locs_def)
    then have "file_at w' p = Some (enc_recs (butlast rs @ [(last locs, of_nat (length locs - 1))]))"
      using f by simp
    then show ?thesis
      using ReadTrailer_last [OF wrote_faults [OF w'(2)], of p "butlast rs"] by (simp add: ucast_of_nat_32 locs_def)
  qed
  show ?thesis using w'(1) op i'(1) same len tr by (intro exI [of _ w'] exI [of _ i']) (simp add: Index_Load_def)
qed

theorem WriteIndex_Load_witness:
  "\<exists>w' i'. WriteIndex alist_btree demo_index [''b.idx.log''] (one_file [''idx.log''] []) = (None, w') \<and>
     Index_Load alist_btree [''b.idx.log''] w' = (Ret (None, i'), w') \<and>
     all_locs alist_btree i' = all_locs alist_btree demo_index \<and>
     ReadTrailer [''b.idx.log''] w' = (Inr 1, w')"
proof -
  have "all_locs alist_btree demo_index = [demo_loc 7 0, demo_loc 7 48]"
    by (simp add: all_locs_def demo_index_def Index_Set_def Index_zero_def Let_def demo_loc_def alist_btree_def)
  then show ?thesis
    using WriteIndex_Load [OF alist_index.index_btree_axioms demo_index_wf, of "one_file [''idx.log''] []" "[''b.idx.log'']"]
    by (auto simp: rec_ok_def demo_loc_def)
qed

end
