(* ===== verification/Bucket_Peek.thy ===== *)
theory Bucket_Peek
  imports Bucket Index_Correct
begin

text \<open>
  Reading from a bucket: \<open>batch_of\<close> is the content of a location, the loop of \<^verbatim>\<open>peek\<close> merges the
  batches of an index through the heap, \<^verbatim>\<open>popSync\<close> writes back what is left. The invariant of the
  merge is \<open>peek_inv\<close>; the relation \<open>logged\<close> says that an index in memory and its log on disk have
  made the same steps.
\<close>

section \<open>Batches\<close>

definition batch_of :: "Log \<Rightarrow> Location \<Rightarrow> Items" where
  "batch_of l loc =
     (case drain (Suc (unat (loc_Len loc))) l (Log_At loc True) of Ret (its, _) \<Rightarrow> its | Panic \<Rightarrow> [])"

definition keys_of :: "Items \<Rightarrow> Key list" where
  "keys_of its = map item_Key its"

text \<open>The location of a batch that was pushed, or of what is left of one.\<close>

definition good_loc :: "Log \<Rightarrow> Location \<Rightarrow> bool" where
  "good_loc l loc \<longleftrightarrow>
     (\<exists>its. its \<noteq> [] \<and> stored l (loc_Off loc) its \<and> loc_Len loc = of_nat (length its) \<and>
        length its < 2 ^ 32 \<and> sorted (keys_of its) \<and> loc_Key loc = item_Key (hd its))"

lemma batch_of_stored:
  assumes "stored l (loc_Off loc) its" "loc_Len loc = of_nat (length its)"
  shows "batch_of l loc = its"
proof -
  have "length its < 2 ^ 64" using stored_length [OF assms(1)] by simp
  then have "unat (loc_Len loc) = length its" using assms(2) by (simp add: unat_of_nat64)
  then show ?thesis using drain_At [OF assms, of "Suc (length its)" True] by (auto simp: batch_of_def)
qed

lemma good_locD:
  assumes "good_loc l loc"
  shows "batch_of l loc \<noteq> []" "stored l (loc_Off loc) (batch_of l loc)"
    "loc_Len loc = of_nat (length (batch_of l loc))" "length (batch_of l loc) < 2 ^ 32"
    "sorted (keys_of (batch_of l loc))" "loc_Key loc = item_Key (hd (batch_of l loc))"
  using assms batch_of_stored unfolding good_loc_def by metis+

lemma good_loc_len:
  assumes "good_loc l loc"
  shows "unat (loc_Len loc) = length (batch_of l loc)" "rec_ok loc" "loc_Len loc \<noteq> 0"
proof -
  have lt: "length (batch_of l loc) < 2 ^ 32" using good_locD [OF assms] by blast
  then have "length (batch_of l loc) < 2 ^ 64" by simp
  then show u: "unat (loc_Len loc) = length (batch_of l loc)"
    using good_locD(3) [OF assms] unat_of_nat64 by simp
  show "rec_ok loc" using u lt by (simp add: rec_ok_def)
  show "loc_Len loc \<noteq> 0" using u good_locD(1) [OF assms] by auto
qed

text \<open>The items an iterator has still to yield, the current one included.\<close>

definition iter_items :: "Log \<Rightarrow> Iter \<Rightarrow> Items" where
  "iter_items l li = (if it_exhausted li then [] else batch_of l (CurrentLocation li))"

definition iter_ok :: "Log \<Rightarrow> Iter \<Rightarrow> bool" where
  "iter_ok l li \<longleftrightarrow> iter_rep l li (iter_items l li) \<and> (\<not> it_exhausted li \<longrightarrow> good_loc l (CurrentLocation li))"

lemma iter_okI:
  assumes "iter_rep l li its" "length its < 2 ^ 32" "sorted (keys_of its)"
  shows "iter_ok l li" "iter_items l li = its"
proof -
  have g: "good_loc l (CurrentLocation li)" if "\<not> it_exhausted li"
    using assms that by (auto simp: iter_rep_def good_loc_def CurrentLocation_def intro!: exI [of _ its])
  have "batch_of l (CurrentLocation li) = its" if "\<not> it_exhausted li"
    using assms(1) that by (intro batch_of_stored) (auto simp: iter_rep_def CurrentLocation_def)
  then show i: "iter_items l li = its" using assms(1) by (auto simp: iter_items_def iter_rep_def)
  show "iter_ok l li" using g i assms(1) by (simp add: iter_ok_def)
qed

lemma iter_ok_items:
  assumes "iter_ok l li"
  shows "it_err li = None" "iter_items l li = [] \<longleftrightarrow> it_exhausted li" "sorted (keys_of (iter_items l li))"
    "\<not> it_exhausted li \<Longrightarrow> it_item li = hd (iter_items l li)" "length (iter_items l li) < 2 ^ 32"
  using assms good_locD [of l "CurrentLocation li"]
  by (auto simp: iter_ok_def iter_rep_def iter_items_def keys_of_def split: if_splits)

lemma Log_At_ok:
  assumes "good_loc l loc"
  obtains li where "Iter_Next l (Log_At loc c) = Ret (True, li)" "iter_ok l li" "\<not> it_exhausted li"
    "iter_items l li = batch_of l loc" "it_firstKey li = loc_Key loc" "it_item li = hd (batch_of l loc)"
proof -
  note g = good_locD [OF assms]
  obtain li where li: "Iter_Next l (Log_At loc c) = Ret (batch_of l loc \<noteq> [], li)" "iter_rep l li (batch_of l loc)"
    "it_firstKey li = loc_Key loc"
    using Log_At_Next [OF g(2,3)] by blast
  note k = iter_okI [OF li(2) g(4,5)]
  show ?thesis using that [of li] li k iter_ok_items [OF k(1)] g(1) by simp
qed

lemma iter_ok_Next:
  assumes "iter_ok l li" "\<not> it_exhausted li"
  obtains li' where "Iter_Next l li = Ret (tl (iter_items l li) \<noteq> [], li')" "iter_ok l li'"
    "iter_items l li' = tl (iter_items l li)" "it_firstKey li' = it_firstKey li"
proof -
  note k = iter_ok_items [OF assms(1)]
  obtain x xs where x: "iter_items l li = x # xs" using k(2) assms(2) by (cases "iter_items l li") auto
  obtain li' where li': "Iter_Next l li = Ret (xs \<noteq> [], li')" "iter_rep l li' xs" "it_firstKey li' = it_firstKey li"
    using iter_rep_Next [of l li x xs] assms(1) x unfolding iter_ok_def by metis
  have "length xs < 2 ^ 32" "sorted (keys_of xs)" using k(3,5) x by (simp_all add: keys_of_def)
  note k' = iter_okI [OF li'(2) this]
  show ?thesis using that [of li'] li' k' x by simp
qed

section \<open>Peek\<close>

text \<open>What the open iterators and the batches not yet opened still hold.\<close>

definition pend :: "Log \<Rightarrow> Iters \<Rightarrow> Location list \<Rightarrow> Item multiset" where
  "pend l iters R =
     (\<Sum>it\<in>#mset iters. mset (iter_items l it)) + (\<Sum>loc\<in>#mset R. mset (batch_of l loc))"

text \<open>
  The invariant of the loop of \<^verbatim>\<open>peek\<close>: the iterators are a heap, the batches not yet opened come in
  the order of their first keys, and the first iterator is not behind the first of those batches.
\<close>

definition peek_inv :: "Log \<Rightarrow> Iters \<Rightarrow> IndexIter \<Rightarrow> bool \<Rightarrow> Location list \<Rightarrow> bool" where
  "peek_inv l iters ii ex R \<longleftrightarrow>
     iters \<noteq> [] \<and> iters.heap iters \<and> (\<forall>it\<in>set iters. iter_ok l it) \<and>
     (\<forall>loc\<in>set R. good_loc l loc) \<and> sorted (map loc_Key R) \<and> ii_ok ii \<and> (ex \<longleftrightarrow> R = []) \<and>
     (R \<noteq> [] \<longrightarrow> ii_curr ii \<noteq> [] \<and> ii_pending ii = R \<and>
        \<not> it_exhausted (iters ! 0) \<and> item_Key (it_item (iters ! 0)) \<le> loc_Key (hd R))"

lemma keys_ge_hd: "sorted (keys_of its) \<Longrightarrow> x \<in> set its \<Longrightarrow> item_Key (hd its) \<le> item_Key x"
  by (cases its) (auto simp: keys_of_def)

lemma peek_inv_min:
  assumes "peek_inv l iters ii ex R" "\<not> it_exhausted (iters ! 0)" "x \<in># pend l iters R"
  shows "item_Key (it_item (iters ! 0)) \<le> item_Key x"
proof -
  have h: "iters.heap iters" "\<forall>it\<in>set iters. iter_ok l it" using assms(1) by (simp_all add: peek_inv_def)
  from assms(3) consider it where "it \<in> set iters" "x \<in> set (iter_items l it)"
    | loc where "loc \<in> set R" "x \<in> set (batch_of l loc)"
    by (auto simp: pend_def)
  then show ?thesis
  proof cases
    case (1 it)
    then have ok: "iter_ok l it" using h(2) by blast
    have "\<not> it_exhausted it" using iter_ok_items(2) [OF ok] 1(2) by auto
    then have "item_Key (it_item (iters ! 0)) \<le> item_Key (it_item it)" using heap_top_le [OF h(1) 1(1)] by blast
    also have "\<dots> \<le> item_Key x"
      using iter_ok_items(3,4) [OF ok] keys_ge_hd [OF _ 1(2)] \<open>\<not> it_exhausted it\<close> by simp
    finally show ?thesis .
  next
    case (2 loc)
    then have g: "good_loc l loc" and R: "R \<noteq> []" "sorted (map loc_Key R)"
      using assms(1) by (auto simp: peek_inv_def)
    have "item_Key (it_item (iters ! 0)) \<le> loc_Key (hd R)" using assms(1) R by (simp add: peek_inv_def)
    also have "\<dots> \<le> loc_Key loc" using R 2(1) by (cases R) auto
    also have "\<dots> \<le> item_Key x" using good_locD(5,6) [OF g] keys_ge_hd [OF _ 2(2)] by simp
    finally show ?thesis .
  qed
qed

lemma peek_inv_done:
  assumes "peek_inv l iters ii ex R" "it_exhausted (iters ! 0)"
  shows "R = []" "pend l iters R = {#}"
proof -
  show R: "R = []" using assms by (auto simp: peek_inv_def)
  have "iter_items l it = []" if "it \<in> set iters" for it
  proof -
    have "it_exhausted it" using heap_top_exhausted [OF _ assms(2) that] assms(1) by (simp add: peek_inv_def)
    then show ?thesis by (simp add: iter_items_def)
  qed
  then have "(\<Sum>it\<in>#mset iters. mset (iter_items l it)) = (\<Sum>it\<in>#mset iters. {#})"
    by (intro arg_cong [of _ _ sum_mset] image_mset_cong) simp
  then show "pend l iters R = {#}" using R by (simp add: pend_def)
qed

lemma addIter_ok:
  assumes "ii_ok ii" "ii_curr ii \<noteq> []" "ii_pending ii = loc # R" "good_loc (b_log b) loc"
  obtains it ii' where "addIter b iters ii = Ret (R = [], None, Iters_Push it iters, ii')"
    "iter_ok (b_log b) it" "\<not> it_exhausted it" "iter_items (b_log b) it = batch_of (b_log b) loc"
    "it_firstKey it = loc_Key loc" "item_Key (it_item it) = loc_Key loc"
    "ii_ok ii'" "R \<noteq> [] \<longrightarrow> ii_curr ii' \<noteq> [] \<and> ii_pending ii' = R"
proof -
  have v: "IndexIter_Value ii = loc" using IndexIter_Value_hd [OF assms(2)] assms(3) by simp
  obtain it where it: "Iter_Next (b_log b) (bucket_logAt b loc) = Ret (True, it)" "iter_ok (b_log b) it"
    "\<not> it_exhausted it" "iter_items (b_log b) it = batch_of (b_log b) loc" "it_firstKey it = loc_Key loc"
    "it_item it = hd (batch_of (b_log b) loc)"
    using Log_At_ok [OF assms(4)] unfolding bucket_logAt_def by metis
  obtain ii' where ii': "IndexIter_Next ii = (R \<noteq> [], ii')" "ii_ok ii'"
    "R \<noteq> [] \<longrightarrow> ii_curr ii' \<noteq> [] \<and> ii_pending ii' = R"
    using IndexIter_Next_step [OF assms(1,2)] assms(3) by (metis list.sel(3))
  show ?thesis using it ii' v good_locD(6) [OF assms(4)]
    by (intro that [of it ii']) (simp_all add: addIter_def)
qed

text \<open>Advancing the first iterator takes its item away and keeps the heap.\<close>

lemma advance_top:
  assumes "iters = cur # rest" "iters.heap iters" "\<forall>it\<in>set iters. iter_ok l it" "\<not> it_exhausted cur"
  obtains ok cur' where "Iter_Next l cur = Ret (ok, cur')" "it_err cur' = None" "iter_ok l cur'"
    "it_firstKey cur' = it_firstKey cur"
    "iters.heap (Iters_Fix 0 (iters[0 := cur']))" "mset (Iters_Fix 0 (iters[0 := cur'])) = add_mset cur' (mset rest)"
    "pend l iters R = add_mset (it_item cur) (pend l (Iters_Fix 0 (iters[0 := cur'])) R)"
proof -
  have ok: "iter_ok l cur" using assms by simp
  obtain cur' where c: "Iter_Next l cur = Ret (tl (iter_items l cur) \<noteq> [], cur')" "iter_ok l cur'"
    "iter_items l cur' = tl (iter_items l cur)" "it_firstKey cur' = it_firstKey cur"
    using iter_ok_Next [OF ok assms(4)] by metis
  have m: "mset (Iters_Fix 0 (iters[0 := cur'])) = add_mset cur' (mset rest)" by (simp add: assms(1))
  have "iter_items l cur = it_item cur # iter_items l cur'"
    using iter_ok_items(2,4) [OF ok] assms(4) c(3) by (cases "iter_items l cur") auto
  then have "pend l iters R = add_mset (it_item cur) (pend l (Iters_Fix 0 (iters[0 := cur'])) R)"
    unfolding pend_def m by (simp add: assms(1))
  then show ?thesis
    using that c m Iters_Fix0_heap [OF assms(2)] iter_ok_items(1) [OF c(2)] assms(1) by blast
qed

lemma go_bind_assoc: "go_bind (go_bind x f) g = go_bind x (\<lambda>a. go_bind (f a) g)"
  by (cases x) simp_all

text \<open>One round of the loop keeps the invariant; a batch is opened only if it was the next one.\<close>

definition peek_round :: "'m bucket \<Rightarrow> Iters \<Rightarrow> IndexIter \<Rightarrow> bool \<Rightarrow> (err option \<times> Iters \<times> IndexIter \<times> bool) go" where
  "peek_round b iters ii ex =
     go_bind (Iter_Next (b_log b) (iters ! 0)) (\<lambda>(_, cur).
       case it_err cur of
         Some e \<Rightarrow> Ret (Some e, iters, ii, ex)
       | None \<Rightarrow>
           let iters = Iters_Fix 0 (iters[0 := cur]) in
           if \<not> ex \<and> (it_exhausted cur \<or> loc_Key (IndexIter_Value ii) \<le> item_Key (it_item cur))
           then go_bind (addIter b iters ii) (\<lambda>(ex, e, iters, ii). Ret (e, iters, ii, ex))
           else Ret (None, iters, ii, ex))"

lemma peek_loop_round:
  assumes "iters \<noteq> []" "\<not> it_exhausted (iters ! 0)"
  shows "peek_loop b (Suc k) num dst iters ii ex =
    go_bind (peek_round b iters ii ex) (\<lambda>(e, iters', ii', ex').
      case e of
        Some e \<Rightarrow> Ret (None, dst @ [it_item (iters ! 0)], 0, Some e)
      | None \<Rightarrow> peek_loop b k (num + 1) (dst @ [it_item (iters ! 0)]) iters' ii' ex')"
proof -
  obtain cur rest where "iters = cur # rest" using assms(1) by (cases iters) auto
  then show ?thesis using assms(2)
    by (cases "Iter_Next (b_log b) cur") (auto simp: peek_round_def Let_def split_def go_bind_assoc split: option.splits cong: option.case_cong)
qed

lemma peek_round_ok:
  assumes inv: "peek_inv (b_log b) iters ii ex R" and top: "\<not> it_exhausted (iters ! 0)"
  obtains iters' ii' ex' opened R' where "peek_round b iters ii ex = Ret (None, iters', ii', ex')"
    "peek_inv (b_log b) iters' ii' ex' R'" "R = opened @ R'"
    "mset (map it_firstKey iters') = mset (map it_firstKey iters) + mset (map loc_Key opened)"
    "pend (b_log b) iters R = add_mset (it_item (iters ! 0)) (pend (b_log b) iters' R')"
proof -
  let ?l = "b_log b"
  obtain cur rest where it: "iters = cur # rest" using inv by (cases iters) (auto simp: peek_inv_def)
  have h: "iters.heap iters" "\<forall>it\<in>set iters. iter_ok ?l it" using inv by (simp_all add: peek_inv_def)
  obtain ok cur' where c: "Iter_Next ?l cur = Ret (ok, cur')" "it_err cur' = None" "iter_ok ?l cur'"
    "it_firstKey cur' = it_firstKey cur"
    "iters.heap (Iters_Fix 0 (iters[0 := cur']))" "mset (Iters_Fix 0 (iters[0 := cur'])) = add_mset cur' (mset rest)"
    "pend ?l iters R = add_mset (it_item cur) (pend ?l (Iters_Fix 0 (iters[0 := cur'])) R)"
    using advance_top [OF it h, of R] top it by auto
  define fixed where "fixed = Iters_Fix 0 (iters[0 := cur'])"
  note c = c [folded fixed_def]
  have ok: "\<forall>it\<in>set fixed. iter_ok ?l it" "fixed \<noteq> []" "cur' \<in> set fixed"
    using c(3,6) h(2) it by (metis add_mset_eq_singleton_iff insert_iff list.set_intros(2) set_mset_add_mset_insert set_mset_mset,
        auto dest: arg_cong [of _ _ set_mset])
  have fk: "mset (map it_firstKey fixed) = mset (map it_firstKey iters)"
    using c(4,6) it by simp
  show ?thesis
  proof (cases "\<not> ex \<and> (it_exhausted cur' \<or> loc_Key (IndexIter_Value ii) \<le> item_Key (it_item cur'))")
    case True
    then obtain loc R' where R: "R = loc # R'" using inv by (cases R) (auto simp: peek_inv_def)
    have g: "ii_ok ii" "ii_curr ii \<noteq> []" "ii_pending ii = loc # R'" "good_loc ?l loc" "sorted (map loc_Key R)"
      using inv R by (simp_all add: peek_inv_def)
    obtain it ii' where a: "addIter b fixed ii = Ret (R' = [], None, Iters_Push it fixed, ii')"
      "iter_ok ?l it" "\<not> it_exhausted it" "iter_items ?l it = batch_of ?l loc"
      "it_firstKey it = loc_Key loc" "item_Key (it_item it) = loc_Key loc"
      "ii_ok ii'" "R' \<noteq> [] \<longrightarrow> ii_curr ii' \<noteq> [] \<and> ii_pending ii' = R'"
      using addIter_ok [OF g(1-4)] by metis
    define pushed where "pushed = Iters_Push it fixed"
    have m: "mset pushed = add_mset it (mset fixed)" by (simp add: pushed_def)
    then have s: "set pushed = insert it (set fixed)" by (metis set_mset_mset set_mset_add_mset_insert)
    have hp: "iters.heap pushed" using Iters_Push_heap [OF c(5)] by (simp add: pushed_def)
    have t: "\<not> it_exhausted (pushed ! 0) \<and> item_Key (it_item (pushed ! 0)) \<le> loc_Key loc"
      using heap_top_le [OF hp, of it] s a(3,6) by simp
    have "loc_Key loc \<le> loc_Key (hd R')" if "R' \<noteq> []" using g(5) R that by (cases R') auto
    then have "peek_inv ?l pushed ii' (R' = []) R'"
      using hp s ok a(2,7,8) t inv R m unfolding peek_inv_def by (auto intro: order_trans)
    moreover have "peek_round b iters ii ex = Ret (None, pushed, ii', R' = [])"
      using True c(1,2) a(1) it by (simp add: peek_round_def fixed_def pushed_def)
    moreover have "pend ?l fixed R = pend ?l pushed R'"
      using a(4) R unfolding pend_def m by (simp add: ac_simps)
    ultimately show ?thesis using that [of pushed ii' "R' = []" R' "[loc]"] fk m a(5) R c(7) it by simp
  next
    case False
    have "peek_inv ?l fixed ii ex R"
    proof (cases "R = []")
      case True
      then show ?thesis using inv ok c(5) by (simp add: peek_inv_def)
    next
      case ne: False
      then have k: "\<not> ex" "ii_curr ii \<noteq> []" "ii_pending ii = R" using inv by (auto simp: peek_inv_def)
      then have "\<not> it_exhausted cur'" "item_Key (it_item cur') \<le> loc_Key (hd R)"
        using False IndexIter_Value_hd [OF k(2)] by auto
      then show ?thesis using heap_top_le [OF c(5) ok(3)] inv ok c(5) k unfolding peek_inv_def
        by (auto intro: order_trans)
    qed
    moreover have "peek_round b iters ii ex = Ret (None, fixed, ii, ex)"
      using False c(1,2) it by (auto simp: peek_round_def fixed_def Let_def)
    ultimately show ?thesis using that [of fixed ii ex R "[]"] fk c(7) it by simp
  qed
qed

lemma peek_loop_ok:
  assumes "peek_inv (b_log b) iters ii ex R"
  obtains iters' out opened R' where
    "peek_loop b k num dst iters ii ex = Ret (Some iters', dst @ out, num + int (length out), None)"
    "R = opened @ R'" "\<forall>it\<in>set iters'. iter_ok (b_log b) it"
    "mset (map it_firstKey iters') = mset (map it_firstKey iters) + mset (map loc_Key opened)"
    "pend (b_log b) iters R = mset out + pend (b_log b) iters' R'"
    "length out = min k (size (pend (b_log b) iters R))" "sorted (keys_of out)"
    "\<forall>x\<in>set out. \<forall>y\<in>#pend (b_log b) iters' R'. item_Key x \<le> item_Key y"
  using assms
proof (induction k arbitrary: iters ii ex R num dst thesis)
  case 0
  then show ?case by (intro "0.prems"(1) [of iters "[]" "[]" R]) (simp_all add: keys_of_def peek_inv_def)
next
  case (Suc k)
  let ?l = "b_log b"
  have ne: "iters \<noteq> []" using Suc.prems(2) by (simp add: peek_inv_def)
  show ?case
  proof (cases "it_exhausted (iters ! 0)")
    case True
    note d = peek_inv_done [OF Suc.prems(2) True]
    obtain cur rest where "iters = cur # rest" using ne by (cases iters) auto
    then show ?thesis using True d Suc.prems(2)
      by (intro Suc.prems(1) [of iters "[]" "[]" R]) (simp_all add: keys_of_def peek_inv_def)
  next
    case False
    define x where "x = it_item (iters ! 0)"
    obtain iters1 ii1 ex1 opened1 R1 where r: "peek_round b iters ii ex = Ret (None, iters1, ii1, ex1)"
      "peek_inv ?l iters1 ii1 ex1 R1" "R = opened1 @ R1"
      "mset (map it_firstKey iters1) = mset (map it_firstKey iters) + mset (map loc_Key opened1)"
      "pend ?l iters R = add_mset x (pend ?l iters1 R1)"
      using peek_round_ok [OF Suc.prems(2) False] unfolding x_def by metis
    obtain iters' out opened R' where o: "peek_loop b k (num + 1) (dst @ [x]) iters1 ii1 ex1 =
        Ret (Some iters', (dst @ [x]) @ out, num + 1 + int (length out), None)"
      "R1 = opened @ R'" "\<forall>it\<in>set iters'. iter_ok ?l it"
      "mset (map it_firstKey iters') = mset (map it_firstKey iters1) + mset (map loc_Key opened)"
      "pend ?l iters1 R1 = mset out + pend ?l iters' R'"
      "length out = min k (size (pend ?l iters1 R1))" "sorted (keys_of out)"
      "\<forall>x\<in>set out. \<forall>y\<in>#pend ?l iters' R'. item_Key x \<le> item_Key y"
      by (rule Suc.IH [OF _ r(2), of "num + 1" "dst @ [x]"])
    have "item_Key x \<le> item_Key y" if "y \<in># pend ?l iters1 R1" for y
      using peek_inv_min [OF Suc.prems(2) False, of y] that r(5) by (simp add: x_def)
    then have lo: "\<forall>y\<in>set out. item_Key x \<le> item_Key y" "\<forall>y\<in>#pend ?l iters' R'. item_Key x \<le> item_Key y"
      unfolding o(5) by auto
    show ?thesis
    proof (rule Suc.prems(1) [of iters' "x # out" "opened1 @ opened" R'])
      show "peek_loop b (Suc k) num dst iters ii ex =
          Ret (Some iters', dst @ x # out, num + int (length (x # out)), None)"
        unfolding peek_loop_round [OF ne False] x_def [symmetric] r(1) using o(1) by simp
      show "length (x # out) = min (Suc k) (size (pend ?l iters R))" using o(6) r(5) by simp
    qed (use r o lo in \<open>simp_all add: keys_of_def\<close>)
  qed
qed

section \<open>Peek on an index\<close>

text \<open>The items of the batches of an index, and when all of them are in place.\<close>

definition index_items :: "'m ibtree \<Rightarrow> Log \<Rightarrow> 'm Index \<Rightarrow> Items" where
  "index_items bt l i = concat (map (batch_of l) (all_locs bt i))"

definition index_ok :: "'m ibtree \<Rightarrow> Log \<Rightarrow> 'm Index \<Rightarrow> bool" where
  "index_ok bt l i \<longleftrightarrow> wf_index bt i \<and> (\<forall>loc\<in>set (all_locs bt i). good_loc l loc)"

lemma mset_index_items: "mset (index_items bt l i) = (\<Sum>loc\<in>#mset (all_locs bt i). mset (batch_of l loc))"
  by (simp add: index_items_def mset_concat sum_mset_sum_list [symmetric] comp_def flip: mset_map)

context index_btree
begin

lemma all_locs_sorted: "wf_index bt i \<Longrightarrow> sorted (map loc_Key (all_locs bt i))"
proof -
  assume wf: "wf_index bt i"
  have "sorted (map loc_Key (concat (map snd es)))"
    if "sorted_keys es" "\<forall>(k, ls) \<in> set es. \<forall>loc \<in> set ls. loc_Key loc = k" for es :: "(Key \<times> Location list) list"
    using that
  proof (induction es)
    case (Cons e es)
    obtain a ls where e: "e = (a, ls)" by (cases e)
    have "loc_Key loc = a" if "loc \<in> set ls" for loc using Cons.prems(2) e that by auto
    then have "map loc_Key ls = replicate (length ls) a" by (intro replicate_eqI) auto
    moreover have "a \<le> loc_Key loc" if "loc \<in> set (concat (map snd es))" for loc
      using Cons.prems e that by fastforce
    ultimately show ?case using Cons e by (auto simp: sorted_append)
  qed simp
  then show ?thesis using wf iter_sorted by (fastforce simp: all_locs_def wf_index_def)
qed

text \<open>
  \<^verbatim>\<open>peek\<close> returns the smallest items of the index in order; the iterators it returns stand for the
  batches it opened, which are the first ones of the index.
\<close>

lemma bucket_peek_ok:
  assumes "index_ok bt (b_log b) i" "all_locs bt i \<noteq> []" "0 < n"
  obtains iters out opened R where
    "bucket_peek bt b n dst i = (Some iters, dst @ out, int (length out), None)"
    "iters \<noteq> []" "all_locs bt i = opened @ R" "\<forall>it\<in>set iters. iter_ok (b_log b) it"
    "mset (map it_firstKey iters) = mset (map loc_Key opened)"
    "mset (index_items bt (b_log b) i) = mset out + pend (b_log b) iters R"
    "length out = min (nat n) (length (index_items bt (b_log b) i))" "sorted (keys_of out)"
    "\<forall>x\<in>set out. \<forall>y\<in>#pend (b_log b) iters R. item_Key x \<le> item_Key y"
proof -
  let ?l = "b_log b"
  define ii where "ii = Index_Iter bt i"
  have wf: "wf_index bt i" and good: "\<forall>loc\<in>set (all_locs bt i). good_loc ?l loc"
    using assms(1) by (simp_all add: index_ok_def)
  obtain ii' where nx: "IndexIter_Next ii = (True, ii')" "ii_ok ii'" "ii_curr ii' \<noteq> []" "ii_pending ii' = all_locs bt i"
    using IndexIter_Next_first [OF ii_ok_Iter [OF wf] ii_pending_Iter(2)] assms(2)
    unfolding ii_pending_Iter(1) ii_def by metis
  obtain loc R0 where R0: "all_locs bt i = loc # R0" using assms(2) by (cases "all_locs bt i") auto
  then have g: "good_loc ?l loc" "ii_pending ii' = loc # R0" using good nx(4) by simp_all
  obtain it ii1 where a: "addIter b [] ii' = Ret (R0 = [], None, Iters_Push it [], ii1)"
    "iter_ok ?l it" "\<not> it_exhausted it" "iter_items ?l it = batch_of ?l loc"
    "it_firstKey it = loc_Key loc" "item_Key (it_item it) = loc_Key loc"
    "ii_ok ii1" "R0 \<noteq> [] \<longrightarrow> ii_curr ii1 \<noteq> [] \<and> ii_pending ii1 = R0"
    using addIter_ok [OF nx(2,3) g(2,1)] by metis
  have p: "Iters_Push it [] = [it]" by (simp add: Iters_Push_def Iters_up_def)
  have s: "sorted (map loc_Key (all_locs bt i))" using all_locs_sorted [OF wf] .
  have inv: "peek_inv ?l [it] ii1 (R0 = []) R0"
    using a(2,3,6,7,8) good s R0 by (cases R0) (simp_all add: peek_inv_def)
  have m: "mset (index_items bt ?l i) = pend ?l [it] R0" using a(4) R0 by (simp add: mset_index_items pend_def)
  obtain iters' out opened R' where o:
    "peek_loop b (nat n) 0 dst [it] ii1 (R0 = []) = Ret (Some iters', dst @ out, 0 + int (length out), None)"
    "R0 = opened @ R'" "\<forall>it\<in>set iters'. iter_ok ?l it"
    "mset (map it_firstKey iters') = mset (map it_firstKey [it]) + mset (map loc_Key opened)"
    "pend ?l [it] R0 = mset out + pend ?l iters' R'"
    "length out = min (nat n) (size (pend ?l [it] R0))" "sorted (keys_of out)"
    "\<forall>x\<in>set out. \<forall>y\<in>#pend ?l iters' R'. item_Key x \<le> item_Key y"
    by (rule peek_loop_ok [OF inv])
  show ?thesis
  proof (rule that [of iters' out "loc # opened" R'])
    show "bucket_peek bt b n dst i = (Some iters', dst @ out, int (length out), None)"
      using nx(1) a(1) o(1) by (simp add: bucket_peek_def ii_def p)
    show "iters' \<noteq> []" using o(4) by auto
    show "length out = min (nat n) (length (index_items bt ?l i))" using o(6) by (simp flip: m)
    show "all_locs bt i = (loc # opened) @ R'" using R0 o(2) by simp
    show "mset (map it_firstKey iters') = mset (map loc_Key (loc # opened))" using o(4) a(5) by simp
    show "mset (index_items bt ?l i) = mset out + pend ?l iters' R'" unfolding m by (rule o(5))
  qed (rule o)+
qed

end

section \<open>Memory and log of an index move together\<close>

text \<open>
  From \<open>idx\<close> in \<open>w\<close> to \<open>idx'\<close> in \<open>w'\<close> the records \<open>locs\<close> were appended to the log, nothing else
  changed on disk, and the queues in memory are what the records make of the queues before.
\<close>

definition logged :: "'m ibtree \<Rightarrow> Location list \<Rightarrow> 'm bucketIndex \<Rightarrow> world \<Rightarrow> 'm bucketIndex \<Rightarrow> world \<Rightarrow> bool" where
  "logged bt locs idx w idx' w' \<longleftrightarrow>
     bi_Log idx' = bi_Log idx \<and> wf_index bt (bi_Mem idx') \<and>
     locs_at bt (bi_Mem idx') = fold apply_rec locs (locs_at bt (bi_Mem idx)) \<and>
     (\<exists>rs old. map fst rs = locs \<and> file_at w (wr_path (bi_Log idx)) = Some old \<and>
        wrote w (wr_path (bi_Log idx)) (old @ enc_recs rs) w')"

text \<open>Loading the log of an index gives the queues that are in memory.\<close>

definition wal_ok :: "'m ibtree \<Rightarrow> world \<Rightarrow> 'm bucketIndex \<Rightarrow> bool" where
  "wal_ok bt w idx \<longleftrightarrow>
     (\<exists>rs. file_at w (wr_path (bi_Log idx)) = Some (enc_recs rs) \<and> (\<forall>(loc, t) \<in> set rs. rec_ok loc) \<and>
        locs_at bt (bi_Mem idx) = fold apply_rec (map fst rs) (\<lambda>_. []))"

lemma logged_refl:
  "w_faults w = [] \<Longrightarrow> wf_index bt (bi_Mem idx) \<Longrightarrow> file_at w (wr_path (bi_Log idx)) = Some old \<Longrightarrow>
   logged bt [] idx w idx w"
  unfolding logged_def by (auto intro!: exI [of _ "[]"] exI [of _ old] wrote_refl)

lemma logged_trans:
  assumes "logged bt locs idx w idx1 w1" "logged bt locs' idx1 w1 idx' w'"
  shows "logged bt (locs @ locs') idx w idx' w'"
proof -
  obtain rs old where 1: "map fst rs = locs" "file_at w (wr_path (bi_Log idx)) = Some old"
    "wrote w (wr_path (bi_Log idx)) (old @ enc_recs rs) w1" and l: "bi_Log idx1 = bi_Log idx"
    using assms(1) by (auto simp: logged_def)
  obtain rs' old' where 2: "map fst rs' = locs'" "file_at w1 (wr_path (bi_Log idx)) = Some old'"
    "wrote w1 (wr_path (bi_Log idx)) (old' @ enc_recs rs') w'"
    using assms(2) l by (auto simp: logged_def)
  have "old' = old @ enc_recs rs" using 2(2) wrote_file_at [OF 1(3)] by simp
  then have "wrote w (wr_path (bi_Log idx)) (old @ enc_recs (rs @ rs')) w'"
    using wrote_trans [OF 1(3)] 2(3) by simp
  then show ?thesis using assms 1 2 unfolding logged_def by (auto intro!: exI [of _ "rs @ rs'"] exI [of _ old])
qed

lemma loggedD:
  assumes "logged bt locs idx w idx' w'"
  shows "bi_Log idx' = bi_Log idx" "wf_index bt (bi_Mem idx')" "w_faults w' = []"
    "locs_at bt (bi_Mem idx') = fold apply_rec locs (locs_at bt (bi_Mem idx))"
    "\<exists>old. file_at w' (wr_path (bi_Log idx)) = Some old"
    "q \<noteq> wr_path (bi_Log idx) \<Longrightarrow> node_at w' q = node_at w q"
  using assms wrote_file_at by (auto simp: logged_def wrote_def)

lemma wal_ok_logged:
  assumes "wal_ok bt w idx" "logged bt locs idx w idx' w'" "\<forall>loc\<in>set locs. rec_ok loc"
  shows "wal_ok bt w' idx'"
proof -
  obtain rs where 1: "file_at w (wr_path (bi_Log idx)) = Some (enc_recs rs)" "\<forall>(loc, t) \<in> set rs. rec_ok loc"
    "locs_at bt (bi_Mem idx) = fold apply_rec (map fst rs) (\<lambda>_. [])"
    using assms(1) by (auto simp: wal_ok_def)
  obtain rs' where 2: "map fst rs' = locs" "wrote w (wr_path (bi_Log idx)) (enc_recs rs @ enc_recs rs') w'"
    using assms(2) 1(1) by (auto simp: logged_def)
  have "\<forall>(loc, t) \<in> set (rs @ rs'). rec_ok loc" using 1(2) 2(1) assms(3) by fastforce
  moreover have "locs_at bt (bi_Mem idx') = fold apply_rec (map fst (rs @ rs')) (\<lambda>_. [])"
    using loggedD(4) [OF assms(2)] 1(3) 2(1) by simp
  moreover have "file_at w' (wr_path (bi_Log idx')) = Some (enc_recs (rs @ rs'))"
    using wrote_file_at [OF 2(2)] loggedD(1) [OF assms(2)] by simp
  ultimately show ?thesis unfolding wal_ok_def by blast
qed

lemma Writer_Push_logged:
  assumes "w_faults w = []" "file_at w (wr_path (bi_Log idx)) = Some old" "wf_index bt mem"
    "locs_at bt mem = apply_rec loc (locs_at bt (bi_Mem idx))"
  obtains w' where "Writer_Push (bi_Log idx) loc t w = (None, w')" "logged bt [loc] idx w (idx\<lparr>bi_Mem := mem\<rparr>) w'"
proof -
  obtain w' where w': "Append (wr_path (bi_Log idx)) (enc_loc loc t) w = (None, w')"
    "wrote w (wr_path (bi_Log idx)) (old @ enc_loc loc t) w'"
    using Append_wrote [OF assms(1,2)] by blast
  have "logged bt [loc] idx w (idx\<lparr>bi_Mem := mem\<rparr>) w'"
    using assms w'(2) unfolding logged_def by (auto intro!: exI [of _ "[(loc, t)]"] exI [of _ old])
  then show ?thesis using that w'(1) by (simp add: Writer_Push_def)
qed

section \<open>popSync\<close>

text \<open>The records \<^verbatim>\<open>popSync\<close> writes: what is left of a batch is set, then its first key is deleted.\<close>

definition dead_loc :: "Key \<Rightarrow> Location" where
  "dead_loc k = \<lparr>loc_Key = k, loc_Off = 0, loc_Len = 0\<rparr>"

definition pop_rec :: "Iter \<Rightarrow> Location list" where
  "pop_rec it = (if it_exhausted it then [] else [CurrentLocation it]) @ [dead_loc (it_firstKey it)]"

definition pop_recs :: "Iters \<Rightarrow> Location list" where
  "pop_recs iters = concat (map pop_rec iters)"

context index_btree
begin

lemma push_index_logged:
  assumes "w_faults w = []" "file_at w (wr_path (bi_Log idx)) = Some old" "wf_index bt (bi_Mem idx)" "loc_Len loc \<noteq> 0"
  obtains idx' w' where "push_index bt loc idx w = (None, idx', w')" "logged bt [loc] idx w idx' w'"
    "bi_Mem idx' = Index_Set bt loc (bi_Mem idx)"
proof -
  define mem where "mem = Index_Set bt loc (bi_Mem idx)"
  have "wf_index bt mem" "locs_at bt mem = apply_rec loc (locs_at bt (bi_Mem idx))"
    using wf_index_Set [OF assms(3)] assms(4) by (simp_all add: mem_def locs_at_Set apply_rec_def)
  then obtain w' where "Writer_Push (bi_Log idx) loc (Index_Trailer mem) w = (None, w')"
    "logged bt [loc] idx w (idx\<lparr>bi_Mem := mem\<rparr>) w'"
    using Writer_Push_logged [OF assms(1,2)] by metis
  then show ?thesis using that [of "idx\<lparr>bi_Mem := mem\<rparr>" w'] by (simp add: push_index_def mem_def)
qed

lemma Index_Delete_logged:
  assumes "w_faults w = []" "file_at w (wr_path (bi_Log idx)) = Some old" "wf_index bt (bi_Mem idx)"
  obtains loc mem where "Index_Delete bt k (bi_Mem idx) = Ret (loc, mem)"
    "\<And>t. \<exists>w'. Writer_Push (bi_Log idx) (dead_loc k) t w = (None, w') \<and> logged bt [dead_loc k] idx w (idx\<lparr>bi_Mem := mem\<rparr>) w'"
proof -
  obtain loc mem where d: "Index_Delete bt k (bi_Mem idx) = Ret (loc, mem)" "wf_index bt mem"
    "locs_at bt mem = (locs_at bt (bi_Mem idx))(k := tl (locs_at bt (bi_Mem idx) k))"
    using Index_Delete_ok [OF assms(3)] by metis
  have "locs_at bt mem = apply_rec (dead_loc k) (locs_at bt (bi_Mem idx))"
    using d(3) by (simp add: apply_rec_def dead_loc_def)
  then show ?thesis using that [OF d(1)] Writer_Push_logged [OF assms(1,2) d(2)] by metis
qed

lemma popSync_one_logged:
  assumes "w_faults w = []" "file_at w (wr_path (bi_Log idx)) = Some old" "wf_index bt (bi_Mem idx)"
    "\<not> it_exhausted it \<Longrightarrow> loc_Len (CurrentLocation it) \<noteq> 0"
  obtains idx' w' where "popSync_one bt it idx w = (Ret None, idx', w')" "logged bt (pop_rec it) idx w idx' w'"
proof -
  obtain idx1 w1 where 1: "(if \<not> it_exhausted it then push_index bt (CurrentLocation it) idx w else (None, idx, w)) =
      (None, idx1, w1)" "logged bt (if it_exhausted it then [] else [CurrentLocation it]) idx w idx1 w1"
  proof (cases "it_exhausted it")
    case True
    then show ?thesis using that [of idx w] logged_refl [OF assms(1,3,2)] by simp
  next
    case False
    then show ?thesis using push_index_logged [OF assms(1-3,4)] that by (metis (full_types))
  qed
  note l = loggedD [OF 1(2)]
  obtain old1 where f1: "file_at w1 (wr_path (bi_Log idx1)) = Some old1" using l(1,5) by auto
  obtain loc mem where d: "Index_Delete bt (it_firstKey it) (bi_Mem idx1) = Ret (loc, mem)"
    "\<And>t. \<exists>w'. Writer_Push (bi_Log idx1) (dead_loc (it_firstKey it)) t w1 = (None, w') \<and>
       logged bt [dead_loc (it_firstKey it)] idx1 w1 (idx1\<lparr>bi_Mem := mem\<rparr>) w'"
    using Index_Delete_logged [OF l(3) f1 l(2)] by metis
  obtain w' where w': "Writer_Push (bi_Log idx1) (dead_loc (it_firstKey it)) (Index_Trailer mem) w1 = (None, w')"
    "logged bt [dead_loc (it_firstKey it)] idx1 w1 (idx1\<lparr>bi_Mem := mem\<rparr>) w'"
    using d(2) by blast
  have "popSync_one bt it idx w = (Ret None, idx1\<lparr>bi_Mem := mem\<rparr>, w')"
    unfolding popSync_one_def 1(1) using d(1) w'(1) by (simp add: dead_loc_def)
  moreover have "logged bt (pop_rec it) idx w (idx1\<lparr>bi_Mem := mem\<rparr>) w'"
    using logged_trans [OF 1(2) w'(2)] by (simp add: pop_rec_def)
  ultimately show ?thesis using that by blast
qed

lemma popSync_loop_logged:
  assumes "w_faults w = []" "file_at w (wr_path (bi_Log idx)) = Some old" "wf_index bt (bi_Mem idx)"
    "\<forall>it\<in>set iters. \<not> it_exhausted it \<longrightarrow> loc_Len (CurrentLocation it) \<noteq> 0"
  obtains idx' w' where "popSync_loop bt iters idx w = (Ret None, idx', w')" "logged bt (pop_recs iters) idx w idx' w'"
  using assms
proof (induction iters arbitrary: idx w old thesis)
  case Nil
  then show ?case using logged_refl [OF Nil(2,4,3)]
    by (intro Nil(1) [of idx w]) (simp_all add: Writer_Sync_def pop_recs_def)
next
  case (Cons it iters)
  obtain idx1 w1 where 1: "popSync_one bt it idx w = (Ret None, idx1, w1)" "logged bt (pop_rec it) idx w idx1 w1"
    using popSync_one_logged [OF Cons.prems(2,3,4)] Cons.prems(5) by (metis list.set_intros(1))
  note l = loggedD [OF 1(2)]
  obtain old1 where f1: "file_at w1 (wr_path (bi_Log idx1)) = Some old1" using l(1,5) by auto
  obtain idx' w' where "popSync_loop bt iters idx1 w1 = (Ret None, idx', w')" "logged bt (pop_recs iters) idx1 w1 idx' w'"
    using Cons.IH [OF _ l(3) f1 l(2)] Cons.prems(5) by auto
  then show ?case using 1 logged_trans [OF 1(2)]
    by (intro Cons.prems(1) [of idx' w']) (simp_all add: pop_recs_def)
qed

end

section \<open>What popSync leaves in the queues\<close>

definition n_first :: "Iters \<Rightarrow> Key \<Rightarrow> nat" where
  "n_first iters k = length (filter (\<lambda>it. it_firstKey it = k) iters)"

definition left_locs :: "Iters \<Rightarrow> Location list" where
  "left_locs iters = map CurrentLocation (filter (\<lambda>it. \<not> it_exhausted it) iters)"

abbreviation with_key :: "Key \<Rightarrow> Location list \<Rightarrow> Location list" where
  "with_key k locs \<equiv> filter (\<lambda>loc. loc_Key loc = k) locs"

lemma fold_pop_recs:
  assumes "\<forall>it\<in>set iters. \<not> it_exhausted it \<longrightarrow> loc_Len (CurrentLocation it) \<noteq> 0"
    "\<forall>k. n_first iters k \<le> length (q k)"
  shows "fold apply_rec (pop_recs iters) q k = drop (n_first iters k) (q k @ with_key k (left_locs iters))"
  using assms
proof (induction iters arbitrary: q)
  case Nil
  then show ?case by (simp add: pop_recs_def n_first_def left_locs_def)
next
  case (Cons it iters)
  define q1 where "q1 = fold apply_rec (pop_rec it) q"
  define c where "c k = (if it_exhausted it then [] else with_key k [CurrentLocation it])" for k
  have q1: "q1 k = (if k = it_firstKey it then tl (q k @ c k) else q k @ c k)" for k
    using Cons.prems(1)
    by (auto simp: q1_def c_def pop_rec_def apply_rec_def dead_loc_def)
  have n: "n_first (it # iters) k = (if k = it_firstKey it then 1 else 0) + n_first iters k" for k
    by (simp add: n_first_def)
  have "n_first iters k \<le> length (q1 k)" for k
    using Cons.prems(2) [rule_format, of k] by (auto simp: n q1)
  then have "fold apply_rec (pop_recs iters) q1 k = drop (n_first iters k) (q1 k @ with_key k (left_locs iters))"
    using Cons by simp
  moreover have "pop_recs (it # iters) = pop_rec it @ pop_recs iters" by (simp add: pop_recs_def)
  moreover have "with_key k (left_locs (it # iters)) = c k @ with_key k (left_locs iters)"
    by (simp add: left_locs_def c_def)
  moreover have "drop (n_first iters k) (q1 k @ r) = drop (n_first (it # iters) k) (q k @ c k @ r)" for r
  proof (cases "k = it_firstKey it")
    case True
    then show ?thesis using Cons.prems(2) [rule_format, of k] by (cases "q k") (simp_all add: n q1)
  qed (simp add: n q1)
  ultimately show ?case by (simp add: q1_def)
qed

lemma mset_by_key:
  assumes "\<And>k. mset (with_key k xs) = mset (with_key k ys)"
  shows "mset xs = mset ys"
proof (rule multiset_eqI)
  fix x
  have "count (mset (with_key (loc_Key x) zs)) x = count (mset zs) x" for zs by simp
  then show "count (mset xs) x = count (mset ys) x" using assms by metis
qed

lemma n_first_keys: "n_first iters k = count (mset (map it_firstKey iters)) k"
  by (induction iters) (simp_all add: n_first_def)

lemma count_keys: "count (mset (map loc_Key locs)) k = length (with_key k locs)"
  by (induction locs) simp_all

lemma pend_left:
  "pend l iters R = (\<Sum>loc\<in>#mset (left_locs iters) + mset R. mset (batch_of l loc))"
proof -
  have "(\<Sum>it\<in>#mset iters. mset (iter_items l it)) = (\<Sum>loc\<in>#mset (left_locs iters). mset (batch_of l loc))"
    by (induction iters) (simp_all add: left_locs_def iter_items_def)
  then show ?thesis by (simp add: pend_def)
qed

context index_btree
begin

text \<open>
  After \<^verbatim>\<open>popSync\<close> the index holds the batches that were not opened and what is left of those that
  were, whatever the order of the iterators in the heap.
\<close>

lemma popped_locs:
  assumes "wf_index bt i" "all_locs bt i = opened @ R" "mset (map it_firstKey iters) = mset (map loc_Key opened)"
    "\<forall>it\<in>set iters. iter_ok l it" "wf_index bt i'" "locs_at bt i' = fold apply_rec (pop_recs iters) (locs_at bt i)"
  shows "mset (all_locs bt i') = mset (left_locs iters) + mset R"
proof -
  have ne: "\<forall>it\<in>set iters. \<not> it_exhausted it \<longrightarrow> loc_Len (CurrentLocation it) \<noteq> 0"
    using assms(4) good_loc_len(3) by (auto simp: iter_ok_def)
  have q: "locs_at bt i k = with_key k opened @ with_key k R" for k
    using filter_all_locs [OF assms(1), of k] assms(2) by simp
  have n: "n_first iters k = length (with_key k opened)" for k
    using assms(3) by (simp add: n_first_keys count_keys flip: mset_map)
  have at: "locs_at bt i' k = with_key k (R @ left_locs iters)" for k
    using fold_pop_recs [OF ne, of "locs_at bt i" k] assms(6) by (simp add: q n)
  have "mset (all_locs bt i') = mset (R @ left_locs iters)"
    by (rule mset_by_key) (simp add: filter_all_locs [OF assms(5)] at)
  then show ?thesis by (simp add: add.commute)
qed

lemma popped_ok:
  assumes "index_ok bt l i" "all_locs bt i = opened @ R" "mset (map it_firstKey iters) = mset (map loc_Key opened)"
    "\<forall>it\<in>set iters. iter_ok l it" "wf_index bt i'" "locs_at bt i' = fold apply_rec (pop_recs iters) (locs_at bt i)"
  shows "index_ok bt l i'" "mset (index_items bt l i') = pend l iters R"
proof -
  have m: "mset (all_locs bt i') = mset (left_locs iters) + mset R"
    using popped_locs [OF _ assms(2-6)] assms(1) by (simp add: index_ok_def)
  then show "mset (index_items bt l i') = pend l iters R" by (simp add: mset_index_items pend_left)
  have "set (all_locs bt i') = set (left_locs iters) \<union> set R" using m by (metis set_mset_mset set_mset_union)
  moreover have "\<forall>loc\<in>set (left_locs iters). good_loc l loc" using assms(4) by (auto simp: left_locs_def iter_ok_def)
  ultimately show "index_ok bt l i'" using assms(1,2,5) by (auto simp: index_ok_def)
qed

end

end
