(* ===== verification/Bucket_Correct.thy ===== *)
theory Bucket_Correct
  imports Bucket_Peek
begin

text \<open>
  Correctness of a bucket. The abstract view of a fork is the list \<open>fork_items\<close> of the items in the
  batches that its index refers to; \<open>bucket_ok\<close> is the invariant of a bucket and the files below its
  directory.
\<close>

section \<open>The invariant of a bucket\<close>

definition fork_items :: "'m ibtree \<Rightarrow> 'm bucket \<Rightarrow> ForkName \<Rightarrow> Items" where
  "fork_items bt b fork =
     (case map_of (b_indexes b) fork of None \<Rightarrow> [] | Some idx \<Rightarrow> index_items bt (b_log b) (bi_Mem idx))"

definition fork_ok :: "'m ibtree \<Rightarrow> 'm bucket \<Rightarrow> world \<Rightarrow> ForkName \<Rightarrow> 'm bucketIndex \<Rightarrow> bool" where
  "fork_ok bt b w fork idx \<longleftrightarrow>
     index_ok bt (b_log b) (bi_Mem idx) \<and> wal_ok bt w idx \<and> wr_path (bi_Log idx) = idxPath (b_dir b) fork"

text \<open>
  \<open>its\<close> are the items that were ever pushed to the bucket. Each fork's log on disk repeats what its
  index has in memory.
\<close>

definition bucket_ok :: "'m ibtree \<Rightarrow> Items \<Rightarrow> 'm bucket \<Rightarrow> world \<Rightarrow> bool" where
  "bucket_ok bt its b w \<longleftrightarrow>
     w_faults w = [] \<and> log_rep (b_log b) its \<and> log_on_disk (b_log b) w \<and>
     log_path (b_log b) = b_dir b @ [dataLogName] \<and> distinct (map fst (b_indexes b)) \<and>
     (\<forall>(fork, idx) \<in> set (b_indexes b). fork_ok bt b w fork idx)"

lemma idxPath_inject [simp]: "idxPath dir f = idxPath dir g \<longleftrightarrow> f = g"
  by (auto simp: idxPath_def Let_def split: if_splits dest: arg_cong [of _ _ length])

lemma idxPath_data [simp]: "idxPath dir f \<noteq> dir @ [dataLogName]" "dir @ [dataLogName] \<noteq> idxPath dir f"
  by (auto simp: idxPath_def dataLogName_def Let_def dest!: arg_cong [of _ _ length] split: if_splits)

lemma idxForFork_Inr: "idxForFork b fork = Inr idx \<longleftrightarrow> map_of (b_indexes b) fork = Some idx"
  by (auto simp: idxForFork_def split: option.splits)

lemma bucket_okD:
  assumes "bucket_ok bt its b w"
  shows "w_faults w = []" "log_rep (b_log b) its" "log_on_disk (b_log b) w"
    "log_path (b_log b) = b_dir b @ [dataLogName]" "distinct (map fst (b_indexes b))"
    "map_of (b_indexes b) fork = Some idx \<Longrightarrow> fork_ok bt b w fork idx"
  using assms by (auto simp: bucket_ok_def dest: map_of_SomeD)

lemma fork_ok_file: "fork_ok bt b w fork idx \<Longrightarrow> \<exists>old. file_at w (wr_path (bi_Log idx)) = Some old"
  by (auto simp: fork_ok_def wal_ok_def)

lemma wal_ok_frame: "wal_ok bt w idx \<Longrightarrow> node_at w' (wr_path (bi_Log idx)) = node_at w (wr_path (bi_Log idx)) \<Longrightarrow> wal_ok bt w' idx"
  by (simp add: wal_ok_def file_at_def)

text \<open>A step of one fork's index keeps the bucket in order and leaves the other forks alone.\<close>

lemma bucket_ok_logged:
  assumes ok: "bucket_ok bt its b w" and f: "map_of (b_indexes b) fork = Some idx"
    and lg: "logged bt locs idx w idx' w'" and rec: "\<forall>loc\<in>set locs. rec_ok loc"
    and io: "index_ok bt (b_log b) (bi_Mem idx')"
  shows "bucket_ok bt its (put_index fork idx' b) w'"
    "map_of (b_indexes (put_index fork idx' b)) = (map_of (b_indexes b))(fork \<mapsto> idx')"
proof -
  note k = bucket_okD [OF ok]
  have fk: "fork_ok bt b w fork idx" by (rule k(6) [OF f])
  then have p: "wr_path (bi_Log idx) = idxPath (b_dir b) fork" by (simp add: fork_ok_def)
  note l = loggedD [OF lg]
  show m: "map_of (b_indexes (put_index fork idx' b)) = (map_of (b_indexes b))(fork \<mapsto> idx')"
    by (simp add: put_index_def update_conv')
  have "fork_ok bt b w' g jdx" if "map_of (b_indexes (put_index fork idx' b)) g = Some jdx" for g jdx
  proof (cases "g = fork")
    case True
    then have "jdx = idx'" using that m by simp
    then show ?thesis using True io wal_ok_logged [OF _ lg rec] fk l(1) by (simp add: fork_ok_def)
  next
    case False
    then have j: "fork_ok bt b w g jdx" using k(6) that m by simp
    then have "wr_path (bi_Log jdx) \<noteq> wr_path (bi_Log idx)" using p False by (simp add: fork_ok_def)
    then have "node_at w' (wr_path (bi_Log jdx)) = node_at w (wr_path (bi_Log jdx))" by (rule l(6))
    then show ?thesis using j wal_ok_frame [of bt w jdx w'] by (simp add: fork_ok_def)
  qed
  then have "\<forall>(g, jdx) \<in> set (b_indexes (put_index fork idx' b)). fork_ok bt (put_index fork idx' b) w' g jdx"
    using distinct_update [OF k(5), of fork idx'] by (auto simp: fork_ok_def put_index_def)
  moreover have "log_on_disk (b_log b) w'" using k(3,4) l(6) p by (simp add: log_on_disk_def file_at_def)
  ultimately show "bucket_ok bt its (put_index fork idx' b) w'"
    using k l(3) distinct_update [OF k(5), of fork idx'] by (simp add: bucket_ok_def put_index_def)
qed

section \<open>Read\<close>

context index_btree
begin

lemma empty_index_items: "all_locs bt i = [] \<Longrightarrow> index_items bt l i = []"
  by (simp add: index_items_def)

lemma IndexIter_empty: "wf_index bt i \<Longrightarrow> all_locs bt i = [] \<Longrightarrow> \<exists>ii. IndexIter_Next (Index_Iter bt i) = (False, ii)"
  using IndexIter_Next_first [OF ii_ok_Iter ii_pending_Iter(2), of i] unfolding ii_pending_Iter(1) by metis

text \<open>What \<^verbatim>\<open>peek\<close> returns, and what popping the iterators it returns does to the fork.\<close>

lemma Read_parts:
  assumes ok: "bucket_ok bt its b w" and f: "map_of (b_indexes b) fork = Some idx" and n: "0 < n"
  obtains it out where "bucket_peek bt b n [] (bi_Mem idx) = (it, out, int (length out), None)"
    "length out = min (nat n) (length (fork_items bt b fork))" "sorted (keys_of out)" "it \<noteq> Some []"
    "\<exists>rest. mset (fork_items bt b fork) = mset out + mset rest \<and> (\<forall>x\<in>set out. \<forall>y\<in>set rest. item_Key x \<le> item_Key y)"
    "it = None \<Longrightarrow> out = [] \<and> fork_items bt b fork = []"
    "\<And>iters. it = Some iters \<Longrightarrow> \<exists>idx' w'. popSync bt iters idx w = (Ret None, idx', w') \<and>
       (\<exists>locs. logged bt locs idx w idx' w' \<and> (\<forall>loc\<in>set locs. rec_ok loc)) \<and>
       bucket_ok bt its (put_index fork idx' b) w' \<and>
       mset (fork_items bt b fork) = mset out + mset (fork_items bt (put_index fork idx' b) fork) \<and>
       (\<forall>x\<in>set out. \<forall>y\<in>set (fork_items bt (put_index fork idx' b) fork). item_Key x \<le> item_Key y)"
proof -
  let ?l = "b_log b" and ?i = "bi_Mem idx"
  note k = bucket_okD [OF ok]
  have fk: "fork_ok bt b w fork idx" by (rule k(6) [OF f])
  then have io: "index_ok bt ?l ?i" and wf: "wf_index bt ?i" by (simp_all add: fork_ok_def index_ok_def)
  obtain old where old: "file_at w (wr_path (bi_Log idx)) = Some old" using fork_ok_file [OF fk] by blast
  have items: "fork_items bt b fork = index_items bt ?l ?i" using f by (simp add: fork_items_def)
  show ?thesis
  proof (cases "all_locs bt ?i = []")
    case True
    then have e: "index_items bt ?l ?i = []" by (rule empty_index_items)
    have "bucket_peek bt b n [] ?i = (None, [], 0, None)"
      using IndexIter_empty [OF wf True] by (auto simp: bucket_peek_def)
    then show ?thesis using that [of None "[]"] e items by (simp add: keys_of_def)
  next
    case False
    obtain iters out opened R where p: "bucket_peek bt b n [] ?i = (Some iters, [] @ out, int (length out), None)"
      "iters \<noteq> []" "all_locs bt ?i = opened @ R" "\<forall>it\<in>set iters. iter_ok ?l it"
      "mset (map it_firstKey iters) = mset (map loc_Key opened)"
      "mset (index_items bt ?l ?i) = mset out + pend ?l iters R"
      "length out = min (nat n) (length (index_items bt ?l ?i))" "sorted (keys_of out)"
      "\<forall>x\<in>set out. \<forall>y\<in>#pend ?l iters R. item_Key x \<le> item_Key y"
      by (rule bucket_peek_ok [OF io False n])
    have ne: "\<forall>it\<in>set iters. \<not> it_exhausted it \<longrightarrow> loc_Len (CurrentLocation it) \<noteq> 0"
      using p(4) good_loc_len(3) by (auto simp: iter_ok_def)
    obtain idx' w' where s: "popSync_loop bt iters idx w = (Ret None, idx', w')" "logged bt (pop_recs iters) idx w idx' w'"
      using popSync_loop_logged [OF k(1) old wf ne] by metis
    note q = popped_ok [OF io p(3,5,4) loggedD(2,4) [OF s(2)]]
    have rec: "\<forall>loc\<in>set (pop_recs iters). rec_ok loc"
      using p(4) good_loc_len(2) by (auto simp: pop_recs_def pop_rec_def dead_loc_def rec_ok_def iter_ok_def)
    note b = bucket_ok_logged [OF ok f s(2) rec q(1)]
    have f': "fork_items bt (put_index fork idx' b) fork = index_items bt ?l (bi_Mem idx')"
      unfolding fork_items_def b(2) by (simp add: put_index_def)
    have ps: "popSync bt iters idx w = (Ret None, idx', w')" using s(1) p(2) by (simp add: popSync_def)
    define rest where "rest = index_items bt ?l (bi_Mem idx')"
    have rest: "mset (fork_items bt b fork) = mset out + mset rest"
      "\<forall>x\<in>set out. \<forall>y\<in>set rest. item_Key x \<le> item_Key y"
      using p(6,9) q(2) items unfolding rest_def by (metis, metis set_mset_mset)
    show ?thesis
    proof (rule that [of "Some iters" out])
      show "length out = min (nat n) (length (fork_items bt b fork))" using p(7) items by simp
      show "\<exists>rest. mset (fork_items bt b fork) = mset out + mset rest \<and>
          (\<forall>x\<in>set out. \<forall>y\<in>set rest. item_Key x \<le> item_Key y)"
        using rest by blast
      show "\<exists>idx' w'. popSync bt iters' idx w = (Ret None, idx', w') \<and>
          (\<exists>locs. logged bt locs idx w idx' w' \<and> (\<forall>loc\<in>set locs. rec_ok loc)) \<and>
          bucket_ok bt its (put_index fork idx' b) w' \<and>
          mset (fork_items bt b fork) = mset out + mset (fork_items bt (put_index fork idx' b) fork) \<and>
          (\<forall>x\<in>set out. \<forall>y\<in>set (fork_items bt (put_index fork idx' b) fork). item_Key x \<le> item_Key y)"
        if "Some iters = Some iters'" for iters'
        using that ps b(1) f' rest s(2) rec by (intro exI [of _ idx'] exI [of _ w']) (auto simp: rest_def)
    qed (use p(1,2,8) in auto)
  qed
qed

end

section \<open>Push\<close>

lemma good_loc_mono:
  assumes "good_loc l loc" "log_rep l its" "log_rep l' (its @ items)"
  shows "good_loc l' loc" "batch_of l' loc = batch_of l loc"
proof -
  note g = good_locD [OF assms(1)]
  have st: "stored l' (loc_Off loc) (batch_of l loc)" by (rule stored_mono [OF g(2) assms(2,3)])
  then show "good_loc l' loc" unfolding good_loc_def using g by blast
  show "batch_of l' loc = batch_of l loc" by (rule batch_of_stored [OF st g(3)])
qed

lemma index_ok_mono:
  assumes "index_ok bt l i" "log_rep l its" "log_rep l' (its @ items)"
  shows "index_ok bt l' i" "index_items bt l' i = index_items bt l i"
proof -
  have "good_loc l loc" if "loc \<in> set (all_locs bt i)" for loc using assms(1) that by (simp add: index_ok_def)
  note g = good_loc_mono [OF this assms(2,3)]
  show "index_ok bt l' i" using g(1) assms(1) by (simp add: index_ok_def)
  have "map (batch_of l') (all_locs bt i) = map (batch_of l) (all_locs bt i)" using g(2) by simp
  then show "index_items bt l' i = index_items bt l i" by (simp only: index_items_def)
qed

lemma good_loc_new:
  assumes "log_rep l (its @ items)" "items \<noteq> []" "\<forall>it\<in>set items. valid_item it" "length items < 2 ^ 32"
    "sorted (keys_of items)"
  shows "good_loc l \<lparr>loc_Key = item_Key (hd items), loc_Off = of_nat (length (enc_items its)), loc_Len = of_nat (length items)\<rparr>"
    "batch_of l \<lparr>loc_Key = item_Key (hd items), loc_Off = of_nat (length (enc_items its)), loc_Len = of_nat (length items)\<rparr> = items"
proof -
  note st = stored_new [OF assms(1,3)]
  show "good_loc l \<lparr>loc_Key = item_Key (hd items), loc_Off = of_nat (length (enc_items its)), loc_Len = of_nat (length items)\<rparr>"
    unfolding good_loc_def using st assms by (auto intro!: exI [of _ items])
  show "batch_of l \<lparr>loc_Key = item_Key (hd items), loc_Off = of_nat (length (enc_items its)), loc_Len = of_nat (length items)\<rparr> = items"
    using st by (intro batch_of_stored) simp_all
qed

context index_btree
begin

lemma Set_items:
  assumes "index_ok bt l i" "good_loc l loc"
  shows "index_ok bt l (Index_Set bt loc i)"
    "mset (index_items bt l (Index_Set bt loc i)) = mset (index_items bt l i) + mset (batch_of l loc)"
proof -
  have "set (all_locs bt (Index_Set bt loc i)) = insert loc (set (all_locs bt i))"
    using mset_all_locs_Set [of loc i] by (metis set_mset_add_mset_insert set_mset_mset)
  then show "index_ok bt l (Index_Set bt loc i)" using assms wf_index_Set by (simp add: index_ok_def)
  show "mset (index_items bt l (Index_Set bt loc i)) = mset (index_items bt l i) + mset (batch_of l loc)"
    by (simp add: mset_index_items mset_all_locs_Set)
qed

text \<open>All forks receive the location; each log grows by the same record.\<close>

lemma push_all_ok:
  assumes "w_faults w = []" "distinct (map fst es)" "good_loc l loc"
    "\<forall>(fork, idx) \<in> set es. index_ok bt l (bi_Mem idx) \<and> wal_ok bt w idx \<and> wr_path (bi_Log idx) = idxPath dir fork"
  shows "\<exists>es' w'. push_all bt loc es w = (None, es', w') \<and> w_faults w' = [] \<and> map fst es' = map fst es \<and>
    (\<forall>(fork, idx) \<in> set es'. index_ok bt l (bi_Mem idx) \<and> wal_ok bt w' idx \<and> wr_path (bi_Log idx) = idxPath dir fork) \<and>
    (\<forall>fork idx. map_of es fork = Some idx \<longrightarrow>
       (\<exists>idx'. map_of es' fork = Some idx' \<and> bi_Mem idx' = Index_Set bt loc (bi_Mem idx))) \<and>
    (\<forall>q. q \<notin> idxPath dir ` fst ` set es \<longrightarrow> node_at w' q = node_at w q) \<and>
    (\<forall>f\<in>fst ` set es. \<exists>old t. file_at w (idxPath dir f) = Some old \<and> file_at w' (idxPath dir f) = Some (old @ enc_recs [(loc, t)]))"
  using assms
proof (induction es arbitrary: w)
  case (Cons e es)
  obtain fork idx where e: "e = (fork, idx)" by (cases e)
  have f: "index_ok bt l (bi_Mem idx)" "wal_ok bt w idx" "wr_path (bi_Log idx) = idxPath dir fork"
    using Cons.prems(4) e by auto
  obtain old where old: "file_at w (wr_path (bi_Log idx)) = Some old" using f(2) by (auto simp: wal_ok_def)
  have wf: "wf_index bt (bi_Mem idx)" using f(1) by (simp add: index_ok_def)
  note gl = good_loc_len [OF Cons.prems(3)]
  obtain idx1 w1 where 1: "push_index bt loc idx w = (None, idx1, w1)" "logged bt [loc] idx w idx1 w1"
    "bi_Mem idx1 = Index_Set bt loc (bi_Mem idx)"
    using push_index_logged [OF Cons.prems(1) old wf gl(3)] by metis
  note lg = loggedD [OF 1(2)]
  have other: "wr_path (bi_Log jdx) \<noteq> wr_path (bi_Log idx)" if "(g, jdx) \<in> set es" for g jdx
    using Cons.prems(2,4) e that f(3) by (force simp: image_iff)
  have "wal_ok bt w1 jdx" if "(g, jdx) \<in> set es" for g jdx
    using wal_ok_frame [of bt w jdx w1] lg(6) [OF other [OF that]] Cons.prems(4) that by auto
  then have "\<forall>(g, jdx) \<in> set es. index_ok bt l (bi_Mem jdx) \<and> wal_ok bt w1 jdx \<and> wr_path (bi_Log jdx) = idxPath dir g"
    using Cons.prems(4) by auto
  then obtain es' w' where 2: "push_all bt loc es w1 = (None, es', w')" "w_faults w' = []" "map fst es' = map fst es"
    "\<forall>(fork, idx) \<in> set es'. index_ok bt l (bi_Mem idx) \<and> wal_ok bt w' idx \<and> wr_path (bi_Log idx) = idxPath dir fork"
    "\<forall>fork idx. map_of es fork = Some idx \<longrightarrow>
       (\<exists>idx'. map_of es' fork = Some idx' \<and> bi_Mem idx' = Index_Set bt loc (bi_Mem idx))"
    "\<forall>q. q \<notin> idxPath dir ` fst ` set es \<longrightarrow> node_at w' q = node_at w1 q"
    "\<forall>f\<in>fst ` set es. \<exists>old t. file_at w1 (idxPath dir f) = Some old \<and> file_at w' (idxPath dir f) = Some (old @ enc_recs [(loc, t)])"
    using Cons.IH [OF lg(3) _ Cons.prems(3)] Cons.prems(2) by auto
  have "wal_ok bt w1 idx1" using wal_ok_logged [OF f(2) 1(2)] gl(2) by simp
  moreover have "idxPath dir fork \<notin> idxPath dir ` fst ` set es" using Cons.prems(2) e by force
  ultimately have "wal_ok bt w' idx1" using wal_ok_frame [of bt w1 idx1 w'] 2(6) lg(1) f(3) by simp
  moreover have "index_ok bt l (bi_Mem idx1)" using Set_items [OF f(1) Cons.prems(3)] 1(3) by simp
  moreover have "\<exists>old t. file_at w (idxPath dir g) = Some old \<and> file_at w' (idxPath dir g) = Some (old @ enc_recs [(loc, t)])"
    if "g \<in> fst ` set (e # es)" for g
  proof (cases "g = fork")
    case True
    obtain t where "wrote w (idxPath dir fork) (old @ enc_loc loc t) w1"
      using 1(2) old f(3) by (auto simp: logged_def)
    moreover have "file_at w' (idxPath dir fork) = file_at w1 (idxPath dir fork)"
      using 2(6) \<open>idxPath dir fork \<notin> _\<close> by (simp add: file_at_def)
    ultimately show ?thesis using True old f(3) wrote_file_at by fastforce
  next
    case False
    then have "g \<in> fst ` set es" using that e by simp
    moreover have "file_at w1 (idxPath dir g) = file_at w (idxPath dir g)"
      using lg(6) [of "idxPath dir g"] f(3) False by (simp add: file_at_def)
    ultimately show ?thesis using 2(7) by metis
  qed
  ultimately show ?case using e 1 2(1-6) lg f(3) by (intro exI [of _ "(fork, idx1) # es'"] exI [of _ w']) auto
qed simp

end

text \<open>The files of a bucket\<close>

definition bucket_files :: "'m bucket \<Rightarrow> path set" where
  "bucket_files b = insert (b_dir b @ [dataLogName]) (idxPath (b_dir b) ` fst ` set (b_indexes b))"

context index_btree
begin

lemma Push_all_ok:
  assumes "bucket_ok bt its b w" "items \<noteq> []" "sorted (keys_of items)"
    "\<forall>it\<in>set items. valid_item it" "length items < 2 ^ 32" "room pg (b_log b) (length (enc_items items))"
  shows "\<exists>b' w' loc. bucket_Push bt pg items True name b w = (None, b', w') \<and> bucket_ok bt (its @ items) b' w' \<and>
    map fst (b_indexes b') = map fst (b_indexes b) \<and>
    (\<forall>fork. map_of (b_indexes b) fork \<noteq> None \<longrightarrow>
       mset (fork_items bt b' fork) = mset (fork_items bt b fork) + mset items) \<and>
    b_dir b' = b_dir b \<and> b_key b' = b_key b \<and> (\<forall>q. q \<notin> bucket_files b \<longrightarrow> node_at w' q = node_at w q) \<and>
    rec_ok loc \<and> loc_Len loc \<noteq> 0 \<and>
    (\<forall>f\<in>fst ` set (b_indexes b). \<exists>old t. file_at w (idxPath (b_dir b) f) = Some old \<and>
       file_at w' (idxPath (b_dir b) f) = Some (old @ enc_recs [(loc, t)]))"
proof -
  note k = bucket_okD [OF assms(1)]
  define loc where "loc = \<lparr>loc_Key = item_Key (hd items), loc_Off = of_nat (length (enc_items its)), loc_Len = of_nat (length items)\<rparr>"
  obtain l1 w1 where 1: "Log_Push pg items (b_log b) w = (Ret (Inr loc), l1, w1)"
    "log_rep l1 (its @ items)" "log_on_disk l1 w1" "w_faults w1 = []" "log_path l1 = log_path (b_log b)"
    "\<And>q. q \<noteq> log_path (b_log b) \<Longrightarrow> node_at w1 q = node_at w q"
    using Log_Push_ok [OF k(2) assms(2) k(1,3) assms(6)] unfolding loc_def by metis
  note g = good_loc_new [OF 1(2) assms(2,4,5,3), folded loc_def]
  have "index_ok bt l1 (bi_Mem idx) \<and> wal_ok bt w1 idx \<and> wr_path (bi_Log idx) = idxPath (b_dir b) fork"
    if "(fork, idx) \<in> set (b_indexes b)" for fork idx
  proof -
    have fk: "fork_ok bt b w fork idx" using assms(1) that by (auto simp: bucket_ok_def)
    then have "wr_path (bi_Log idx) \<noteq> log_path (b_log b)" using k(4) by (simp add: fork_ok_def)
    note w = 1(6) [OF this]
    show ?thesis using fk index_ok_mono(1) [OF _ k(2) 1(2)] wal_ok_frame [OF _ w] unfolding fork_ok_def by blast
  qed
  then obtain es' w' where 2: "push_all bt loc (b_indexes b) w1 = (None, es', w')" "w_faults w' = []"
    "map fst es' = map fst (b_indexes b)"
    "\<forall>(fork, idx) \<in> set es'. index_ok bt l1 (bi_Mem idx) \<and> wal_ok bt w' idx \<and> wr_path (bi_Log idx) = idxPath (b_dir b) fork"
    "\<forall>fork idx. map_of (b_indexes b) fork = Some idx \<longrightarrow>
       (\<exists>idx'. map_of es' fork = Some idx' \<and> bi_Mem idx' = Index_Set bt loc (bi_Mem idx))"
    "\<forall>q. q \<notin> idxPath (b_dir b) ` fst ` set (b_indexes b) \<longrightarrow> node_at w' q = node_at w1 q"
    "\<forall>f\<in>fst ` set (b_indexes b). \<exists>old t. file_at w1 (idxPath (b_dir b) f) = Some old \<and>
       file_at w' (idxPath (b_dir b) f) = Some (old @ enc_recs [(loc, t)])"
    using push_all_ok [OF 1(4) k(5) g(1), of "b_dir b"] by blast
  define b' where "b' = b\<lparr>b_log := l1, b_indexes := es'\<rparr>"
  have "log_on_disk l1 w'" using 1(3,5) 2(6) k(4) by (simp add: log_on_disk_def file_at_def image_iff)
  then have "bucket_ok bt (its @ items) b' w'"
    using 1(2,5) 2(2,3,4) k(4,5) by (auto simp: bucket_ok_def b'_def fork_ok_def)
  moreover have "bucket_Push bt pg items True name b w = (None, b', w')"
    using assms(2) 1(1) 2(1) by (simp add: bucket_Push_def b'_def)
  moreover have "mset (fork_items bt b' fork) = mset (fork_items bt b fork) + mset items"
    if has: "map_of (b_indexes b) fork \<noteq> None" for fork
  proof -
    obtain idx where idx: "map_of (b_indexes b) fork = Some idx" using has by blast
    obtain idx' where idx': "map_of es' fork = Some idx'" "bi_Mem idx' = Index_Set bt loc (bi_Mem idx)"
      using 2(5) idx by blast
    have io: "index_ok bt (b_log b) (bi_Mem idx)" using k(6) [OF idx] by (simp add: fork_ok_def)
    note m = index_ok_mono [OF io k(2) 1(2)]
    show ?thesis using Set_items(2) [OF m(1) g(1)] m(2) idx idx' g(2)
      by (simp add: fork_items_def b'_def)
  qed
  moreover have "file_at w1 (idxPath (b_dir b) f) = file_at w (idxPath (b_dir b) f)" for f
    using 1(6) k(4) by (simp add: file_at_def)
  moreover have "node_at w' q = node_at w q" if "q \<notin> bucket_files b" for q
    using that 1(6) 2(6) k(4) by (simp add: bucket_files_def)
  moreover note good_loc_len [OF g(1)]
  ultimately show ?thesis using 2(3,7) by (intro exI [of _ b'] exI [of _ w'] exI [of _ loc]) (simp add: b'_def)
qed

end

section \<open>Properties of reading and pushing\<close>


text \<open>
  \<^verbatim>\<open>Read\<close> with any other callback hands it the same smallest items in order, changes
  neither the bucket nor the files, and passes on the callback's error.
\<close>

theorem bucket_Read_peek:
  assumes "index_btree bt" "bucket_ok bt its b w" "map_of (b_indexes b) fork \<noteq> None" "0 < n"
    "\<And>xs. fst (fn xs) \<noteq> ReadOpPop \<or> snd (fn xs) \<noteq> None"
  shows "\<exists>items rest. bucket_Read bt n fork fn b w = (Ret (snd (fn items), Some items), b, w) \<and>
    sorted (keys_of items) \<and> length items = min (nat n) (length (fork_items bt b fork)) \<and>
    mset (fork_items bt b fork) = mset items + mset rest \<and>
    (\<forall>x\<in>set items. \<forall>y\<in>set rest. item_Key x \<le> item_Key y)"
proof -
  obtain idx where f: "map_of (b_indexes b) fork = Some idx" using assms(3) by auto
  show ?thesis
  proof (rule index_btree.Read_parts [OF assms(1,2) f assms(4)])
    fix it out
    assume p: "bucket_peek bt b n [] (bi_Mem idx) = (it, out, int (length out), None)"
      "length out = min (nat n) (length (fork_items bt b fork))" "sorted (keys_of out)"
      "\<exists>rest. mset (fork_items bt b fork) = mset out + mset rest \<and> (\<forall>x\<in>set out. \<forall>y\<in>set rest. item_Key x \<le> item_Key y)"
    have "bucket_Read bt n fork fn b w = (Ret (snd (fn out), Some out), b, w)"
      using assms(4) assms(5) [of out] f p(1)
      by (auto simp: bucket_Read_def idxForFork_def split: prod.split option.split)
    then show ?thesis using p(2-4) by blast
  qed
qed


section \<open>A concrete bucket\<close>

text \<open>The log of \<open>wit_log\<close> with one batch of one item, and the default fork that refers to it.\<close>

definition wit_loc :: Location where
  "wit_loc = \<lparr>loc_Key = key_of_int 3, loc_Off = 0, loc_Len = 1\<rparr>"

definition wit_idx :: "(Key \<times> Location list) list bucketIndex" where
  "wit_idx = \<lparr>bi_Log = \<lparr>wr_path = [''idx.log''], wr_sync = False\<rparr>, bi_Mem = Index_Set alist_btree wit_loc (Index_zero alist_btree)\<rparr>"

definition wit_bucket :: "(Key \<times> Location list) list bucket" where
  "wit_bucket = \<lparr>b_dir = [], b_key = key_of_int 0, b_log = wit_log, b_opts = DefaultOptions, b_indexes = [('''', wit_idx)]\<rparr>"

definition wit_bucket_world :: world where
  "wit_bucket_world = \<lparr>w_fs = [([], Dir), ([''dat.log''], File (log_mmap wit_log)), ([''idx.log''], File (enc_recs [(wit_loc, 1)]))], w_faults = []\<rparr>"

lemma wit_good: "good_loc wit_log wit_loc" "batch_of wit_log wit_loc = [wit_item 3]"
proof -
  show "good_loc wit_log wit_loc"
    unfolding good_loc_def using wit_stored
    by (auto simp: wit_loc_def keys_of_def wit_item_def intro!: exI [of _ "[wit_item 3]"])
  show "batch_of wit_log wit_loc = [wit_item 3]"
    using wit_stored by (intro batch_of_stored) (simp_all add: wit_loc_def)
qed

lemma wit_index_ok: "index_ok alist_btree wit_log (bi_Mem wit_idx)"
  using alist_index.Set_items(1) [of wit_log "Index_zero alist_btree" wit_loc] wit_good
  by (simp add: wit_idx_def index_ok_def)

lemma wit_bucket_ok: "bucket_ok alist_btree [wit_item 3] wit_bucket wit_bucket_world"
proof -
  have "locs_at alist_btree (bi_Mem wit_idx) = apply_rec wit_loc (\<lambda>_. [])"
    by (auto simp: wit_idx_def alist_index.locs_at_Set apply_rec_def wit_loc_def)
  then have wal: "wal_ok alist_btree wit_bucket_world wit_idx"
    unfolding wal_ok_def
    by (intro exI [of _ "[(wit_loc, 1)]"])
      (simp add: wit_idx_def wit_bucket_world_def file_at_def node_at_def rec_ok_def wit_loc_def)
  have p: "wr_path (bi_Log wit_idx) = [''idx.log'']" "log_path wit_log = [''dat.log'']"
    by (simp_all add: wit_idx_def wit_log_def)
  show ?thesis
    using wit_rep wit_index_ok wal p
    by (simp add: bucket_ok_def fork_ok_def wit_bucket_def wit_bucket_world_def log_on_disk_def file_at_def node_at_def
        idxPath_def dataLogName_def)
qed

lemma wit_fork_items: "mset (fork_items alist_btree wit_bucket '''') = {#wit_item 3#}"
  using alist_index.Set_items(2) [of wit_log "Index_zero alist_btree" wit_loc] wit_good
  by (simp add: fork_items_def wit_bucket_def wit_idx_def index_ok_def mset_index_items)

lemma wit_fork_items_list: "fork_items alist_btree wit_bucket '''' = [wit_item 3]"
  using wit_fork_items by simp

lemma wit_has_fork: "map_of (b_indexes wit_bucket) '''' \<noteq> None"
  by (simp add: wit_bucket_def)


theorem bucket_Read_peek_witness:
  "bucket_Read alist_btree 5 '''' (\<lambda>xs. (ReadOpPeek, Some ErrBadOffset)) wit_bucket wit_bucket_world =
     (Ret (Some ErrBadOffset, Some [wit_item 3]), wit_bucket, wit_bucket_world)"
proof -
  obtain items rest where r: "bucket_Read alist_btree 5 '''' (\<lambda>xs. (ReadOpPeek, Some ErrBadOffset)) wit_bucket wit_bucket_world =
      (Ret (Some ErrBadOffset, Some items), wit_bucket, wit_bucket_world)" "length items = 1"
    "mset [wit_item 3] = mset items + mset rest"
    using bucket_Read_peek [OF alist_index.index_btree_axioms wit_bucket_ok wit_has_fork, of 5 "\<lambda>xs. (ReadOpPeek, Some ErrBadOffset)"]
    by (auto simp: wit_fork_items_list)
  then obtain x where "items = [x]" by (cases items) auto
  then show ?thesis using r by (auto simp: add_mset_eq_single)
qed


end
