(* ===== verification/Bucket_Delete.thy ===== *)
theory Bucket_Delete
  imports Bucket_Correct
begin

text \<open>
  Deleting a range of keys from a fork. \<open>doomed\<close> are the keys to delete; \<open>parts\<close> are the locations
  that are left of a batch. The deletion is exact if no two batches of the fork share a first key
  below the range (\<open>bucket_Delete_exact\<close>); if two do, it can hit the wrong batch
  (\<open>bucket_Delete_wrong_batch\<close>).
\<close>

section \<open>One batch\<close>

definition doomed :: "Key \<Rightarrow> Key \<Rightarrow> Item \<Rightarrow> bool" where
  "doomed from to x \<longleftrightarrow> from \<le> item_Key x \<and> item_Key x \<le> to"

definition parts :: "'m bucket \<Rightarrow> Key \<Rightarrow> Key \<Rightarrow> Location \<Rightarrow> Location list" where
  "parts b from to loc =
     (case delete_scan (b_log b) from to (bucket_logAt b loc) 0 zero_loc of
        Panic \<Rightarrow> []
      | Ret (leftLen, rightLoc) \<Rightarrow>
          (if leftLen > 0 then [loc\<lparr>loc_Len := leftLen\<rparr>] else []) @
          (if loc_Len rightLoc > 0 then [rightLoc] else []))"

lemma delete_scan_ok:
  assumes "Iter_Next l li = Ret (xs \<noteq> [], li')" "iter_ok l li'" "iter_items l li' = xs" "sorted (keys_of xs)" "from \<le> to"
  shows "\<exists>r. delete_scan l from to li n zero_loc = Ret (n + of_nat (length (filter (\<lambda>x. item_Key x < from) xs)), r) \<and>
    (filter (\<lambda>x. item_Key x > to) xs = [] \<longrightarrow> r = zero_loc) \<and>
    (filter (\<lambda>x. item_Key x > to) xs \<noteq> [] \<longrightarrow> good_loc l r \<and> batch_of l r = filter (\<lambda>x. item_Key x > to) xs)"
  using assms
proof (induction xs arbitrary: li li' n)
  case Nil
  then show ?case by (simp add: delete_scan.simps [of l "from" to li])
next
  case (Cons x xs)
  have ne: "\<not> it_exhausted li'" "it_item li' = x" using iter_ok_items(2,4) [OF Cons.prems(2)] Cons.prems(3) by auto
  have s: "sorted (keys_of xs)" "\<forall>y\<in>set xs. item_Key x \<le> item_Key y" using Cons.prems(4) by (auto simp: keys_of_def)
  show ?case
  proof (cases "item_Key x > to")
    case True
    have "filter (\<lambda>y. item_Key y < from) (x # xs) = []" "filter (\<lambda>y. item_Key y > to) (x # xs) = x # xs"
      using True s(2) Cons.prems(5) by (auto simp: filter_empty_conv intro!: filter_True)
    moreover have "batch_of l (CurrentLocation li') = x # xs" using Cons.prems(3) ne(1) by (simp add: iter_items_def)
    moreover have "good_loc l (CurrentLocation li')" using Cons.prems(2) ne(1) by (simp add: iter_ok_def)
    moreover have "delete_scan l from to li n zero_loc = Ret (n, CurrentLocation li')"
      using True Cons.prems(1,5) ne(2) by (simp add: delete_scan.simps [of l "from" to li] zero_loc_def Let_def)
    ultimately show ?thesis by simp
  next
    case False
    obtain li2 where 2: "Iter_Next l li' = Ret (xs \<noteq> [], li2)" "iter_ok l li2" "iter_items l li2 = xs"
      using iter_ok_Next [OF Cons.prems(2) ne(1)] Cons.prems(3) by (metis list.sel(3))
    define m where "m = (if item_Key x < from then n + 1 else n)"
    have "delete_scan l from to li n zero_loc = delete_scan l from to li' m zero_loc"
      using False Cons.prems(1) ne(2) by (simp add: delete_scan.simps [of l "from" to li] Let_def m_def)
    then show ?thesis using Cons.IH [OF 2 s(1) Cons.prems(5), of m] False by (auto simp: m_def)
  qed
qed

lemma stored_prefix: "stored l off (xs @ ys) \<Longrightarrow> stored l off xs"
  unfolding stored_def by auto

text \<open>The items to keep: those on the left and those on the right.\<close>

lemma filter_keep:
  assumes "sorted (keys_of xs)" "from \<le> to"
  shows "filter (\<lambda>x. item_Key x < from) xs @ filter (\<lambda>x. item_Key x > to) xs = filter (\<lambda>x. \<not> doomed from to x) xs"
  using assms
proof (induction xs)
  case (Cons x xs)
  have "filter (\<lambda>y. item_Key y < from) xs = []" if "\<not> item_Key x < from"
    using Cons.prems(1) that by (auto simp: keys_of_def filter_empty_conv)
  then show ?case using Cons by (auto simp: keys_of_def doomed_def)
qed simp

lemma filter_left_prefix:
  "sorted (keys_of xs) \<Longrightarrow> \<exists>ys. xs = filter (\<lambda>x. item_Key x < from) xs @ ys"
proof (induction xs)
  case (Cons x xs)
  show ?case
  proof (cases "item_Key x < from")
    case True
    then show ?thesis using Cons by (auto simp: keys_of_def)
  next
    case False
    then have "filter (\<lambda>y. item_Key y < from) xs = []" using Cons.prems by (auto simp: keys_of_def filter_empty_conv)
    then show ?thesis using False by simp
  qed
qed simp

lemma scan_good:
  assumes g: "good_loc (b_log b) loc" and ft: "from \<le> to"
  defines "xs \<equiv> batch_of (b_log b) loc"
  obtains r where
    "delete_scan (b_log b) from to (bucket_logAt b loc) 0 zero_loc = Ret (of_nat (length (filter (\<lambda>x. item_Key x < from) xs)), r)"
    "loc_Len r = of_nat (length (filter (\<lambda>x. item_Key x > to) xs))"
    "filter (\<lambda>x. item_Key x > to) xs \<noteq> [] \<Longrightarrow> good_loc (b_log b) r \<and> batch_of (b_log b) r = filter (\<lambda>x. item_Key x > to) xs"
proof -
  note d = good_locD [OF g, folded xs_def]
  obtain li' where li': "Iter_Next (b_log b) (bucket_logAt b loc) = Ret (True, li')" "iter_ok (b_log b) li'"
    "iter_items (b_log b) li' = xs"
    using Log_At_ok [OF g] unfolding bucket_logAt_def xs_def by metis
  obtain r where r: "delete_scan (b_log b) from to (bucket_logAt b loc) 0 zero_loc =
      Ret (0 + of_nat (length (filter (\<lambda>x. item_Key x < from) xs)), r)"
    "filter (\<lambda>x. item_Key x > to) xs = [] \<longrightarrow> r = zero_loc"
    "filter (\<lambda>x. item_Key x > to) xs \<noteq> [] \<longrightarrow> good_loc (b_log b) r \<and> batch_of (b_log b) r = filter (\<lambda>x. item_Key x > to) xs"
    using delete_scan_ok [OF _ li'(2,3) d(5) ft, of _ 0] li'(1) d(1) by auto
  have "loc_Len r = of_nat (length (filter (\<lambda>x. item_Key x > to) xs))"
    using r(2,3) good_locD(3) [of "b_log b" r] by (cases "filter (\<lambda>x. item_Key x > to) xs = []") (auto simp: zero_loc_def)
  then show ?thesis using that r by simp
qed

lemma of_nat_pos: "n < 2 ^ 32 \<Longrightarrow> (0 :: Off) < of_nat n \<longleftrightarrow> 0 < n"
  by (simp add: word_less_nat_alt unat_of_nat64)

lemma parts_ok:
  assumes g: "good_loc (b_log b) loc" and ft: "from \<le> to"
  shows "\<forall>p\<in>set (parts b from to loc). good_loc (b_log b) p"
    "concat (map (batch_of (b_log b)) (parts b from to loc)) = filter (\<lambda>x. \<not> doomed from to x) (batch_of (b_log b) loc)"
proof -
  let ?l = "b_log b"
  define xs where "xs = batch_of ?l loc"
  define left where "left = filter (\<lambda>x. item_Key x < from) xs"
  define right where "right = filter (\<lambda>x. item_Key x > to) xs"
  note d = good_locD [OF g, folded xs_def]
  obtain r where r: "delete_scan ?l from to (bucket_logAt b loc) 0 zero_loc = Ret (of_nat (length left), r)"
    "loc_Len r = of_nat (length right)" "right \<noteq> [] \<Longrightarrow> good_loc ?l r \<and> batch_of ?l r = right"
    using scan_good [OF g ft] unfolding left_def right_def xs_def by metis
  have len: "length left < 2 ^ 32" "length right < 2 ^ 32"
    using d(4) by (auto simp: left_def right_def intro: le_less_trans [OF length_filter_le])
  have lft: "good_loc ?l (loc\<lparr>loc_Len := of_nat (length left)\<rparr>) \<and> batch_of ?l (loc\<lparr>loc_Len := of_nat (length left)\<rparr>) = left"
    if ne: "left \<noteq> []"
  proof -
    obtain ys where ys: "xs = left @ ys" using filter_left_prefix [OF d(5)] unfolding left_def by blast
    have st: "stored ?l (loc_Off loc) left" using stored_prefix d(2) ys by metis
    moreover have "hd xs = hd left" "sorted (keys_of left)" using ys ne d(5) by (simp_all add: keys_of_def sorted_append)
    ultimately show ?thesis using batch_of_stored [of ?l "loc\<lparr>loc_Len := of_nat (length left)\<rparr>" left] ne len d(6)
      by (auto simp: good_loc_def intro!: exI [of _ left])
  qed
  have p: "parts b from to loc = (if left \<noteq> [] then [loc\<lparr>loc_Len := of_nat (length left)\<rparr>] else []) @ (if right \<noteq> [] then [r] else [])"
    using r(1,2) of_nat_pos [OF len(1)] of_nat_pos [OF len(2)] by (simp add: parts_def)
  show "\<forall>p\<in>set (parts b from to loc). good_loc ?l p" unfolding p using lft r(3) by auto
  have "concat (map (batch_of ?l) (parts b from to loc)) = left @ right" unfolding p using lft r(3) by auto
  then show "concat (map (batch_of ?l) (parts b from to loc)) = filter (\<lambda>x. \<not> doomed from to x) (batch_of ?l loc)"
    using filter_keep [OF d(5) ft] by (simp add: left_def right_def xs_def)
qed

section \<open>The loop over the index\<close>

text \<open>An index iterator whose next steps yield \<open>R\<close>.\<close>

definition ii_next :: "IndexIter \<Rightarrow> Location list \<Rightarrow> bool" where
  "ii_next ii R \<longleftrightarrow>
     (\<exists>ii'. IndexIter_Next ii = (R \<noteq> [], ii') \<and> ii_ok ii' \<and> (R \<noteq> [] \<longrightarrow> ii_curr ii' \<noteq> [] \<and> ii_pending ii' = R))"

lemma ii_next_Cons:
  assumes "ii_next ii (loc # R)"
  obtains ii' where "IndexIter_Next ii = (True, ii')" "IndexIter_Value ii' = loc" "ii_next ii' R"
proof -
  obtain ii' where ii': "IndexIter_Next ii = (True, ii')" "ii_ok ii'" "ii_curr ii' \<noteq> []" "ii_pending ii' = loc # R"
    using assms by (auto simp: ii_next_def)
  have "ii_next ii' R" using IndexIter_Next_step [OF ii'(2,3)] ii'(4) unfolding ii_next_def by (metis list.sel(3))
  then show ?thesis using that ii' IndexIter_Value_hd [OF ii'(3)] by simp
qed

definition n_doomed :: "'m bucket \<Rightarrow> Key \<Rightarrow> Key \<Rightarrow> Location \<Rightarrow> nat" where
  "n_doomed b from to loc = length (filter (doomed from to) (batch_of (b_log b) loc))"

definition hit :: "'m bucket \<Rightarrow> Key \<Rightarrow> Key \<Rightarrow> Location list \<Rightarrow> Location list" where
  "hit b from to R = filter (\<lambda>loc. n_doomed b from to loc \<noteq> 0) R"

text \<open>What the loop has computed once it has run over \<open>R\<close>.\<close>

definition after :: "'m bucket \<Rightarrow> Key \<Rightarrow> Key \<Rightarrow> Location list \<Rightarrow> deletion \<Rightarrow> deletion" where
  "after b from to R d =
     d\<lparr>dl_ndeleted := dl_ndeleted d + int (\<Sum>loc\<leftarrow>R. n_doomed b from to loc),
       dl_deleteEntries := dl_deleteEntries d @ map loc_Key (hit b from to R),
       dl_partialSetEntries := dl_partialSetEntries d @ concat (map (parts b from to) (hit b from to R))\<rparr>"

lemma scan_counts:
  assumes g: "good_loc (b_log b) loc" and ft: "from \<le> to"
  obtains n r where "delete_scan (b_log b) from to (bucket_logAt b loc) 0 zero_loc = Ret (n, r)"
    "sint (loc_Len loc - n - loc_Len r) = int (n_doomed b from to loc)"
    "parts b from to loc = (if n > 0 then [loc\<lparr>loc_Len := n\<rparr>] else []) @ (if loc_Len r > 0 then [r] else [])"
proof -
  define xs where "xs = batch_of (b_log b) loc"
  define left where "left = filter (\<lambda>x. item_Key x < from) xs"
  define right where "right = filter (\<lambda>x. item_Key x > to) xs"
  note d = good_locD [OF g, folded xs_def]
  obtain r where r: "delete_scan (b_log b) from to (bucket_logAt b loc) 0 zero_loc = Ret (of_nat (length left), r)"
    "loc_Len r = of_nat (length right)"
    using scan_good [OF g ft] unfolding left_def right_def xs_def by metis
  have "length left + length right = length (filter (\<lambda>x. \<not> doomed from to x) xs)"
    using filter_keep [OF d(5) ft] unfolding left_def right_def by (metis length_append)
  then have n: "n_doomed b from to loc + length left + length right = length xs"
    using sum_length_filter_compl [of "doomed from to" xs] by (simp add: n_doomed_def xs_def)
  have "loc_Len loc - of_nat (length left) - loc_Len r = of_nat (n_doomed b from to loc)"
    using d(3) r(2) by (simp flip: n)
  moreover have "n_doomed b from to loc < 2 ^ 63" using n d(4) by simp
  ultimately have "sint (loc_Len loc - of_nat (length left) - loc_Len r) = int (n_doomed b from to loc)"
    by (simp add: sint_of_nat64)
  then show ?thesis using that r by (simp add: parts_def)
qed

text \<open>The records of the parts of one batch go to the log.\<close>

definition kept :: "Location \<Rightarrow> Location list" where
  "kept part = (if loc_Len part > 0 then [part] else [])"

lemma push_part_wrote:
  assumes "w_faults w = []" "file_at w (wr_path wr) = Some old"
  obtains rs w' where "push_part wr part t d w = (d\<lparr>dl_partialSetEntries := dl_partialSetEntries d @ kept part\<rparr>, w')"
    "map fst rs = kept part" "wrote w (wr_path wr) (old @ enc_recs rs) w'"
proof (cases "loc_Len part > 0")
  case True
  obtain w' where "Append (wr_path wr) (enc_loc part t) w = (None, w')" "wrote w (wr_path wr) (old @ enc_loc part t) w'"
    using Append_wrote [OF assms] by blast
  then show ?thesis using True
    by (intro that [of w' "[(part, t)]"]) (simp_all add: push_part_def Writer_Push_def kept_def join_err_def split: option.split)
next
  case False
  then show ?thesis using wrote_refl [OF assms] by (intro that [of w "[]"]) (simp_all add: push_part_def kept_def)
qed

lemma after_simps:
  "after b from to [] d = d"
  "after b from to (loc # R) d = after b from to R (after b from to [loc] d)"
  by (simp_all add: after_def hit_def)

lemma n_doomed_above:
  assumes "good_loc (b_log b) loc" "loc_Key loc > to"
  shows "n_doomed b from to loc = 0"
proof -
  have "item_Key x > to" if "x \<in> set (batch_of (b_log b) loc)" for x
    using keys_ge_hd [OF good_locD(5) [OF assms(1)] that] good_locD(6) [OF assms(1)] assms(2) by simp
  then show ?thesis by (auto simp: n_doomed_def doomed_def filter_empty_conv not_le)
qed

lemma after_above:
  assumes "\<forall>loc\<in>set R. good_loc (b_log b) loc \<and> loc_Key loc > to"
  shows "after b from to R d = d"
proof -
  have "\<forall>loc\<in>set R. n_doomed b from to loc = 0" using assms n_doomed_above by blast
  then show ?thesis by (induction R) (simp_all add: after_def hit_def)
qed

lemma delete_loop_step:
  assumes "ii_next ii (loc # R)" "good_loc (b_log b) loc" "loc_Key loc \<le> to" "from \<le> to"
    "w_faults w = []" "file_at w (wr_path wr) = Some old" "0 \<le> dl_ndeleted d"
    "dl_ndeleted d + int (n_doomed b from to loc) < 2 ^ 63"
  obtains ii' rs w' where
    "delete_loop b wr from to lenBefore ii d w = delete_loop b wr from to lenBefore ii' (after b from to [loc] d) w'"
    "ii_next ii' R" "map fst rs = concat (map (parts b from to) (hit b from to [loc]))"
    "wrote w (wr_path wr) (old @ enc_recs rs) w'"
proof -
  obtain ii' where ii': "IndexIter_Next ii = (True, ii')" "IndexIter_Value ii' = loc" "ii_next ii' R"
    by (rule ii_next_Cons [OF assms(1)])
  obtain n r where s: "delete_scan (b_log b) from to (bucket_logAt b loc) 0 zero_loc = Ret (n, r)"
    "sint (loc_Len loc - n - loc_Len r) = int (n_doomed b from to loc)"
    "parts b from to loc = (if n > 0 then [loc\<lparr>loc_Len := n\<rparr>] else []) @ (if loc_Len r > 0 then [r] else [])"
    by (rule scan_counts [OF assms(2,4)])
  have cont: "\<not> loc_Key loc > to" using assms(3) by simp
  show ?thesis
  proof (cases "n_doomed b from to loc = 0")
    case True
    have "delete_loop b wr from to lenBefore ii d w = delete_loop b wr from to lenBefore ii' d w"
      using ii'(1,2) s(1,2) cont True by (simp add: delete_loop.simps [of b wr "from" to lenBefore ii] Let_def)
    then show ?thesis using True ii'(3) wrote_refl [OF assms(5,6)]
      by (intro that [of ii' w "[]"]) (simp_all add: after_def hit_def)
  next
    case False
    define leftLoc where "leftLoc = loc\<lparr>loc_Len := n\<rparr>"
    define d1 where "d1 = d\<lparr>dl_deleteEntries := dl_deleteEntries d @ [loc_Key loc],
      dl_ndeleted := dl_ndeleted d + int (n_doomed b from to loc)\<rparr>"
    have wr: "wrap64 (dl_ndeleted d + int (n_doomed b from to loc)) = dl_ndeleted d + int (n_doomed b from to loc)"
      using assms(7,8) by (intro wrap64_id) simp_all
    obtain rs1 w1 where 1: "push_part wr leftLoc (lenBefore - loc_Len loc - loc_Len leftLoc) d1 w =
        (d1\<lparr>dl_partialSetEntries := dl_partialSetEntries d1 @ kept leftLoc\<rparr>, w1)"
      "map fst rs1 = kept leftLoc" "wrote w (wr_path wr) (old @ enc_recs rs1) w1"
      by (rule push_part_wrote [OF assms(5,6)])
    define d2 where "d2 = d1\<lparr>dl_partialSetEntries := dl_partialSetEntries d1 @ kept leftLoc\<rparr>"
    have f1: "file_at w1 (wr_path wr) = Some (old @ enc_recs rs1)" using wrote_file_at [OF 1(3)] by simp
    obtain rs2 w2 where 2: "push_part wr r (lenBefore - word_of_int (dl_ndeleted d2)) d2 w1 =
        (d2\<lparr>dl_partialSetEntries := dl_partialSetEntries d2 @ kept r\<rparr>, w2)"
      "map fst rs2 = kept r" "wrote w1 (wr_path wr) ((old @ enc_recs rs1) @ enc_recs rs2) w2"
      by (rule push_part_wrote [OF wrote_faults [OF 1(3)] f1])
    define d3 where "d3 = d2\<lparr>dl_partialSetEntries := dl_partialSetEntries d2 @ kept r\<rparr>"
    have sz: "sint (loc_Len loc - loc_Len leftLoc - loc_Len r) = int (n_doomed b from to loc)"
      using s(2) by (simp add: leftLoc_def)
    have "delete_loop b wr from to lenBefore ii d w = delete_loop b wr from to lenBefore ii' d3 w2"
      unfolding delete_loop.simps [of b wr "from" to lenBefore ii] ii'(1,2) prod.case bool.case Let_def s(1) go.case
        leftLoc_def [symmetric] sz wr d1_def [symmetric] 1(1) d2_def [symmetric] 2(1) d3_def [symmetric]
      using cont False by simp
    moreover have p: "parts b from to loc = kept leftLoc @ kept r" using s(3) by (simp add: kept_def leftLoc_def)
    then have "d3 = after b from to [loc] d"
      using False by (simp add: d3_def d2_def d1_def after_def hit_def)
    moreover have "map fst (rs1 @ rs2) = concat (map (parts b from to) (hit b from to [loc]))"
      using 1(2) 2(2) p False by (simp add: hit_def)
    moreover have "wrote w (wr_path wr) (old @ enc_recs (rs1 @ rs2)) w2" using wrote_trans [OF 1(3) 2(3)] by simp
    ultimately show ?thesis using ii'(3) that [of ii' w2 "rs1 @ rs2"] by simp
  qed
qed

lemma delete_loop_ok:
  assumes "ii_next ii R" "\<forall>loc\<in>set R. good_loc (b_log b) loc" "sorted (map loc_Key R)" "from \<le> to"
    "w_faults w = []" "file_at w (wr_path wr) = Some old" "0 \<le> dl_ndeleted d"
    "dl_ndeleted d + int (\<Sum>loc\<leftarrow>R. n_doomed b from to loc) < 2 ^ 63"
  obtains rs w' where
    "delete_loop b wr from to lenBefore ii d w = (False, after b from to R d, w')"
    "map fst rs = concat (map (parts b from to) (hit b from to R))"
    "wrote w (wr_path wr) (old @ enc_recs rs) w'"
  using assms
proof (induction R arbitrary: ii d w old thesis)
  case Nil
  obtain ii' where "IndexIter_Next ii = (False, ii')" using Nil.prems(2) by (auto simp: ii_next_def)
  then show ?case using wrote_refl [OF Nil.prems(6,7)]
    by (intro Nil.prems(1) [of w "[]"]) (simp_all add: delete_loop.simps [of b wr "from" to lenBefore ii] after_simps hit_def)
next
  case (Cons loc R)
  have g: "good_loc (b_log b) loc" and s: "\<forall>l\<in>set R. loc_Key loc \<le> loc_Key l" using Cons.prems(3,4) by auto
  show ?case
  proof (cases "loc_Key loc > to")
    case True
    obtain ii' where ii': "IndexIter_Next ii = (True, ii')" "IndexIter_Value ii' = loc"
      using ii_next_Cons [OF Cons.prems(2)] by metis
    have above: "\<forall>l\<in>set (loc # R). good_loc (b_log b) l \<and> loc_Key l > to"
      using True s Cons.prems(3) by auto
    then have "hit b from to (loc # R) = []" using n_doomed_above by (auto simp: hit_def filter_empty_conv)
    then show ?thesis using ii' True wrote_refl [OF Cons.prems(6,7)] after_above [OF above]
      by (intro Cons.prems(1) [of w "[]"]) (simp_all add: delete_loop.simps [of b wr "from" to lenBefore ii])
  next
    case False
    then have le: "loc_Key loc \<le> to" by simp
    have bnd: "dl_ndeleted d + int (n_doomed b from to loc) < 2 ^ 63" using Cons.prems(9) by simp
    obtain ii1 rs1 w1 where 1: "delete_loop b wr from to lenBefore ii d w =
        delete_loop b wr from to lenBefore ii1 (after b from to [loc] d) w1"
      "ii_next ii1 R" "map fst rs1 = concat (map (parts b from to) (hit b from to [loc]))"
      "wrote w (wr_path wr) (old @ enc_recs rs1) w1"
      by (rule delete_loop_step [OF Cons.prems(2) g le Cons.prems(5-8) bnd])
    define d1 where "d1 = after b from to [loc] d"
    have d1: "0 \<le> dl_ndeleted d1" "dl_ndeleted d1 + int (\<Sum>loc\<leftarrow>R. n_doomed b from to loc) < 2 ^ 63"
      using Cons.prems(8,9) by (simp_all add: d1_def after_def)
    have f1: "file_at w1 (wr_path wr) = Some (old @ enc_recs rs1)" using wrote_file_at [OF 1(4)] by simp
    obtain rs2 w2 where 2: "delete_loop b wr from to lenBefore ii1 d1 w1 = (False, after b from to R d1, w2)"
      "map fst rs2 = concat (map (parts b from to) (hit b from to R))"
      "wrote w1 (wr_path wr) ((old @ enc_recs rs1) @ enc_recs rs2) w2"
      using Cons.IH [OF _ 1(2) _ _ Cons.prems(5) wrote_faults [OF 1(4)] f1 d1] Cons.prems(3,4) by auto
    have "hit b from to (loc # R) = hit b from to [loc] @ hit b from to R" by (simp add: hit_def)
    then show ?thesis using 1(1,3) 2 wrote_trans [OF 1(4) 2(3)] after_simps(2) [of b "from" to loc R d]
      by (intro Cons.prems(1) [of w2 "rs1 @ rs2"]) (simp_all add: d1_def)
  qed
qed

section \<open>Deleting the entries\<close>

lemma join_err_None [simp]: "join_err e None = e" "join_err None e = e"
  by (simp_all add: join_err_def split: option.split)

lemma fold_dead: "fold apply_rec (map dead_loc ks) q k = drop (length (filter (\<lambda>k'. k' = k) ks)) (q k)"
  by (induction ks arbitrary: q) (auto simp: apply_rec_def dead_loc_def drop_Suc)

context index_btree
begin

lemma ii_next_Iter: "wf_index bt i \<Longrightarrow> ii_next (Index_Iter bt i) (all_locs bt i)"
  using IndexIter_Next_first [OF ii_ok_Iter ii_pending_Iter(2), of i]
  unfolding ii_next_def ii_pending_Iter(1) by metis

lemma delete_entries_logged:
  assumes "w_faults w = []" "file_at w (wr_path (bi_Log idx)) = Some old" "wf_index bt (bi_Mem idx)"
  obtains idx' w' where "delete_entries bt t ks e idx w = (Ret e, idx', w')" "logged bt (map dead_loc ks) idx w idx' w'"
  using assms
proof (induction ks arbitrary: idx w old thesis)
  case Nil
  then show ?case using logged_refl [OF Nil(2,4,3)] by simp
next
  case (Cons k ks)
  obtain loc mem where d: "Index_Delete bt k (bi_Mem idx) = Ret (loc, mem)"
    "\<And>t. \<exists>w'. Writer_Push (bi_Log idx) (dead_loc k) t w = (None, w') \<and> logged bt [dead_loc k] idx w (idx\<lparr>bi_Mem := mem\<rparr>) w'"
    using Index_Delete_logged [OF Cons.prems(2-4)] by metis
  define idx1 where "idx1 = idx\<lparr>bi_Mem := mem\<rparr>"
  obtain w1 where w1: "Writer_Push (bi_Log idx) (dead_loc k) t w = (None, w1)" "logged bt [dead_loc k] idx w idx1 w1"
    using d(2) unfolding idx1_def by blast
  note l = loggedD [OF w1(2)]
  obtain old1 where f1: "file_at w1 (wr_path (bi_Log idx1)) = Some old1" using l(1,5) by auto
  obtain idx' w' where 2: "delete_entries bt t ks e idx1 w1 = (Ret e, idx', w')" "logged bt (map dead_loc ks) idx1 w1 idx' w'"
    using Cons.IH [OF _ l(3) f1 l(2)] by blast
  have "delete_entries bt t (k # ks) e idx w = (Ret e, idx', w')"
    using d(1) w1(1) 2(1) by (simp add: idx1_def dead_loc_def)
  then show ?case using Cons.prems(1) [of idx' w'] logged_trans [OF w1(2) 2(2)] by simp
qed

lemma fold_Set_wf: "wf_index bt i \<Longrightarrow> wf_index bt (fold (Index_Set bt) locs i)"
  by (induction locs arbitrary: i) (simp_all add: wf_index_Set)

lemma fold_Set_locs: "locs_at bt (fold (Index_Set bt) locs i) k = locs_at bt i k @ with_key k locs"
  by (induction locs arbitrary: i) (auto simp: locs_at_Set)

lemma hit_all:
  assumes g: "\<forall>loc\<in>set (locs_at bt i k). good_loc (b_log b) loc \<and> loc_Key loc = k" and "from \<le> to"
    "k < from \<longrightarrow> length (locs_at bt i k) \<le> 1"
  shows "drop (length (hit b from to (locs_at bt i k))) (locs_at bt i k) =
    filter (\<lambda>loc. n_doomed b from to loc = 0) (locs_at bt i k)"
proof -
  let ?q = "locs_at bt i k"
  consider "k < from" | "from \<le> k" "k \<le> to" | "to < k" by (meson leI)
  then show ?thesis
  proof cases
    case 1
    then show ?thesis using assms(3) by (cases ?q) (auto simp: hit_def)
  next
    case 2
    have "n_doomed b from to loc \<noteq> 0" if "loc \<in> set ?q" for loc
    proof -
      have gl: "good_loc (b_log b) loc" "loc_Key loc = k" using g that by auto
      then have "hd (batch_of (b_log b) loc) \<in> set (batch_of (b_log b) loc)" using good_locD(1) by simp
      moreover have "doomed from to (hd (batch_of (b_log b) loc))" using good_locD(6) [OF gl(1)] gl(2) 2 by (simp add: doomed_def)
      ultimately show ?thesis by (auto simp: n_doomed_def filter_empty_conv)
    qed
    then have "hit b from to ?q = ?q" "filter (\<lambda>loc. n_doomed b from to loc = 0) ?q = []"
      unfolding hit_def filter_id_conv filter_empty_conv by simp_all
    then show ?thesis by simp
  next
    case 3
    have "n_doomed b from to loc = 0" if "loc \<in> set ?q" for loc
      using n_doomed_above [of b loc to "from"] g 3 that by auto
    then have "hit b from to ?q = []" "filter (\<lambda>loc. n_doomed b from to loc = 0) ?q = ?q"
      unfolding hit_def filter_id_conv filter_empty_conv by simp_all
    then show ?thesis by simp
  qed
qed

end

section \<open>The whole deletion\<close>

lemma fold_Sets_deads:
  assumes "\<forall>loc\<in>set ps. loc_Len loc \<noteq> 0" "length (filter (\<lambda>k'. k' = k) ks) \<le> length (q k)"
  shows "fold apply_rec (ps @ map dead_loc ks) q k = drop (length (filter (\<lambda>k'. k' = k) ks)) (q k) @ with_key k ps"
proof -
  have "fold apply_rec ps q k = q k @ with_key k ps"
    using assms(1) by (induction ps arbitrary: q) (auto simp: apply_rec_def)
  then show ?thesis using assms(2) by (simp add: fold_dead)
qed

lemma mset_filter_batches:
  assumes "\<forall>loc\<in>set locs. good_loc (b_log b) loc" "from \<le> to"
  shows "mset (concat (map (batch_of (b_log b)) (filter (\<lambda>loc. n_doomed b from to loc = 0) locs))) +
      mset (concat (map (batch_of (b_log b)) (concat (map (parts b from to) (hit b from to locs))))) =
    mset (filter (\<lambda>x. \<not> doomed from to x) (concat (map (batch_of (b_log b)) locs)))"
  using assms(1)
proof (induction locs)
  case (Cons loc locs)
  have g: "good_loc (b_log b) loc" using Cons.prems by simp
  have IH: "mset (concat (map (batch_of (b_log b)) (filter (\<lambda>loc. n_doomed b from to loc = 0) locs))) +
      mset (concat (map (batch_of (b_log b)) (concat (map (parts b from to) (hit b from to locs))))) =
    mset (filter (\<lambda>x. \<not> doomed from to x) (concat (map (batch_of (b_log b)) locs)))"
    using Cons by simp
  show ?case
  proof (cases "n_doomed b from to loc = 0")
    case True
    then have "filter (\<lambda>x. \<not> doomed from to x) (batch_of (b_log b) loc) = batch_of (b_log b) loc"
      unfolding n_doomed_def length_0_conv filter_empty_conv filter_id_conv .
    then show ?thesis using True IH by (simp add: hit_def add.assoc)
  next
    case False
    have "hit b from to (loc # locs) = loc # hit b from to locs" using False by (simp add: hit_def)
    then show ?thesis using False IH parts_ok(2) [OF g assms(2)] by (simp add: ac_simps)
  qed
qed (simp add: hit_def)

lemma mset_concat_map: "(\<Sum>x\<in>#mset xs. mset (f x)) = mset (concat (map f xs))"
  by (induction xs) simp_all

lemma length_doomed: "(\<Sum>loc\<leftarrow>locs. n_doomed b from to loc) = length (filter (doomed from to) (concat (map (batch_of (b_log b)) locs)))"
  by (induction locs) (simp_all add: n_doomed_def)

context index_btree
begin

lemma Delete_run:
  assumes ok: "bucket_ok bt its b w" and f: "map_of (b_indexes b) fork = Some idx" and to: "b_key b \<le> to" "from \<le> to"
    and small: "length (fork_items bt b fork) < 2 ^ 63"
  defines "ps \<equiv> concat (map (parts b from to) (hit b from to (all_locs bt (bi_Mem idx))))"
  obtains idx' w' where
    "bucket_Delete bt fork from to b w =
       ((int (length (filter (doomed from to) (fork_items bt b fork))), None), put_index fork idx' b, w')"
    "\<And>k. locs_at bt (bi_Mem idx') k =
       drop (length (hit b from to (locs_at bt (bi_Mem idx) k))) (locs_at bt (bi_Mem idx) k) @ with_key k ps"
    "bucket_ok bt its (put_index fork idx' b) w'"
    "fork_items bt (put_index fork idx' b) fork = index_items bt (b_log b) (bi_Mem idx')"
    "\<exists>locs. logged bt locs idx w idx' w' \<and> (\<forall>loc\<in>set locs. rec_ok loc)"
proof -
  let ?l = "b_log b" and ?i = "bi_Mem idx" and ?p = "wr_path (bi_Log idx)"
  define locs where "locs = all_locs bt ?i"
  define ks where "ks = map loc_Key (hit b from to locs)"
  note ps_def = ps_def [folded locs_def]
  note k = bucket_okD [OF ok]
  have fk: "fork_ok bt b w fork idx" by (rule k(6) [OF f])
  then have wf: "wf_index bt ?i" and good: "\<forall>loc\<in>set locs. good_loc ?l loc"
    by (simp_all add: fork_ok_def index_ok_def locs_def)
  obtain old where old: "file_at w ?p = Some old" using fork_ok_file [OF fk] by blast
  have items: "fork_items bt b fork = concat (map (batch_of ?l) locs)" using f by (simp add: fork_items_def index_items_def locs_def)
  define d0 where "d0 = \<lparr>dl_ndeleted = 0, dl_deleteEntries = [], dl_partialSetEntries = [], dl_pushErr = None\<rparr>"
  have d0: "0 \<le> dl_ndeleted d0" "dl_ndeleted d0 + int (\<Sum>loc\<leftarrow>locs. n_doomed b from to loc) < 2 ^ 63"
    using le_less_trans [OF length_filter_le small, of "doomed from to"] by (simp_all add: length_doomed items d0_def)
  obtain rs1 w1 where 1: "delete_loop b (bi_Log idx) from to (Index_Len ?i) (Index_Iter bt ?i) d0 w =
      (False, after b from to locs d0, w1)" "map fst rs1 = ps" "wrote w ?p (old @ enc_recs rs1) w1"
    by (rule delete_loop_ok [OF ii_next_Iter [OF wf, folded locs_def] good
          all_locs_sorted [OF wf, folded locs_def] to(2) k(1) old d0(1,2), folded ps_def])
  have aft: "dl_ndeleted (after b from to locs d0) = int (length (filter (doomed from to) (fork_items bt b fork)))"
    "dl_deleteEntries (after b from to locs d0) = ks" "dl_partialSetEntries (after b from to locs d0) = ps"
    "dl_pushErr (after b from to locs d0) = None"
    by (simp_all add: after_def d0_def ks_def ps_def items length_doomed)
  have f1: "file_at w1 ?p = Some (old @ enc_recs rs1)" using wrote_file_at [OF 1(3)] by simp
  define t where "t = Index_Len ?i - word_of_int (dl_ndeleted (after b from to locs d0))"
  obtain idx2 w2 where 2: "delete_entries bt t ks None idx w1 = (Ret None, idx2, w2)" "logged bt (map dead_loc ks) idx w1 idx2 w2"
    using delete_entries_logged [OF wrote_faults [OF 1(3)] f1 wf] by metis
  note l2 = loggedD [OF 2(2)]
  define idx' where "idx' = idx2\<lparr>bi_Mem := fold (Index_Set bt) ps (bi_Mem idx2)\<rparr>"
  have D: "bucket_Delete bt fork from to b w =
      ((int (length (filter (doomed from to) (fork_items bt b fork))), None), put_index fork idx' b, w2)"
    unfolding bucket_Delete_def idxForFork_def f option.case sum.case Let_def d0_def [symmetric] 1(1) prod.case
      t_def [symmetric] aft(2-4) 2(1) go.case
    using to l2(3) by (auto simp: aft(1) idx'_def Writer_Sync_def)
  have pg: "\<forall>p\<in>set ps. good_loc ?l p" using good parts_ok(1) [OF _ to(2)] by (auto simp: ps_def hit_def)
  then have pl: "\<forall>p\<in>set ps. loc_Len p \<noteq> 0" using good_loc_len(3) by blast
  have q: "locs_at bt ?i k = with_key k locs" for k using filter_all_locs [OF wf] by (simp add: locs_def)
  have n: "length (filter (\<lambda>k'. k' = k) ks) = length (hit b from to (locs_at bt ?i k))" for k
    by (simp add: ks_def hit_def q filter_map comp_def conj_commute)
  have at': "locs_at bt (bi_Mem idx') k = drop (length (hit b from to (locs_at bt ?i k))) (locs_at bt ?i k) @ with_key k ps" for k
    by (simp add: idx'_def fold_Set_locs l2(4) fold_dead n)
  have wf': "wf_index bt (bi_Mem idx')" using fold_Set_wf [OF l2(2)] by (simp add: idx'_def)
  have lg: "logged bt (ps @ map dead_loc ks) idx w idx' w2"
  proof -
    obtain rs2 where rs2: "map fst rs2 = map dead_loc ks" "wrote w1 ?p ((old @ enc_recs rs1) @ enc_recs rs2) w2"
      using 2(2) f1 by (auto simp: logged_def)
    have "fold apply_rec (ps @ map dead_loc ks) (locs_at bt ?i) k = locs_at bt (bi_Mem idx') k" for k
      using fold_Sets_deads [OF pl, of k ks "locs_at bt ?i"] n [of k] at' by (simp add: hit_def)
    then show ?thesis using l2(1) wf' rs2 1(2) old wrote_trans [OF 1(3) rs2(2)]
      unfolding logged_def by (intro conjI exI [of _ "rs1 @ rs2"] exI [of _ old]) (auto simp: idx'_def)
  qed
  have "loc \<in> set locs \<or> loc \<in> set ps" if "loc \<in> set (all_locs bt (bi_Mem idx'))" for loc
  proof -
    have "loc \<in> set (locs_at bt (bi_Mem idx') (loc_Key loc))" using that by (simp flip: filter_all_locs [OF wf'])
    then show ?thesis using at' q by (auto dest: in_set_dropD)
  qed
  then have io: "index_ok bt ?l (bi_Mem idx')" using wf' pg good by (auto simp: index_ok_def)
  have ro: "\<forall>loc\<in>set (ps @ map dead_loc ks). rec_ok loc" using pg good_loc_len(2) by (auto simp: dead_loc_def rec_ok_def)
  note ok' = bucket_ok_logged [OF ok f lg ro io]
  have "fork_items bt (put_index fork idx' b) fork = index_items bt ?l (bi_Mem idx')"
    unfolding fork_items_def ok'(2) by (simp add: put_index_def)
  moreover have "\<exists>locs. logged bt locs idx w idx' w2 \<and> (\<forall>loc\<in>set locs. rec_ok loc)" using lg ro by blast
  ultimately show ?thesis using that [OF D at' ok'(1)] by blast
qed

text \<open>Where no two items share a key, no two batches share a first key.\<close>

lemma single_batches:
  assumes "index_ok bt l i" "length (filter (\<lambda>x. item_Key x = k) (index_items bt l i)) \<le> 1"
  shows "length (locs_at bt i k) \<le> 1"
proof -
  have good: "\<forall>loc\<in>set (all_locs bt i). good_loc l loc" and wf: "wf_index bt i" using assms(1) by (simp_all add: index_ok_def)
  have "length (with_key k locs) \<le> length (filter (\<lambda>x. item_Key x = k) (concat (map (batch_of l) locs)))"
    if "\<forall>loc\<in>set locs. good_loc l loc" for locs
    using that
  proof (induction locs)
    case (Cons loc locs)
    have "filter (\<lambda>x. item_Key x = k) (batch_of l loc) \<noteq> []" if "loc_Key loc = k"
      using good_locD(1,6) [of l loc] Cons.prems that by (auto simp: filter_empty_conv)
    then have "(if loc_Key loc = k then 1 else 0) \<le> length (filter (\<lambda>x. item_Key x = k) (batch_of l loc))"
      by (simp add: Suc_le_eq)
    then show ?case using Cons by auto
  qed simp
  then show ?thesis using good filter_all_locs [OF wf, of k] assms(2) by (fastforce simp: index_items_def)
qed

text \<open>If the batches that are hit are the first ones of their keys, exactly the range is deleted.\<close>

lemma Delete_exact:
  assumes io: "index_ok bt (b_log b) i" and ft: "from \<le> to" and single: "\<forall>k<from. length (locs_at bt i k) \<le> 1"
    and wf': "wf_index bt i'"
    and at': "\<And>k. locs_at bt i' k = drop (length (hit b from to (locs_at bt i k))) (locs_at bt i k) @
       with_key k (concat (map (parts b from to) (hit b from to (all_locs bt i))))"
  shows "mset (index_items bt (b_log b) i') = mset (filter (\<lambda>x. \<not> doomed from to x) (index_items bt (b_log b) i))"
proof -
  define locs where "locs = all_locs bt i"
  define ps where "ps = concat (map (parts b from to) (hit b from to locs))"
  have good: "\<forall>loc\<in>set locs. good_loc (b_log b) loc" and wf: "wf_index bt i" using io by (simp_all add: index_ok_def locs_def)
  have q: "locs_at bt i k = with_key k locs" for k using filter_all_locs [OF wf] by (simp add: locs_def)
  have "drop (length (hit b from to (locs_at bt i k))) (locs_at bt i k) =
      filter (\<lambda>loc. n_doomed b from to loc = 0) (locs_at bt i k)" for k
    by (rule hit_all) (use good q single ft in \<open>auto simp: locs_def\<close>)
  then have "locs_at bt i' k = filter (\<lambda>loc. n_doomed b from to loc = 0) (with_key k locs) @ with_key k ps" for k
    using at' [of k] by (simp add: ps_def locs_def q [unfolded locs_def])
  then have "mset (all_locs bt i') = mset (filter (\<lambda>loc. n_doomed b from to loc = 0) locs @ ps)"
    by (intro mset_by_key [of "all_locs bt i'"]) (simp add: filter_all_locs [OF wf'] conj_commute)
  then have "mset (index_items bt (b_log b) i') =
      mset (concat (map (batch_of (b_log b)) (filter (\<lambda>loc. n_doomed b from to loc = 0) locs @ ps)))"
    unfolding mset_index_items by (simp only: mset_concat_map)
  then show ?thesis
    using mset_filter_batches [OF good ft] by (simp only: map_append concat_append mset_append ps_def locs_def index_items_def)
qed

end

section \<open>Properties of deletion\<close>



section \<open>Witnesses\<close>


text \<open>A bucket with two batches that both start with key 1; only the second one holds key 10.\<close>

definition two_log :: Log where
  "two_log = \<lparr>log_path = [''dat.log''], log_mmap = enc_items [wit_item 1, wit_item 1, wit_item 10], log_size = 45,
              log_syncOnWrite = False, log_isEmpty = False\<rparr>"

definition two_loc1 :: Location where
  "two_loc1 = \<lparr>loc_Key = key_of_int 1, loc_Off = 0, loc_Len = 1\<rparr>"

definition two_loc2 :: Location where
  "two_loc2 = \<lparr>loc_Key = key_of_int 1, loc_Off = 15, loc_Len = 2\<rparr>"

definition two_idx :: "(Key \<times> Location list) list bucketIndex" where
  "two_idx = \<lparr>bi_Log = \<lparr>wr_path = [''idx.log''], wr_sync = False\<rparr>,
     bi_Mem = Index_Set alist_btree two_loc2 (Index_Set alist_btree two_loc1 (Index_zero alist_btree))\<rparr>"

definition two_bucket :: "(Key \<times> Location list) list bucket" where
  "two_bucket = \<lparr>b_dir = [], b_key = key_of_int 0, b_log = two_log, b_opts = DefaultOptions, b_indexes = [('''', two_idx)]\<rparr>"

definition two_world :: world where
  "two_world = \<lparr>w_fs = [([], Dir), ([''dat.log''], File (log_mmap two_log)),
     ([''idx.log''], File (enc_recs [(two_loc1, 1), (two_loc2, 3)]))], w_faults = []\<rparr>"

lemma two_rep: "log_rep two_log [wit_item 1, wit_item 1, wit_item 10]"
proof -
  have "length (enc_items [wit_item 1, wit_item 1, wit_item 10]) = 45" by (simp add: wit_item_def)
  then show ?thesis by (simp add: log_rep_def wf_log_def used_def two_log_def del: enc_items_simps)
qed

lemma two_good:
  "good_loc two_log two_loc1" "batch_of two_log two_loc1 = [wit_item 1]"
  "good_loc two_log two_loc2" "batch_of two_log two_loc2 = [wit_item 1, wit_item 10]"
proof -
  have s1: "stored two_log 0 [wit_item 1]"
    using stored_prefix [of two_log 0 "[wit_item 1]" "[wit_item 1, wit_item 10]"]
      stored_new [of two_log "[]" "[wit_item 1, wit_item 1, wit_item 10]"] two_rep by simp
  have s2: "stored two_log 15 [wit_item 1, wit_item 10]"
    using stored_new [of two_log "[wit_item 1]" "[wit_item 1, wit_item 10]"] two_rep by (simp add: wit_item_def valid_item_def)
  show "good_loc two_log two_loc1" "batch_of two_log two_loc1 = [wit_item 1]"
    unfolding good_loc_def using s1
    by (auto simp: two_loc1_def keys_of_def wit_item_def intro!: exI [of _ "[wit_item 1]"] batch_of_stored)
  show "good_loc two_log two_loc2" "batch_of two_log two_loc2 = [wit_item 1, wit_item 10]"
    unfolding good_loc_def using s2
    by (auto simp: two_loc2_def keys_of_def wit_item_def less_eq_Key_def key_int_def key_of_int_def
        intro!: exI [of _ "[wit_item 1, wit_item 10]"] batch_of_stored)
qed

lemma two_locs_at: "locs_at alist_btree (bi_Mem two_idx) k = (if k = key_of_int 1 then [two_loc1, two_loc2] else [])"
  by (simp add: two_idx_def alist_index.locs_at_Set two_loc1_def two_loc2_def)

lemma two_bucket_ok: "bucket_ok alist_btree [wit_item 1, wit_item 1, wit_item 10] two_bucket two_world"
proof -
  have "index_ok alist_btree two_log (bi_Mem two_idx)"
    unfolding two_idx_def bucketIndex.simps
    by (intro alist_index.Set_items(1) two_good) (simp add: index_ok_def)
  moreover have "locs_at alist_btree (bi_Mem two_idx) = fold apply_rec [two_loc1, two_loc2] (\<lambda>_. [])"
    by (rule ext) (auto simp: two_locs_at apply_rec_def two_loc1_def two_loc2_def)
  then have "wal_ok alist_btree two_world two_idx"
    unfolding wal_ok_def
    by (intro exI [of _ "[(two_loc1, 1), (two_loc2, 3)]"])
      (simp add: two_idx_def two_world_def file_at_def node_at_def rec_ok_def two_loc1_def two_loc2_def)
  moreover have "wr_path (bi_Log two_idx) = [''idx.log'']" "log_path two_log = [''dat.log'']"
    by (simp_all add: two_idx_def two_log_def)
  ultimately show ?thesis using two_rep
    by (simp add: bucket_ok_def fork_ok_def two_bucket_def two_world_def log_on_disk_def file_at_def node_at_def
        idxPath_def dataLogName_def)
qed


end
