(* ===== verification/Bucket_Open.thy ===== *)
theory Bucket_Open
  imports Bucket_Correct
begin

text \<open>
  Opening, forking and removing forks. \<open>openBucket_reopen\<close>: opening the directory of a bucket gives
  back every fork with the items it had, from the index logs alone. \<open>openBucket_returns\<close>: the
  recursion of \<^verbatim>\<open>openBucket\<close> ends after at most two calls, whatever fails in between.
\<close>

section \<open>The number of entries of a loaded index\<close>

definition volume :: "(Location \<times> Trailer) list \<Rightarrow> nat" where
  "volume rs = (\<Sum>r\<leftarrow>rs. unat (loc_Len (fst r)))"

text \<open>
  The index log of the fork is not empty and the lengths in it do not overflow: the entry counter of
  the loaded index is not zero.
\<close>

definition live_log :: "world \<Rightarrow> 'm bucketIndex \<Rightarrow> bool" where
  "live_log w idx \<longleftrightarrow>
     (\<exists>rs. file_at w (wr_path (bi_Log idx)) = Some (enc_recs rs) \<and> (\<forall>(loc, t) \<in> set rs. rec_ok loc) \<and>
        0 < volume rs \<and> volume rs < 2 ^ 63)"

text \<open>What it means for a reopened index to be the one that was in memory.\<close>

definition same_index :: "'m ibtree \<Rightarrow> 'm bucket \<Rightarrow> ForkName \<Rightarrow> 'm bucketIndex \<Rightarrow> bool" where
  "same_index bt b fork idx' \<longleftrightarrow>
     wr_path (bi_Log idx') = idxPath (b_dir b) fork \<and> wf_index bt (bi_Mem idx') \<and>
     (\<exists>idx. map_of (b_indexes b) fork = Some idx \<and> locs_at bt (bi_Mem idx') = locs_at bt (bi_Mem idx))"

context index_btree
begin

text \<open>Entries plus length is twice the volume of the records, as each deletion moves the one to the other.\<close>

lemma Load_entries:
  assumes "wf_index bt i" "\<forall>(loc, t) \<in> set rs. rec_ok loc" "Load_loop bt (enc_recs rs) i = Ret (i', e)"
  shows "idx_nentries i' + idx_len i' = idx_nentries i + idx_len i + 2 * of_nat (volume rs) \<and>
    (\<Sum>loc\<leftarrow>all_locs bt i'. unat (loc_Len loc)) \<le> (\<Sum>loc\<leftarrow>all_locs bt i. unat (loc_Len loc)) + volume rs"
  using assms
proof (induction rs arbitrary: i)
  case Nil
  then show ?case by (simp add: Load_loop.simps [of _ "[]"] Reader_Next_def volume_def)
next
  case (Cons r rs)
  obtain loc t where r: "r = (loc, t)" by (cases r)
  have rd: "Reader_Next (enc_loc loc t @ enc_recs rs) = Ret (Inr (Some (loc, enc_recs rs)))"
    using Cons.prems(2) by (simp add: r Reader_Next_rec)
  have ok: "\<forall>(loc, t) \<in> set rs. rec_ok loc" using Cons.prems(2) by simp
  have v: "volume (r # rs) = unat (loc_Len loc) + volume rs" by (simp add: volume_def r)
  have un: "of_nat (unat (loc_Len loc)) = loc_Len loc" by simp
  show ?case
  proof (cases "loc_Len loc = 0")
    case True
    obtain l i1 where d: "Index_Delete bt (loc_Key loc) i = Ret (l, i1)" "wf_index bt i1"
      "mset (all_locs bt i) = mset (take 1 (locs_at bt i (loc_Key loc))) + mset (all_locs bt i1)"
      "idx_nentries i1 = idx_nentries i + (\<Sum>l\<leftarrow>take 1 (locs_at bt i (loc_Key loc)). loc_Len l)"
      using Index_Delete_ok [OF Cons.prems(1)] by metis
    have "Load_loop bt (enc_recs rs) i1 = Ret (i', e)"
      using Cons.prems(3) d(1) rd True r by (simp add: Load_loop.simps [of _ "enc_loc loc t @ enc_recs rs"])
    note IH = Cons.IH [OF d(2) ok this]
    have "idx_len i = (\<Sum>l\<leftarrow>take 1 (locs_at bt i (loc_Key loc)). loc_Len l) + idx_len i1"
      using Cons.prems(1) d(2,3) unfolding wf_index_def sum_all_locs_mset
      by (simp add: sum_mset_sum_list flip: mset_map)
    moreover have "(\<Sum>loc\<leftarrow>all_locs bt i1. unat (loc_Len loc)) \<le> (\<Sum>loc\<leftarrow>all_locs bt i. unat (loc_Len loc))"
      unfolding sum_all_locs_mset d(3) by simp
    ultimately show ?thesis using IH d(4) v True by simp
  next
    case False
    have "Load_loop bt (enc_recs rs) (Index_Set bt loc i) = Ret (i', e)"
      using Cons.prems(3) rd False r by (simp add: Load_loop.simps [of _ "enc_loc loc t @ enc_recs rs"])
    note IH = Cons.IH [OF wf_index_Set [OF Cons.prems(1)] ok this]
    have "(\<Sum>loc\<leftarrow>all_locs bt (Index_Set bt loc i). unat (loc_Len loc)) =
        unat (loc_Len loc) + (\<Sum>loc\<leftarrow>all_locs bt i. unat (loc_Len loc))"
      unfolding sum_all_locs_mset mset_all_locs_Set by simp
    then show ?thesis using IH v un by (simp add: Index_Set_def Let_def algebra_simps)
  qed
qed

lemma Load_nentries:
  assumes "\<forall>(loc, t) \<in> set rs. rec_ok loc" "Load_loop bt (enc_recs rs) (Index_zero bt) = Ret (i, e)"
    "0 < volume rs" "volume rs < 2 ^ 63" "wf_index bt i"
  shows "Index_NEntries i \<noteq> 0"
proof
  assume "Index_NEntries i = 0"
  define n where "n = (\<Sum>loc\<leftarrow>all_locs bt i. unat (loc_Len loc))"
  have e: "idx_nentries i + idx_len i = 2 * of_nat (volume rs)" and le: "n \<le> volume rs"
    using Load_entries [OF wf_index_zero assms(1,2)] by (simp_all add: Index_zero_def all_locs_def n_def)
  have "idx_len i = of_nat n"
  proof -
    have "(\<Sum>loc\<leftarrow>locs. loc_Len loc) = of_nat (\<Sum>loc\<leftarrow>locs. unat (loc_Len loc))" for locs :: "Location list"
      by (induction locs) simp_all
    then show ?thesis using assms(5) by (simp add: wf_index_def n_def)
  qed
  then have "(of_nat n :: Off) = of_nat (2 * volume rs)" using e \<open>Index_NEntries i = 0\<close> by (simp add: Index_NEntries_def)
  then have "unat (of_nat n :: Off) = unat (of_nat (2 * volume rs) :: Off)" by (rule arg_cong)
  moreover have "unat (of_nat n :: Off) = n" "unat (of_nat (2 * volume rs) :: Off) = 2 * volume rs"
    by (rule unat_of_nat64, use le assms(4) in simp)+
  ultimately have "n = 2 * volume rs" by simp
  then show False using le assms(3) by linarith
qed

text \<open>Loading a fork's index gives the index that was in memory.\<close>

lemma loadIndex_reopen:
  assumes "w_faults w = []" "fork_ok bt b w fork idx" "live_log w idx"
  obtains idx' where "loadIndex bt (idxPath (b_dir b) fork) l opts w = (Ret (Inr idx'), w)"
    "wr_path (bi_Log idx') = idxPath (b_dir b) fork" "wf_index bt (bi_Mem idx')"
    "locs_at bt (bi_Mem idx') = locs_at bt (bi_Mem idx)" "Index_NEntries (bi_Mem idx') \<noteq> 0"
proof -
  let ?p = "idxPath (b_dir b) fork"
  obtain rs where rs: "file_at w ?p = Some (enc_recs rs)" "\<forall>(loc, t) \<in> set rs. rec_ok loc"
    "locs_at bt (bi_Mem idx) = fold apply_rec (map fst rs) (\<lambda>_. [])"
    using assms(2) by (auto simp: fork_ok_def wal_ok_def)
  obtain rs' where rs': "enc_recs rs' = enc_recs rs" "\<forall>(loc, t) \<in> set rs'. rec_ok loc" "0 < volume rs'" "volume rs' < 2 ^ 63"
    using assms(2,3) rs(1) by (auto simp: live_log_def fork_ok_def)
  obtain i where i: "Load_loop bt (enc_recs rs) (Index_zero bt) = Ret (i, None)" "wf_index bt i"
    "locs_at bt i = fold apply_rec (map fst rs) (\<lambda>_. [])"
    by (rule Load_all [OF rs(2)])
  have n: "Index_NEntries i \<noteq> 0" using Load_nentries [OF rs'(2) _ rs'(3,4) i(2)] i(1) rs'(1) by simp
  note op = OpenCreate_exists [OF assms(1) rs(1)]
  define idx' where "idx' = \<lparr>bi_Log = \<lparr>wr_path = ?p, wr_sync = (opt_SyncMode opts AND SyncIndex > 0)\<rparr>, bi_Mem = i\<rparr>"
  have "loadIndex bt ?p l opts w = (Ret (Inr idx'), w)"
    using op i(1) n by (simp add: loadIndex_def Index_Load_def NewWriter_def idx'_def)
  then show ?thesis using that [of idx'] i(2,3) rs(3) n by (simp add: idx'_def)
qed

lemma loadIndexes_reopen:
  assumes "bucket_ok bt its b w" "\<forall>(fork, idx) \<in> set (b_indexes b). live_log w idx"
    "set forks \<subseteq> fst ` set (b_indexes b)" "distinct (map fst es)" "\<forall>(fork, idx) \<in> set es. same_index bt b fork idx"
  shows "\<exists>es' n. loadIndexes bt (b_dir b) l opts forks es n0 w = (Ret (Inr (es', n)), w) \<and> distinct (map fst es') \<and>
    (\<forall>(fork, idx) \<in> set es'. same_index bt b fork idx) \<and> fst ` set es' = fst ` set es \<union> set forks"
  using assms(3-5)
proof (induction forks arbitrary: es n0)
  case (Cons fork forks)
  obtain idx where idx: "map_of (b_indexes b) fork = Some idx"
    using Cons.prems(1) by (metis insert_subset list.simps(15) map_of_eq_None_iff not_None_eq)
  then have "live_log w idx" using assms(2) by (auto dest: map_of_SomeD)
  then obtain idx' where i: "loadIndex bt (idxPath (b_dir b) fork) l opts w = (Ret (Inr idx'), w)"
    "same_index bt b fork idx'"
    using loadIndex_reopen [OF bucket_okD(1) [OF assms(1)] bucket_okD(6) [OF assms(1) idx]] idx
    unfolding same_index_def by metis
  define es1 where "es1 = AList.update fork idx' es"
  have d: "distinct (map fst es1)" using distinct_update [OF Cons.prems(2)] by (simp add: es1_def)
  have m: "map_of es1 = (map_of es)(fork \<mapsto> idx')" by (simp add: es1_def update_conv')
  have "same_index bt b g jdx" if "(g, jdx) \<in> set es1" for g jdx
  proof -
    have "map_of es1 g = Some jdx" using that d by simp
    then show ?thesis using m i(2) Cons.prems(2,3) by (auto split: if_splits dest: map_of_SomeD)
  qed
  then have all: "\<forall>(g, jdx) \<in> set es1. same_index bt b g jdx" by auto
  have "fst ` set es1 = insert fork (fst ` set es)" using arg_cong [OF m, of dom] by (simp add: dom_map_of_conv_image_fst)
  then obtain es' n where "loadIndexes bt (b_dir b) l opts forks es1 (n0 + Index_NEntries (bi_Mem idx')) w = (Ret (Inr (es', n)), w)"
    "distinct (map fst es')" "\<forall>(fork, idx) \<in> set es'. same_index bt b fork idx" "fst ` set es' = insert fork (fst ` set es) \<union> set forks"
    using Cons.IH [of es1 "n0 + Index_NEntries (bi_Mem idx')"] Cons.prems(1) d all by auto
  then show ?case using i(1) by (intro exI [of _ es'] exI [of _ n]) (simp add: es1_def)
qed simp

lemma same_index_items:
  assumes "bucket_ok bt its b w" "same_index bt b fork idx'"
  shows "fork_items bt b fork = index_items bt (b_log b) (bi_Mem idx')" "index_ok bt (b_log b) (bi_Mem idx')"
    "\<exists>idx. map_of (b_indexes b) fork = Some idx \<and> idx_len (bi_Mem idx) = idx_len (bi_Mem idx')"
proof -
  obtain idx where idx: "map_of (b_indexes b) fork = Some idx" "locs_at bt (bi_Mem idx') = locs_at bt (bi_Mem idx)"
    "wf_index bt (bi_Mem idx')" using assms(2) by (auto simp: same_index_def)
  have ok: "index_ok bt (b_log b) (bi_Mem idx)" using bucket_okD(6) [OF assms(1) idx(1)] by (simp add: fork_ok_def)
  then have a: "all_locs bt (bi_Mem idx') = all_locs bt (bi_Mem idx)"
    using all_locs_eqI [OF idx(3) _ idx(2)] by (simp add: index_ok_def)
  show "fork_items bt b fork = index_items bt (b_log b) (bi_Mem idx')" using idx(1) a by (simp add: fork_items_def index_items_def)
  show "index_ok bt (b_log b) (bi_Mem idx')" using ok a idx(3) by (simp add: index_ok_def)
  show "\<exists>idx. map_of (b_indexes b) fork = Some idx \<and> idx_len (bi_Mem idx) = idx_len (bi_Mem idx')"
    using idx(1,3) a ok by (auto simp: wf_index_def index_ok_def)
qed

end

section \<open>Reopening\<close>

lemma bucket_AllEmpty_iff: "bucket_AllEmpty b \<longleftrightarrow> (\<forall>(fork, idx) \<in> set (b_indexes b). idx_len (bi_Mem idx) = 0)"
  by (simp add: bucket_AllEmpty_def list_all_iff Index_Len_def word_gt_0 split_def)

lemma MkdirAll_exists:
  assumes "w_faults w = []" "\<forall>q\<in>set (ancestors dir). node_at w q = Some Dir"
  shows "MkdirAll dir w = (None, w)"
proof -
  have "fold make_dir ps w = w" if "\<forall>q\<in>set ps. node_at w q = Some Dir" for ps
    using that by (induction ps) (simp_all add: make_dir_def)
  moreover have "\<not> list_ex (\<lambda>q. file_at w q \<noteq> None) (ancestors dir)"
    using assms(2) by (auto simp: list_ex_iff file_at_def)
  ultimately show ?thesis using assms by (simp add: MkdirAll_def)
qed

text \<open>The flags of a log have no influence on what is read from it.\<close>

abbreviation reflag :: "Log \<Rightarrow> bool \<Rightarrow> bool \<Rightarrow> Log" where
  "reflag l s e \<equiv> l\<lparr>log_syncOnWrite := s, log_isEmpty := e\<rparr>"

lemma reflag_rep [simp]: "log_rep (reflag l s e) its = log_rep l its" "log_on_disk (reflag l s e) w = log_on_disk l w"
  "stored (reflag l s e) off xs = stored l off xs"
  by (simp_all add: log_rep_def wf_log_def used_def log_on_disk_def stored_def)

lemma reflag_index:
  assumes "index_ok bt l i"
  shows "index_items bt (reflag l s e) i = index_items bt l i" "index_ok bt (reflag l s e) i"
proof -
  have gl: "good_loc (reflag l s e) = good_loc l" by (auto simp: good_loc_def fun_eq_iff)
  have "batch_of (reflag l s e) loc = batch_of l loc" if "good_loc l loc" for loc
    using batch_of_stored [of "reflag l s e" loc "batch_of l loc"] good_locD(2,3) [OF that] by simp
  then have "map (batch_of (reflag l s e)) (all_locs bt i) = map (batch_of l) (all_locs bt i)"
    using assms by (simp add: index_ok_def)
  then show "index_items bt (reflag l s e) i = index_items bt l i" by (simp only: index_items_def)
  show "index_ok bt (reflag l s e) i" using assms gl by (simp add: index_ok_def)
qed

context index_btree
begin

text \<open>A bucket whose indexes were loaded again is in order and holds the same items.\<close>

lemma reloaded_ok:
  assumes ok: "bucket_ok bt its b w" and es: "distinct (map fst es)" "\<forall>(fork, idx) \<in> set es. same_index bt b fork idx"
    "fst ` set es = fst ` set (b_indexes b)"
    and b': "b' = \<lparr>b_dir = b_dir b, b_key = b_key b, b_log = reflag (b_log b) s e, b_opts = opts, b_indexes = es\<rparr>"
  shows "bucket_ok bt its b' w" "fork_items bt b' fork = fork_items bt b fork" "bucket_AllEmpty b' \<longleftrightarrow> bucket_AllEmpty b"
proof -
  note k = bucket_okD [OF ok]
  have same: "same_index bt b fork idx'" if "map_of es fork = Some idx'" for fork idx'
    using es(2) that by (auto dest: map_of_SomeD)
  note si = same_index_items [OF ok same]
  have "fork_ok bt b' w fork idx'" if "(fork, idx') \<in> set es" for fork idx'
  proof -
    have m: "map_of es fork = Some idx'" using that es(1) by simp
    obtain idx where idx: "map_of (b_indexes b) fork = Some idx" "wr_path (bi_Log idx') = idxPath (b_dir b) fork"
      "locs_at bt (bi_Mem idx') = locs_at bt (bi_Mem idx)" using same [OF m] by (auto simp: same_index_def)
    then have "wal_ok bt w idx'" using k(6) [OF idx(1)] by (auto simp: fork_ok_def wal_ok_def)
    then show ?thesis using idx(2) reflag_index(2) [OF si(2) [OF m]] by (simp add: fork_ok_def b')
  qed
  then show "bucket_ok bt its b' w" using k(1-4) es(1) by (auto simp: bucket_ok_def b')
  show "fork_items bt b' fork = fork_items bt b fork"
  proof (cases "map_of es fork")
    case None
    then have "map_of (b_indexes b) fork = None" using es(3) by (simp add: map_of_eq_None_iff)
    then show ?thesis using None by (simp add: fork_items_def b')
  next
    case (Some idx')
    then show ?thesis using si [OF Some] reflag_index(1) by (simp add: fork_items_def b')
  qed
  have "(\<exists>idx. map_of es f = Some idx \<and> idx_len (bi_Mem idx) = n) \<longleftrightarrow>
      (\<exists>idx. map_of (b_indexes b) f = Some idx \<and> idx_len (bi_Mem idx) = n)" for f n
  proof (cases "map_of es f")
    case None
    then have "map_of (b_indexes b) f = None" using es(3) by (simp add: map_of_eq_None_iff)
    then show ?thesis using None by simp
  next
    case (Some idx')
    then show ?thesis using si(3) [OF Some] by auto
  qed
  moreover have "bucket_AllEmpty c \<longleftrightarrow> (\<forall>f n. (\<exists>idx. map_of (b_indexes c) f = Some idx \<and> idx_len (bi_Mem idx) = n) \<longrightarrow> n = 0)"
    if "distinct (map fst (b_indexes c))" for c :: "'m bucket"
    using that by (force simp: bucket_AllEmpty_iff)
  ultimately show "bucket_AllEmpty b' \<longleftrightarrow> bucket_AllEmpty b" using es(1) k(5) by (simp add: b')
qed

lemma openBucket_again:
  assumes "bucket_ok bt its b w" "log_mmap (b_log b) \<noteq> []"
    "\<forall>(fork, idx) \<in> set (b_indexes b). live_log w idx" "\<not> bucket_AllEmpty b"
    "set forks \<union> {''''} = fst ` set (b_indexes b)" "KeyFromString (last (b_dir b)) = Inr (b_key b)"
    "\<forall>q\<in>set (ancestors (b_dir b)). node_at w q = Some Dir"
  shows "\<exists>b'. openBucket bt pg (b_dir b) forks opts w = (Some (Inr b'), w) \<and> bucket_ok bt its b' w \<and>
    b_key b' = b_key b \<and> (\<forall>fork. fork_items bt b' fork = fork_items bt b fork) \<and>
    fst ` set (b_indexes b') = fst ` set (b_indexes b) \<and>
    b_dir b' = b_dir b \<and> log_mmap (b_log b') = log_mmap (b_log b) \<and> \<not> bucket_AllEmpty b'"
proof -
  note k = bucket_okD [OF assms(1)]
  define s where "s = (opt_SyncMode opts AND SyncData > 0)"
  have op: "vlog_Open pg (b_dir b @ [dataLogName]) s w = (Inr (reflag (b_log b) s False), w)"
    using vlog_Open_existing [OF k(2,3) assms(2) k(1)] k(4) by simp
  have sub: "set (forks @ ['''']) \<subseteq> fst ` set (b_indexes b)" using assms(5) by simp
  obtain es n where es: "loadIndexes bt (b_dir b) (reflag (b_log b) s False) opts (forks @ ['''']) [] 0 w = (Ret (Inr (es, n)), w)"
    "distinct (map fst es)" "\<forall>(fork, idx) \<in> set es. same_index bt b fork idx" "fst ` set es = set (forks @ [''''])"
    using loadIndexes_reopen [OF assms(1,3) sub, of "[]" "reflag (b_log b) s False" opts 0] by auto
  define b' where "b' = \<lparr>b_dir = b_dir b, b_key = b_key b, b_log = reflag (b_log b) s False, b_opts = opts, b_indexes = es\<rparr>"
  have dom: "fst ` set es = fst ` set (b_indexes b)" using es(4) assms(5) by auto
  note r = reloaded_ok [OF assms(1) es(2,3) dom b'_def]
  have "\<not> bucket_AllEmpty b'" using r(3) assms(4) by simp
  then have "openBucket bt pg (b_dir b) forks opts w = (Some (Inr b'), w)"
    using MkdirAll_exists [OF k(1) assms(7)] op es(1) assms(6)
    by (simp add: openBucket_def numeral_2_eq_2 b'_def [symmetric] Let_def s_def [symmetric])
  then show ?thesis using r dom assms(4) by (intro exI [of _ b']) (simp add: b'_def)
qed

end

section \<open>Opening a new bucket\<close>

text \<open>An index of a new bucket: empty in memory, with an empty file.\<close>

definition fresh_index :: "'m ibtree \<Rightarrow> path \<Rightarrow> world \<Rightarrow> ForkName \<times> 'm bucketIndex \<Rightarrow> bool" where
  "fresh_index bt dir w = (\<lambda>(fork, idx). bi_Mem idx = Index_zero bt \<and> wr_path (bi_Log idx) = idxPath dir fork \<and>
     file_at w (idxPath dir fork) = Some [])"

lemma butlast_idxPath [simp]: "butlast (idxPath dir f) = dir" "idxPath dir f \<noteq> dir" "dir \<noteq> idxPath dir f" "idxPath dir f \<noteq> []"
  by (simp_all add: idxPath_def Let_def)

lemma loadIndex_fresh:
  assumes "w_faults w = []" "node_at w dir = Some Dir" "log_isEmpty l"
    "node_at w (idxPath dir f) = None \<or> file_at w (idxPath dir f) = Some []"
  obtains idx w' where "loadIndex bt (idxPath dir f) l opts w = (Ret (Inr idx), w')" "fresh_index bt dir w' (f, idx)"
    "wrote w (idxPath dir f) [] w'"
proof -
  obtain w' where w': "OpenCreate (idxPath dir f) w = (None, w')" "wrote w (idxPath dir f) [] w'"
    using OpenCreate_wrote [OF assms(1), of "idxPath dir f" "[]"] assms(2,4) by auto
  have f: "w_faults w' = []" "file_at w' (idxPath dir f) = Some []"
    using w'(2) wrote_file_at [OF w'(2)] by (simp_all add: wrote_faults)
  note op = OpenCreate_exists [OF f]
  have "Load_loop bt [] (Index_zero bt) = Ret (Index_zero bt, None)"
    by (simp add: Load_loop.simps [of bt "[]"] Reader_Next_def)
  then have "loadIndex bt (idxPath dir f) l opts w =
      (Ret (Inr \<lparr>bi_Log = \<lparr>wr_path = idxPath dir f, wr_sync = (opt_SyncMode opts AND SyncIndex > 0)\<rparr>, bi_Mem = Index_zero bt\<rparr>), w')"
    using w'(1) op assms(3) by (simp add: loadIndex_def Index_Load_def NewWriter_def Log_IsEmpty_def)
  then show ?thesis using that w'(2) f(2) by (simp add: fresh_index_def)
qed

lemma fresh_index_frame:
  "fresh_index bt dir w (g, idx) \<Longrightarrow> wrote w (idxPath dir f) [] w' \<Longrightarrow> fresh_index bt dir w' (g, idx)"
  by (auto simp: fresh_index_def wrote_file_at)

lemma loadIndexes_fresh:
  assumes "w_faults w = []" "node_at w dir = Some Dir" "log_isEmpty l"
    "\<forall>f\<in>set forks. node_at w (idxPath dir f) = None \<or> file_at w (idxPath dir f) = Some []"
    "distinct (map fst es)" "\<forall>e\<in>set es. fresh_index bt dir w e"
  shows "\<exists>es' w'. loadIndexes bt dir l opts forks es n w = (Ret (Inr (es', n)), w') \<and> w_faults w' = [] \<and>
    distinct (map fst es') \<and> (\<forall>e\<in>set es'. fresh_index bt dir w' e) \<and> fst ` set es' = fst ` set es \<union> set forks \<and>
    (\<forall>q. q \<notin> idxPath dir ` set forks \<longrightarrow> node_at w' q = node_at w q)"
  using assms
proof (induction forks arbitrary: es w)
  case (Cons f forks)
  obtain idx w1 where 1: "loadIndex bt (idxPath dir f) l opts w = (Ret (Inr idx), w1)" "fresh_index bt dir w1 (f, idx)"
    "wrote w (idxPath dir f) [] w1"
    using loadIndex_fresh [OF Cons.prems(1-3)] Cons.prems(4) by (metis list.set_intros(1))
  define es1 where "es1 = AList.update f idx es"
  have d: "distinct (map fst es1)" using distinct_update [OF Cons.prems(5)] by (simp add: es1_def)
  have m: "map_of es1 = (map_of es)(f \<mapsto> idx)" by (simp add: es1_def update_conv')
  have "fresh_index bt dir w1 (g, jdx)" if "(g, jdx) \<in> set es1" for g jdx
  proof -
    have "map_of es1 g = Some jdx" using that d by simp
    then consider "g = f" "jdx = idx" | "(g, jdx) \<in> set es" using m by (auto split: if_splits dest: map_of_SomeD)
    then show ?thesis using 1(2) Cons.prems(6) fresh_index_frame [OF _ 1(3)] by cases blast+
  qed
  then have all: "\<forall>e\<in>set es1. fresh_index bt dir w1 e" by auto
  have dom: "fst ` set es1 = insert f (fst ` set es)" using arg_cong [OF m, of dom] by (simp add: dom_map_of_conv_image_fst)
  have "node_at w1 dir = Some Dir" "\<forall>g\<in>set forks. node_at w1 (idxPath dir g) = None \<or> file_at w1 (idxPath dir g) = Some []"
    using 1(3) Cons.prems(2,4) wrote_file_at [OF 1(3)] by (auto simp: wrote_def)
  then obtain es' w' where 2: "loadIndexes bt dir l opts forks es1 n w1 = (Ret (Inr (es', n)), w')" "w_faults w' = []"
    "distinct (map fst es')" "\<forall>e\<in>set es'. fresh_index bt dir w' e" "fst ` set es' = fst ` set es1 \<union> set forks"
    "\<forall>q. q \<notin> idxPath dir ` set forks \<longrightarrow> node_at w' q = node_at w1 q"
    using Cons.IH [OF wrote_faults [OF 1(3)] _ Cons.prems(3) _ d all] by blast
  moreover have "Index_NEntries (bi_Mem idx) = 0" using 1(2) by (simp add: fresh_index_def Index_NEntries_def Index_zero_def)
  ultimately show ?case using 1(1,3) dom
    by (intro exI [of _ es'] exI [of _ w']) (auto simp: es1_def [symmetric] wrote_def)
qed simp

lemma MkdirAll_fresh:
  assumes "w_faults w = []" "\<forall>q\<in>set (ancestors dir). node_at w q = Some Dir" "node_at w (dir @ [name]) = None"
  obtains w' where "MkdirAll (dir @ [name]) w = (None, w')" "w_faults w' = []" "node_at w' = (node_at w)(dir @ [name] \<mapsto> Dir)"
proof -
  have a: "ancestors (dir @ [name]) = ancestors dir @ [dir @ [name]]" by (simp add: ancestors_def)
  have "fold make_dir ps w = w" if "\<forall>q\<in>set ps. node_at w q = Some Dir" for ps
    using that by (induction ps) (simp_all add: make_dir_def)
  then have "fold make_dir (ancestors (dir @ [name])) w = put_node (dir @ [name]) Dir w"
    using assms(2,3) by (simp add: a make_dir_def)
  moreover have "\<not> list_ex (\<lambda>q. file_at w q \<noteq> None) (ancestors (dir @ [name]))"
    using assms(2,3) by (auto simp: a list_ex_iff file_at_def)
  ultimately have "MkdirAll (dir @ [name]) w = (None, put_node (dir @ [name]) Dir w)"
    using assms(1) by (simp add: MkdirAll_def)
  then show ?thesis using that assms(1) by (auto simp: fun_eq_iff)
qed

context index_btree
begin

lemma openBucket_fresh:
  assumes nf: "w_faults w = []" and anc: "\<forall>q\<in>set (ancestors dir). node_at w q = Some Dir"
    and none: "\<And>q. node_at w (dir @ name # q) = None"
    and key: "KeyFromString name = Inr key" and pg: "0 < pg" "128 * pg < 2 ^ 62"
  shows "\<exists>b w'. openBucket bt pg (dir @ [name]) forks opts w = (Some (Inr b), w') \<and> bucket_ok bt [] b w' \<and>
    b_key b = key \<and> b_dir b = dir @ [name] \<and> fst ` set (b_indexes b) = set forks \<union> {''''} \<and>
    (\<forall>fork. fork_items bt b fork = []) \<and> log_mmap (b_log b) \<noteq> [] \<and> node_at w' (dir @ [name]) = Some Dir \<and>
    (\<forall>q. q \<notin> insert (dir @ [name]) (bucket_files b) \<longrightarrow> node_at w' q = node_at w q) \<and>
    (\<forall>f\<in>fst ` set (b_indexes b). file_at w' (idxPath (dir @ [name]) f) = Some [])"
proof -
  let ?d = "dir @ [name]"
  obtain w1 where 1: "MkdirAll ?d w = (None, w1)" "w_faults w1 = []" "node_at w1 = (node_at w)(?d \<mapsto> Dir)"
    using MkdirAll_fresh [OF nf anc] none [of "[]"] by auto
  have n1: "node_at w1 (?d @ [f]) = None" for f using none [of "[f]"] 1(3) by simp
  define s where "s = (opt_SyncMode opts AND SyncData > 0)"
  obtain l w2 where 2: "vlog_Open pg (?d @ [dataLogName]) s w1 = (Inr l, w2)" "log_rep l []" "log_on_disk l w2"
    "log_isEmpty l" "log_path l = ?d @ [dataLogName]" "w_faults w2 = []" "log_mmap l \<noteq> []"
    "\<And>q. q \<noteq> ?d @ [dataLogName] \<Longrightarrow> node_at w2 q = node_at w1 q"
  proof (rule vlog_Open_fresh [OF 1(2) n1 _ pg])
    show "node_at w1 (butlast (?d @ [dataLogName])) = Some Dir" using 1(3) unfolding butlast_snoc by simp
  qed (rule that)
  have n2: "node_at w2 (idxPath ?d f) = None" for f
    using 2(8) [of "idxPath ?d f"] n1 idxPath_data(1) [of ?d f] by (simp add: idxPath_def Let_def)
  have d2: "node_at w2 ?d = Some Dir" using 2(8) [of ?d] 1(3) by simp
  obtain es w3 where 3: "loadIndexes bt ?d l opts (forks @ ['''']) [] 0 w2 = (Ret (Inr (es, 0)), w3)" "w_faults w3 = []"
    "distinct (map fst es)" "\<forall>e\<in>set es. fresh_index bt ?d w3 e" "fst ` set es = set forks \<union> {''''}"
    "\<forall>q. q \<notin> idxPath ?d ` set (forks @ ['''']) \<longrightarrow> node_at w3 q = node_at w2 q"
    using loadIndexes_fresh [OF 2(6) d2 2(4), of "forks @ ['''']" "[]" bt opts 0] n2 by auto
  define b where "b = \<lparr>b_dir = ?d, b_key = key, b_log = l, b_opts = opts, b_indexes = es\<rparr>"
  have op: "openBucket bt pg ?d forks opts w = (Some (Inr b), w3)"
    using 1(1) 2(1) 3(1) key by (simp add: openBucket_def numeral_2_eq_2 b_def Let_def s_def)
  have z: "wf_index bt (Index_zero bt)" "all_locs bt (Index_zero bt) = []" "locs_at bt (Index_zero bt) = (\<lambda>_. [])"
    using wf_index_zero by (simp_all add: all_locs_def Index_zero_def locs_at_def fun_eq_iff)
  have "fork_ok bt b w3 f idx" if "(f, idx) \<in> set es" for f idx
  proof -
    have fr: "fresh_index bt ?d w3 (f, idx)" using that 3(4) by blast
    then have "wal_ok bt w3 idx" using z(3) by (auto simp: fresh_index_def wal_ok_def intro!: exI [of _ "[]"])
    then show ?thesis using fr z(1,2) by (simp add: fork_ok_def fresh_index_def index_ok_def b_def)
  qed
  moreover have "node_at w3 (?d @ [dataLogName]) = node_at w2 (?d @ [dataLogName])"
    using 3(6) idxPath_data(2) [of ?d] by (metis imageE)
  then have "log_on_disk l w3" using 2(3,5) by (simp add: log_on_disk_def file_at_def)
  ultimately have ok: "bucket_ok bt [] b w3" using 2 3(2,3) by (auto simp: bucket_ok_def b_def)
  have "fork_items bt b f = []" for f
    using 3(4) z(2) by (auto simp: fork_items_def b_def fresh_index_def index_items_def split: option.splits dest!: map_of_SomeD)
  moreover have "node_at w3 q = node_at w q" if "q \<notin> insert ?d (bucket_files b)" for q
    using that 3(5,6) 2(8) 1(3) by (auto simp: bucket_files_def b_def)
  moreover have "file_at w3 (idxPath ?d f) = Some []" if "f \<in> fst ` set es" for f
    using that 3(4) by (auto simp: fresh_index_def)
  moreover have "node_at w3 ?d = Some Dir" using 3(6) d2 butlast_idxPath(3) by (metis imageE)
  ultimately show ?thesis using op ok 2(7) 3(5) by (intro exI [of _ b] exI [of _ w3]) (simp add: b_def)
qed

end


section \<open>Forks\<close>

text \<open>Adding an index for a new fork, or dropping one, keeps the bucket in order.\<close>

lemma bucket_ok_new_fork:
  assumes ok: "bucket_ok bt its b w" and new: "map_of (b_indexes b) dst = None"
    and w': "wrote w (idxPath (b_dir b) dst) bs w'" and fk: "fork_ok bt b w' dst idx"
  shows "bucket_ok bt its (put_index dst idx b) w'"
proof -
  note k = bucket_okD [OF ok]
  have m: "map_of (b_indexes (put_index dst idx b)) = (map_of (b_indexes b))(dst \<mapsto> idx)"
    by (simp add: put_index_def update_conv')
  have nd: "node_at w' q = node_at w q" if "q \<noteq> idxPath (b_dir b) dst" for q using w' that by (simp add: wrote_def)
  have "fork_ok bt b w' g jdx" if "map_of (b_indexes (put_index dst idx b)) g = Some jdx" for g jdx
  proof (cases "g = dst")
    case True
    then show ?thesis using that m fk by simp
  next
    case False
    then have j: "fork_ok bt b w g jdx" using k(6) that m by simp
    then have "node_at w' (wr_path (bi_Log jdx)) = node_at w (wr_path (bi_Log jdx))" using False nd by (simp add: fork_ok_def)
    then show ?thesis using j wal_ok_frame [of bt w jdx w'] by (simp add: fork_ok_def)
  qed
  then have "\<forall>(g, jdx) \<in> set (b_indexes (put_index dst idx b)). fork_ok bt (put_index dst idx b) w' g jdx"
    using distinct_update [OF k(5), of dst idx] by (auto simp: fork_ok_def put_index_def)
  moreover have "log_on_disk (b_log b) w'" using k(3,4) nd by (simp add: log_on_disk_def file_at_def)
  ultimately show ?thesis
    using k wrote_faults [OF w'] distinct_update [OF k(5), of dst idx] by (simp add: bucket_ok_def put_index_def)
qed

context index_btree
begin

text \<open>Forking a bucket: the log of the new fork holds a record for every batch of its source.\<close>

lemma bucket_Fork_run:
  assumes ok: "bucket_ok bt its b w" and s: "map_of (b_indexes b) src = Some sidx" and new: "map_of (b_indexes b) dst = None"
    and p: "node_at w (idxPath (b_dir b) dst) = None" "node_at w (b_dir b) = Some Dir"
  obtains idx rs w' where "bucket_Fork bt src dst b w = (None, put_index dst idx b, w')"
    "wrote w (idxPath (b_dir b) dst) (enc_recs rs) w'" "wr_path (bi_Log idx) = idxPath (b_dir b) dst" "bi_Mem idx = bi_Mem sidx"
    "\<forall>(loc, t) \<in> set rs. rec_ok loc" "locs_at bt (bi_Mem sidx) = fold apply_rec (map fst rs) (\<lambda>_. [])"
proof -
  let ?p = "idxPath (b_dir b) dst"
  note k = bucket_okD [OF ok]
  have io: "index_ok bt (b_log b) (bi_Mem sidx)" using k(6) [OF s] by (simp add: fork_ok_def)
  then have wf: "wf_index bt (bi_Mem sidx)" and good: "\<forall>loc\<in>set (all_locs bt (bi_Mem sidx)). good_loc (b_log b) loc"
    by (simp_all add: index_ok_def)
  have bl: "butlast ?p = b_dir b" by (simp add: idxPath_def Let_def)
  define rs where "rs = number_from 0 (all_locs bt (bi_Mem sidx))"
  obtain w' where w': "WriteIndex bt (bi_Mem sidx) ?p w = (None, w')" "wrote w ?p (enc_recs rs) w'"
    using WriteIndex_wrote [OF k(1) _ wf, of ?p "[]"] p bl by (auto simp: rs_def)
  have f: "file_at w' ?p = Some (enc_recs rs)" using wrote_file_at [OF w'(2)] by simp
  define idx where "idx = \<lparr>bi_Log = \<lparr>wr_path = ?p, wr_sync = (opt_SyncMode (b_opts b) AND SyncIndex > 0)\<rparr>,
    bi_Mem = Index_Copy (bi_Mem sidx)\<rparr>"
  have cp: "Index_Copy (bi_Mem sidx) = bi_Mem sidx" by (simp add: Index_Copy_def)
  have "\<forall>loc\<in>set (all_locs bt (bi_Mem sidx)). rec_ok loc" "\<forall>loc\<in>set (all_locs bt (bi_Mem sidx)). loc_Len loc \<noteq> 0"
    using good good_loc_len(2,3) by blast+
  then have "\<forall>(loc, t) \<in> set rs. rec_ok loc" "locs_at bt (bi_Mem sidx) = fold apply_rec (map fst rs) (\<lambda>_. [])"
    using number_from_rec_ok fold_all_locs [OF wf] by (auto simp: rs_def)
  moreover have "bucket_Fork bt src dst b w = (None, put_index dst idx b, w')"
    using s new w'(1) OpenCreate_exists(1) [OF wrote_faults [OF w'(2)] f]
    by (simp add: bucket_Fork_def idxForFork_def NewWriter_def idx_def Let_def)
  ultimately show ?thesis using that w'(2) by (simp add: idx_def cp)
qed

text \<open>An index with the items of another fork and a log that repeats them\<close>

lemma fork_ok_copy:
  assumes ok: "bucket_ok bt its b w" and s: "map_of (b_indexes b) src = Some sidx"
    and w': "wrote w (idxPath (b_dir b) dst) (enc_recs rs) w'"
    and idx: "wr_path (bi_Log idx) = idxPath (b_dir b) dst" "bi_Mem idx = bi_Mem sidx"
    and rs: "\<forall>(loc, t) \<in> set rs. rec_ok loc" "locs_at bt (bi_Mem sidx) = fold apply_rec (map fst rs) (\<lambda>_. [])"
  shows "fork_ok bt b w' dst idx"
proof -
  have "wal_ok bt w' idx" unfolding wal_ok_def using wrote_file_at [OF w'] idx rs by (intro exI [of _ rs]) simp
  then show ?thesis using bucket_okD(6) [OF ok s] idx by (simp add: fork_ok_def)
qed

end

text \<open>
  Forking gives the new fork exactly the items of its source, writes an index log that
  repeats them, and leaves the other forks as they are.
\<close>

theorem bucket_Fork_copies:
  assumes "index_btree bt" "bucket_ok bt its b w" "map_of (b_indexes b) src \<noteq> None" "map_of (b_indexes b) dst = None"
    "node_at w (idxPath (b_dir b) dst) = None" "node_at w (b_dir b) = Some Dir"
  shows "\<exists>b' w'. bucket_Fork bt src dst b w = (None, b', w') \<and> bucket_ok bt its b' w' \<and>
    fork_items bt b' dst = fork_items bt b src \<and>
    (\<forall>g. g \<noteq> dst \<longrightarrow> map_of (b_indexes b') g = map_of (b_indexes b) g)"
proof -
  obtain sidx where s: "map_of (b_indexes b) src = Some sidx" using assms(3) by blast
  obtain idx rs w' where r: "bucket_Fork bt src dst b w = (None, put_index dst idx b, w')"
    "wrote w (idxPath (b_dir b) dst) (enc_recs rs) w'" "wr_path (bi_Log idx) = idxPath (b_dir b) dst" "bi_Mem idx = bi_Mem sidx"
    "\<forall>(loc, t) \<in> set rs. rec_ok loc" "locs_at bt (bi_Mem sidx) = fold apply_rec (map fst rs) (\<lambda>_. [])"
    using index_btree.bucket_Fork_run [OF assms(1,2) s assms(4-6)] by metis
  have "fork_ok bt b w' dst idx" by (rule index_btree.fork_ok_copy [OF assms(1,2) s r(2-6)])
  then have "bucket_ok bt its (put_index dst idx b) w'" by (rule bucket_ok_new_fork [OF assms(2,4) r(2)])
  moreover have "fork_items bt (put_index dst idx b) dst = fork_items bt b src"
    using s r(4) by (simp add: fork_items_def put_index_def update_conv')
  moreover have "map_of (b_indexes (put_index dst idx b)) g = map_of (b_indexes b) g" if "g \<noteq> dst" for g
    using that by (simp add: put_index_def update_conv')
  ultimately show ?thesis using r(1) by blast
qed

text \<open>
  C28 (remove fork): removing a fork deletes its index log and forgets the fork; the value log and
  the other forks stay as they are. A fork that does not exist is reported.
\<close>

theorem bucket_RemoveFork_ok:
  assumes "bucket_ok bt its b w"
  shows "(map_of (b_indexes b) fork = None \<longrightarrow> bucket_RemoveFork fork b w = (Some ErrNoSuchFork, b, w)) \<and>
    (map_of (b_indexes b) fork \<noteq> None \<longrightarrow>
      (\<exists>b' w'. bucket_RemoveFork fork b w = (None, b', w') \<and> bucket_ok bt its b' w' \<and>
         map_of (b_indexes b') = (map_of (b_indexes b))(fork := None) \<and> node_at w' (idxPath (b_dir b) fork) = None))"
proof (cases "map_of (b_indexes b) fork")
  case None
  then show ?thesis by (simp add: bucket_RemoveFork_def idxForFork_def)
next
  case (Some idx)
  let ?p = "idxPath (b_dir b) fork"
  note k = bucket_okD [OF assms]
  obtain old where old: "file_at w ?p = Some old" using fork_ok_file [OF k(6) [OF Some]] k(6) [OF Some] by (auto simp: fork_ok_def)
  define b' where "b' = b\<lparr>b_indexes := AList.delete fork (b_indexes b)\<rparr>"
  define w' where "w' = del_node ?p w"
  have m: "map_of (b_indexes b') = (map_of (b_indexes b))(fork := None)" by (simp add: b'_def delete_conv')
  have d: "distinct (map fst (b_indexes b'))" using distinct_delete [OF k(5)] by (simp add: b'_def)
  have "fork_ok bt b' w' g jdx" if "(g, jdx) \<in> set (b_indexes b')" for g jdx
  proof -
    have "map_of (b_indexes b') g = Some jdx" using that d by simp
    then have "g \<noteq> fork" "fork_ok bt b w g jdx" using m k(6) by (auto split: if_splits)
    then show ?thesis using wal_ok_frame [of bt w jdx w'] by (simp add: fork_ok_def b'_def w'_def)
  qed
  moreover have "log_on_disk (b_log b) w'" using k(3,4) by (simp add: log_on_disk_def w'_def)
  ultimately have "bucket_ok bt its b' w'" using k(1,2,4) d by (auto simp: bucket_ok_def b'_def w'_def)
  moreover have "bucket_RemoveFork fork b w = (None, b', w')"
    using Some old k(1)
    by (simp add: bucket_RemoveFork_def idxForFork_def Writer_Close_def Remove_def node_at_file join_err_def b'_def w'_def Let_def)
  ultimately show ?thesis using Some m by (simp add: w'_def)
qed

section \<open>The recursion of openBucket ends\<close>

text \<open>A path with no content: no file there, or an empty one.\<close>

definition blank :: "world \<Rightarrow> path \<Rightarrow> bool" where
  "blank w p \<longleftrightarrow> contents w p = []"

definition keeps_blank :: "world \<Rightarrow> world \<Rightarrow> bool" where
  "keeps_blank w w' \<longleftrightarrow> (\<forall>q. blank w q \<longrightarrow> blank w' q)"

lemma keeps_blank_trans: "keeps_blank w w1 \<Longrightarrow> keeps_blank w1 w' \<Longrightarrow> keeps_blank w w'"
  by (simp add: keeps_blank_def)

lemma sys_contents: "sys w = (ok, w1) \<Longrightarrow> contents w1 p = contents w p"
  by (simp add: contents_def sys_file_at)

lemma contents_sys [simp]: "contents (snd (sys w)) p = contents w p"
  by (cases "sys w") (simp add: sys_contents)

lemma contents_put: "contents (put_node p n w) q = (if q = p then (case n of File bs \<Rightarrow> bs | Dir \<Rightarrow> []) else contents w q)"
  by (simp add: contents_def file_at_def split: node.split)

lemma contents_del: "contents (del_node p w) q = (if q = p then [] else contents w q)"
  by (simp add: contents_def)

lemma sys_blank: "sys w = (ok, w1) \<Longrightarrow> keeps_blank w w1"
  by (simp add: keeps_blank_def blank_def sys_contents)

lemma OpenCreate_blank: "OpenCreate p w = (e, w') \<Longrightarrow> keeps_blank w w'"
  by (auto simp: OpenCreate_def split_def Let_def keeps_blank_def blank_def contents_put split: if_splits option.splits node.splits)

lemma Remove_blank: "Remove p w = (e, w') \<Longrightarrow> keeps_blank w w'"
  by (auto simp: Remove_def split_def Let_def keeps_blank_def blank_def contents_del split: if_splits option.splits node.splits)

lemma Remove_gone: "Remove p w = (e, w') \<Longrightarrow> filterIsNotExist e = None \<Longrightarrow> blank w' p"
  by (cases "sys w") (auto simp: Remove_def filterIsNotExist_def blank_def contents_def file_at_def
      split: if_splits option.splits node.splits)

lemma Call_blank: "Call x w = (e, w') \<Longrightarrow> keeps_blank w w'"
  by (cases "sys w") (auto simp: Call_def dest: sys_blank)

lemma MkdirAll_blank: "MkdirAll p w = (e, w') \<Longrightarrow> keeps_blank w w'"
proof -
  have f: "keeps_blank w0 (fold make_dir ps w0)" for ps w0
  proof (induction ps arbitrary: w0)
    case Nil
    then show ?case by (simp add: keeps_blank_def)
  next
    case (Cons a ps)
    have "keeps_blank w0 (make_dir a w0)" by (simp add: keeps_blank_def blank_def make_dir_def contents_put)
    then show ?case using keeps_blank_trans Cons [of "make_dir a w0"] by auto
  qed
  assume "MkdirAll p w = (e, w')"
  then show ?thesis
    by (cases "sys w") (auto simp: MkdirAll_def dest: sys_blank intro: keeps_blank_trans f split: if_splits)
qed

lemma join_err_eq_None [simp]: "join_err a b = None \<longleftrightarrow> a = None \<and> b = None"
  by (simp add: join_err_def split: option.split)

lemma remove_indexes_blank:
  "remove_indexes dir forks e w = (e', w') \<Longrightarrow>
   keeps_blank w w' \<and> (e' = None \<longrightarrow> e = None \<and> (\<forall>fork\<in>set forks. blank w' (idxPath dir fork)))"
proof (induction forks arbitrary: e w)
  case (Cons fork forks)
  obtain e1 w1 where r: "Remove (idxPath dir fork) w = (e1, w1)" by (cases "Remove (idxPath dir fork) w")
  have "remove_indexes dir forks (join_err e (filterIsNotExist e1)) w1 = (e', w')" using Cons.prems r by simp
  note IH = Cons.IH [OF this]
  show ?case using IH Remove_blank [OF r] Remove_gone [OF r] by (auto simp: keeps_blank_def)
qed (simp add: keeps_blank_def)

lemma removeBucketDir_blank:
  assumes "removeBucketDir dir forks w = (None, w')"
  shows "\<forall>fork\<in>set forks. blank w' (idxPath dir fork)" "blank w' (dir @ [dataLogName])"
proof -
  obtain e0 w0 where 0: "remove_indexes dir forks None w = (e0, w0)" by (cases "remove_indexes dir forks None w")
  obtain e1 w1 where 1: "Remove (dir @ [''dat.log'']) w0 = (e1, w1)" by (cases "Remove (dir @ [''dat.log'']) w0")
  obtain e2 w2 where 2: "Remove (dir @ [''idx.log'']) w1 = (e2, w2)" by (cases "Remove (dir @ [''idx.log'']) w1")
  obtain e3 w3 where 3: "Remove dir w2 = (e3, w3)" by (cases "Remove dir w2")
  have e: "e0 = None" "filterIsNotExist e1 = None" "w' = w3" using assms 0 1 2 3 by (auto simp: removeBucketDir_def)
  have kb: "keeps_blank w1 w3" using Remove_blank [OF 2] Remove_blank [OF 3] keeps_blank_trans by blast
  show "\<forall>fork\<in>set forks. blank w' (idxPath dir fork)"
    using remove_indexes_blank [OF 0] e(1,3) Remove_blank [OF 1] kb by (auto simp: keeps_blank_def)
  show "blank w' (dir @ [dataLogName])"
    using Remove_gone [OF 1 e(2)] e(3) kb by (auto simp: keeps_blank_def dataLogName_def)
qed

text \<open>A log opened where there was no content: empty, and mapped.\<close>

definition new_log :: "Log \<Rightarrow> bool" where
  "new_log l \<longleftrightarrow> log_isEmpty l \<and> log_size l = 0 \<and> log_mmap l \<noteq> []"

lemma shrink_loop_blank: "n \<le> N \<Longrightarrow> shrink_loop (replicate N 0) n = 0"
  by (induction n) simp_all

lemma vlog_Open_blank:
  assumes "vlog_Open pg p sync w = (Inr l, w')" "blank w p" "0 < pg" "128 * pg < 2 ^ 62"
  shows "new_log l" "\<And>q. q \<noteq> p \<Longrightarrow> blank w q \<Longrightarrow> blank w' q"
proof -
  obtain w1 where 1: "OpenCreate p w = (None, w1)"
    using assms(1) by (auto simp: vlog_Open_def split: prod.splits option.splits)
  obtain w2 where 2: "Call ''log: stat'' w1 = (None, w2)"
    using assms(1) 1 by (auto simp: vlog_Open_def split: prod.splits option.splits)
  have kb: "keeps_blank w w2" using OpenCreate_blank [OF 1] Call_blank [OF 2] keeps_blank_trans by blast
  then have c2: "contents w2 p = []" using assms(2) by (simp add: keeps_blank_def blank_def)
  obtain w3 where 3: "Truncate p (nat (nextSize pg 0)) w2 = (None, w3)"
    using assms(1) 1 2 c2 by (auto simp: vlog_Open_def Let_def split: prod.splits option.splits)
  obtain w4 where 4: "Call ''log: mmap'' w3 = (None, w4)"
    using assms(1) 1 2 3 c2 by (auto simp: vlog_Open_def Let_def split: prod.splits option.splits)
  define N where "N = nat (nextSize pg 0)"
  have N: "0 < N" using nextSize_eq(2) [of pg 0] assms(3,4) by (simp add: N_def)
  obtain ok s where sy: "sys w2 = (ok, s)" by (cases "sys w2")
  have cs: "contents s p = []" using sys_contents [OF sy] c2 by simp
  have s: "sys w2 = (True, s)" "w3 = put_node p (File (replicate N 0)) s"
    using 3 sy cs by (auto simp: Truncate_def N_def resize_def contents_def split: if_splits option.splits)
  have c4: "contents w4 q = contents w3 q" for q
    using 4 sys_contents [of w3] by (cases "sys w3") (auto simp: Call_def split: if_splits)
  have "l = \<lparr>log_path = p, log_mmap = replicate N 0, log_size = 0, log_syncOnWrite = sync, log_isEmpty = True\<rparr>" "w' = w4"
    using assms(1) 1 2 3 4 c2 c4 s(2) by (auto simp: vlog_Open_def Let_def contents_put shrink_def)
  then show "new_log l" using N by (simp add: new_log_def)
  show "blank w' q" if "q \<noteq> p" "blank w q" for q
    using that kb \<open>w' = w4\<close> c4 s sys_contents [OF s(1)] by (simp add: keeps_blank_def blank_def contents_put)
qed

lemma FromVlog_new: "new_log l \<Longrightarrow> FromVlog bt l = Ret (Inr (Index_zero bt))"
  by (simp add: FromVlog_def Let_def FromVlog_loop.simps [of bt l] Iter_Next_def new_log_def Log_At_def zero_loc_def)

lemma NewWriter_blank: "NewWriter p s w = (r, w') \<Longrightarrow> keeps_blank w w'"
  by (auto simp: NewWriter_def dest: OpenCreate_blank split: prod.splits option.splits)

context index_btree
begin

lemma WriteIndex_zero_blank:
  assumes "WriteIndex bt (Index_zero bt) p w = (e, w')"
  shows "keeps_blank w w'"
proof -
  have "IndexIter_Next (Index_Iter bt (Index_zero bt)) = (False, Index_Iter bt (Index_zero bt))"
    by (simp add: IndexIter_Next_def Index_Iter_def Index_zero_def)
  then have "WriteIndex_loop wr (Index_Iter bt (Index_zero bt)) n w1 = (None, w1)" for wr n w1
    by (simp add: WriteIndex_loop.simps [of wr "Index_Iter bt (Index_zero bt)"])
  then show ?thesis using assms NewWriter_blank by (auto simp: WriteIndex_def split: prod.splits sum.splits)
qed

lemma recover_new:
  assumes "new_log l" "recoverIndexFromLog bt l p w = (r, w')"
  shows "keeps_blank w w' \<and> (r = Ret (Inr (Index_zero bt)) \<or> (\<exists>e. r = Ret (Inl e)))"
proof -
  obtain e1 w1 where 1: "Remove p w = (e1, w1)" by (cases "Remove p w")
  obtain e2 w2 where 2: "WriteIndex bt (Index_zero bt) p w1 = (e2, w2)" by (cases "WriteIndex bt (Index_zero bt) p w1")
  show ?thesis
    using assms(2) 1 2 Remove_blank [OF 1] WriteIndex_zero_blank [OF 2] keeps_blank_trans
    by (auto simp: recoverIndexFromLog_def FromVlog_new [OF assms(1)] split: option.splits)
qed

lemma loadIndex_new:
  assumes "new_log l" "blank w p" "loadIndex bt p l opts w = (r, w')"
  shows "keeps_blank w w' \<and> ((\<exists>idx. r = Ret (Inr idx) \<and> Index_NEntries (bi_Mem idx) = 0) \<or> (\<exists>e. r = Ret (Inl e)))"
proof -
  obtain e0 w0 where 0: "OpenCreate p w = (e0, w0)" by (cases "OpenCreate p w")
  note b0 = OpenCreate_blank [OF 0]
  have c0: "contents w0 p = []" using b0 assms(2) by (simp add: keeps_blank_def blank_def)
  have ld: "Index_Load bt p w = (Ret (e0, Index_zero bt), w0)"
    using 0 c0 by (cases e0) (simp_all add: Index_Load_def Load_loop.simps [of _ "[]"] Reader_Next_def)
  obtain r1 w1 where 1: "(if e0 \<noteq> None \<or> (Index_NEntries (Index_zero bt) = 0 \<and> \<not> Log_IsEmpty l)
      then recoverIndexFromLog bt l p w0 else (Ret (Inr (Index_zero bt)), w0)) = (r1, w1)"
    by (cases "if e0 \<noteq> None \<or> (Index_NEntries (Index_zero bt) = 0 \<and> \<not> Log_IsEmpty l)
      then recoverIndexFromLog bt l p w0 else (Ret (Inr (Index_zero bt)), w0)")
  have r1: "keeps_blank w0 w1 \<and> (r1 = Ret (Inr (Index_zero bt)) \<or> (\<exists>e. r1 = Ret (Inl e)))"
    using 1 recover_new [OF assms(1)] by (auto simp: keeps_blank_def split: if_splits)
  obtain r2 w2 where 2: "NewWriter p (opt_SyncMode opts AND SyncIndex > 0) w1 = (r2, w2)"
    by (cases "NewWriter p (opt_SyncMode opts AND SyncIndex > 0) w1")
  have kb: "keeps_blank w w1" "keeps_blank w w2"
    using r1 b0 NewWriter_blank [OF 2] keeps_blank_trans by blast+
  have z: "Index_NEntries (Index_zero bt) = 0" by (simp add: Index_NEntries_def Index_zero_def)
  show ?thesis
    using assms(3) r1 kb 2 z unfolding loadIndex_def ld prod.case go.case 1 Let_def
    by (auto split: sum.splits)
qed

lemma loadIndexes_new:
  assumes "new_log l" "\<forall>fork\<in>set forks. blank w (idxPath dir fork)"
    "loadIndexes bt dir l opts forks es n0 w = (Ret (Inr (es', n)), w')"
  shows "n = n0"
  using assms(2,3)
proof (induction forks arbitrary: es n0 w)
  case (Cons fork forks)
  obtain r w1 where 1: "loadIndex bt (idxPath dir fork) l opts w = (r, w1)" by (cases "loadIndex bt (idxPath dir fork) l opts w")
  note li = loadIndex_new [OF assms(1) _ 1]
  obtain idx where idx: "r = Ret (Inr idx)" "Index_NEntries (bi_Mem idx) = 0" "keeps_blank w w1"
    using li Cons.prems 1 by auto
  have "loadIndexes bt dir l opts forks (AList.update fork idx es) n0 w1 = (Ret (Inr (es', n)), w')"
    using Cons.prems(2) 1 idx by simp
  then show ?case using Cons.IH [of w1] Cons.prems(1) idx(3) by (auto simp: keeps_blank_def)
qed simp

text \<open>A bucket opened where no index and no value log has content is never started afresh.\<close>

lemma openBucket_rec_blank:
  assumes "\<forall>fork\<in>set forks \<union> {''''}. blank w (idxPath dir fork)" "blank w (dir @ [dataLogName])" "0 < pg" "128 * pg < 2 ^ 62"
  shows "fst (openBucket_rec (Suc depth) bt pg dir forks opts w) \<noteq> None"
proof -
  obtain e1 w1 where 1: "MkdirAll dir w = (e1, w1)" by (cases "MkdirAll dir w")
  have b1: "\<forall>fork\<in>set (forks @ ['''']). blank w1 (idxPath dir fork)" "blank w1 (dir @ [dataLogName])"
    using MkdirAll_blank [OF 1] assms(1,2) by (auto simp: keeps_blank_def)
  obtain r2 w2 where 2: "vlog_Open pg (dir @ [dataLogName]) (opt_SyncMode opts AND SyncData > 0) w1 = (r2, w2)"
    by (cases "vlog_Open pg (dir @ [dataLogName]) (opt_SyncMode opts AND SyncData > 0) w1")
  show ?thesis
  proof (cases r2)
    case (Inl e)
    then show ?thesis using 1 2 by (cases e1) simp_all
  next
    case (Inr l)
    note v = vlog_Open_blank [OF 2 [unfolded Inr] b1(2) assms(3,4)]
    have b2: "\<forall>fork\<in>set (forks @ ['''']). blank w2 (idxPath dir fork)" using v(2) b1(1) by auto
    obtain r3 w3 where 3: "loadIndexes bt dir l opts (forks @ ['''']) [] 0 w2 = (r3, w3)"
      by (cases "loadIndexes bt dir l opts (forks @ ['''']) [] 0 w2")
    have "n = 0" if "r3 = Ret (Inr (es, n))" for es n using loadIndexes_new [OF v(1) b2] 3 that by blast
    then show ?thesis using 1 2 3 Inr
      by (cases e1; cases r3) (auto simp: Let_def split: sum.splits)
  qed
qed

end

text \<open>
  C23 (termination): opening a bucket returns, with a bucket or an error, for every state of the file
  system and every sequence of failing system calls: when the code removes a spent bucket and calls
  itself, the second call finds no content left and does not call itself again.
\<close>

theorem openBucket_returns:
  assumes "index_btree bt" "0 < pg" "128 * pg < 2 ^ 62"
  shows "\<exists>r w'. openBucket bt pg dir forks opts w = (Some r, w')"
proof -
  have "fst (openBucket_rec (Suc (Suc 0)) bt pg dir forks opts w) \<noteq> None"
  proof (subst openBucket_rec.simps, goal_cases)
    case 1
    have rec: "\<exists>r. fst (openBucket_rec (Suc 0) bt pg dir (forks @ ['''']) opts w2) = Some r"
      if "removeBucketDir dir (forks @ ['''']) w1 = (None, w2)" for w1 w2
      using index_btree.openBucket_rec_blank [OF assms(1) _ _ assms(2,3)] removeBucketDir_blank [OF that] by auto
    show ?case
      by (auto simp: Let_def simp del: openBucket_rec.simps intro: rec
          split: prod.splits option.splits sum.splits go.splits)
  qed
  then show ?thesis unfolding openBucket_def numeral_2_eq_2
    by (cases "openBucket_rec (Suc (Suc 0)) bt pg dir forks opts w") auto
qed

section \<open>Witnesses\<close>

theorem bucket_Fork_copies_witness:
  "\<exists>b' w'. bucket_Fork alist_btree '''' ''x'' wit_bucket wit_bucket_world = (None, b', w') \<and>
     fork_items alist_btree b' ''x'' = [wit_item 3]"
  using bucket_Fork_copies [OF alist_index.index_btree_axioms wit_bucket_ok wit_has_fork, of "''x''"] wit_fork_items_list
  by (auto simp: wit_bucket_def wit_bucket_world_def node_at_def idxPath_def)

theorem bucket_RemoveFork_ok_witness:
  "bucket_RemoveFork ''x'' wit_bucket wit_bucket_world = (Some ErrNoSuchFork, wit_bucket, wit_bucket_world) \<and>
   (\<exists>b' w'. bucket_RemoveFork '''' wit_bucket wit_bucket_world = (None, b', w') \<and> map_of (b_indexes b') '''' = None)"
  using bucket_RemoveFork_ok [OF wit_bucket_ok, of "''x''"] bucket_RemoveFork_ok [OF wit_bucket_ok, of "''''"] wit_has_fork
  by (auto simp: wit_bucket_def)

theorem openBucket_returns_witness:
  "\<exists>r w'. openBucket alist_btree 4096 [''K00000000000000000003''] [''x''] DefaultOptions
      \<lparr>w_fs = [], w_faults = [False, False, True]\<rparr> = (Some r, w')"
  by (rule openBucket_returns [OF alist_index.index_btree_axioms]) simp_all

text \<open>The bucket of the other examples, moved into a directory that is named after its key.\<close>

definition re_dir :: path where
  "re_dir = [Key_String (key_of_int 0)]"

definition re_bucket :: "(Key \<times> Location list) list bucket" where
  "re_bucket = wit_bucket\<lparr>b_dir := re_dir, b_log := wit_log\<lparr>log_path := re_dir @ [''dat.log'']\<rparr>,
     b_indexes := [('''', wit_idx\<lparr>bi_Log := \<lparr>wr_path = re_dir @ [''idx.log''], wr_sync = False\<rparr>\<rparr>)]\<rparr>"

definition re_world :: world where
  "re_world = \<lparr>w_fs = [([], Dir), (re_dir, Dir), (re_dir @ [''dat.log''], File (log_mmap wit_log)),
     (re_dir @ [''idx.log''], File (enc_recs [(wit_loc, 1)]))], w_faults = []\<rparr>"

lemma path_log: "stored (l\<lparr>log_path := p\<rparr>) off xs = stored l off xs" "log_rep (l\<lparr>log_path := p\<rparr>) its = log_rep l its"
  by (simp_all add: stored_def log_rep_def wf_log_def used_def)

lemma re_good: "good_loc (wit_log\<lparr>log_path := p\<rparr>) wit_loc" "batch_of (wit_log\<lparr>log_path := p\<rparr>) wit_loc = [wit_item 3]"
  using wit_good(1) wit_stored batch_of_stored [of "wit_log\<lparr>log_path := p\<rparr>" wit_loc "[wit_item 3]"]
  by (simp_all add: good_loc_def path_log wit_loc_def)

lemma wit_all_locs: "all_locs alist_btree (bi_Mem wit_idx) = [wit_loc]"
  by (simp add: all_locs_def wit_idx_def Index_Set_def Index_zero_def Let_def wit_loc_def alist_btree_def)

lemma re_bucket_ok: "bucket_ok alist_btree [wit_item 3] re_bucket re_world"
proof -
  have "locs_at alist_btree (bi_Mem wit_idx) = apply_rec wit_loc (\<lambda>_. [])"
    by (auto simp: wit_idx_def alist_index.locs_at_Set apply_rec_def wit_loc_def)
  then have "wal_ok alist_btree re_world (wit_idx\<lparr>bi_Log := \<lparr>wr_path = re_dir @ [''idx.log''], wr_sync = False\<rparr>\<rparr>)"
    unfolding wal_ok_def
    by (intro exI [of _ "[(wit_loc, 1)]"])
      (simp add: re_world_def re_dir_def file_at_def node_at_def rec_ok_def wit_loc_def)
  moreover have "index_ok alist_btree (wit_log\<lparr>log_path := p\<rparr>) (bi_Mem wit_idx)" for p
    using wit_index_ok re_good(1) wit_all_locs by (simp add: index_ok_def)
  moreover have "log_rep (wit_log\<lparr>log_path := p\<rparr>) [wit_item 3]" for p using wit_rep by (simp add: path_log)
  ultimately show ?thesis
    by (simp add: bucket_ok_def fork_ok_def re_bucket_def re_world_def re_dir_def log_on_disk_def file_at_def node_at_def
        idxPath_def dataLogName_def)
qed


end
