(* ===== verification/Recover.thy ===== *)
theory Recover
  imports Bucket_Correct
begin

text \<open>
  Rebuilding an index from the value log (\<^verbatim>\<open>index.FromVlog\<close>, called by \<^verbatim>\<open>recoverIndexFromLog\<close>). The
  loop cuts the log into ascending runs; \<open>run_inv\<close> is its invariant. For an undamaged log that does
  not start with a negative key the rebuilt index refers to every item of the log exactly once; with
  a negative first key it also holds a location of length zero, on which reading gets stuck.
\<close>

section \<open>Iterating over the whole log\<close>

text \<open>An iterator that was made for \<open>N\<close> items, after \<open>done\<close> of them.\<close>

definition scan_iter :: "Off \<Rightarrow> Items \<Rightarrow> Iter \<Rightarrow> bool" where
  "scan_iter N done li \<longleftrightarrow>
     it_currOff li = of_nat (length (enc_items done)) \<and> it_currLen li = N - of_nat (length done) \<and>
     \<not> it_exhausted li \<and> it_err li = None"

lemma scan_iter_len:
  assumes "scan_iter N done li" "length done < unat N"
  shows "it_currLen li \<noteq> 0"
proof
  assume "it_currLen li = 0"
  then have "(of_nat (length done) :: Off) = N" using assms(1) by (simp add: scan_iter_def)
  moreover have "length done < 2 ^ 64" using assms(2) unsigned_less [of N, where ?'a = nat] by simp
  then have "unat (of_nat (length done) :: Off) = length done" by (intro unat_of_nat64)
  ultimately show False using assms(2) by simp
qed

lemma unat_max_off: "unat (- 1 :: Off) = 2 ^ 64 - 1"
  by (simp add: unsigned_minus_1_eq_mask mask_eq_exp_minus_1)

lemma stored_rest:
  assumes "log_rep l (done @ rest)" "\<forall>it\<in>set (done @ rest). valid_item it"
  shows "stored l (of_nat (length (enc_items done))) rest"
  using stored_new [OF assms(1)] assms(2) by simp

lemma scan_Next:
  assumes rep: "log_rep l (done @ x # xs)" and v: "\<forall>it\<in>set (done @ x # xs). valid_item it" and li: "scan_iter N done li"
    and n: "length done < unat N"
  obtains li' where "Iter_Next l li = Ret (True, li')" "it_item li' = x" "scan_iter N (done @ [x]) li'"
proof -
  have st: "stored l (it_currOff li) (x # xs)" using stored_rest [OF rep v] li by (simp add: scan_iter_def)
  have "Next_loop l li = Ret (True, li\<lparr>it_item := x\<rparr>)"
    using readItemAt_hd [OF st] by (simp add: Next_loop.simps [of l li])
  moreover have "\<not> size_off l \<le> it_currOff li" by (rule stored_off_less [OF st])
  ultimately show ?thesis
    using that [of "li\<lparr>it_item := x, it_prevOff := it_currOff li, it_prevLen := it_currLen li,
        it_currOff := it_currOff li + Item_StorageSize x, it_currLen := it_currLen li - 1\<rparr>"]
      scan_iter_len [OF li n] li
    by (simp add: Iter_Next_def scan_iter_def of_nat_Item_StorageSize)
qed

lemma scan_end:
  assumes "log_rep l done" "scan_iter N done li" "log_mmap l \<noteq> []" "length done < unat N"
  shows "Iter_Next l li = Ret (False, li\<lparr>it_exhausted := True\<rparr>)"
proof -
  have "size_off l = it_currOff li" using log_rep_size [OF assms(1)] assms(2) by (simp add: scan_iter_def)
  then show ?thesis using assms(2,3) scan_iter_len [OF assms(2,4)] by (simp add: Iter_Next_def)
qed

section \<open>The runs\<close>

text \<open>
  After \<open>done\<close>: \<open>before\<close> is in the index, \<open>cur\<close> is the run in progress.
\<close>

definition run_inv :: "'m ibtree \<Rightarrow> Log \<Rightarrow> Items \<Rightarrow> 'm runs \<Rightarrow> bool" where
  "run_inv bt l done s \<longleftrightarrow>
     (\<exists>before cur. done = before @ cur \<and> index_ok bt l (fv_index s) \<and>
        mset (index_items bt l (fv_index s)) = mset before \<and> sorted (keys_of cur) \<and>
        loc_Off (fv_prevLoc s) = of_nat (length (enc_items done)) \<and>
        (if done = [] then fv_isInitialItem s \<and> fv_prevLoc s = zero_loc \<and> fv_lastLoc s = zero_loc
         else \<not> fv_isInitialItem s \<and> cur \<noteq> [] \<and> loc_Key (fv_prevLoc s) = item_Key (last done) \<and>
              fv_lastLoc s = \<lparr>loc_Key = item_Key (hd cur), loc_Off = of_nat (length (enc_items before)),
                              loc_Len = of_nat (length cur)\<rparr>))"

lemma good_loc_run:
  assumes "log_rep l (before @ cur @ rest)" "\<forall>it\<in>set (before @ cur @ rest). valid_item it"
    "cur \<noteq> []" "sorted (keys_of cur)" "length cur < 2 ^ 32"
  defines "loc \<equiv> \<lparr>loc_Key = item_Key (hd cur), loc_Off = of_nat (length (enc_items before)), loc_Len = of_nat (length cur)\<rparr>"
  shows "good_loc l loc" "batch_of l loc = cur"
proof -
  have "stored l (of_nat (length (enc_items before))) (cur @ rest)" using stored_rest [OF assms(1,2)] .
  then have "stored l (loc_Off loc) cur" unfolding stored_def loc_def by auto
  then show "good_loc l loc" "batch_of l loc = cur"
    using assms(3-5) batch_of_stored [of l loc cur] unfolding good_loc_def loc_def by (auto intro!: exI [of _ cur])
qed

lemma sorted_keys_snoc: "sorted (keys_of cur) \<Longrightarrow> cur \<noteq> [] \<Longrightarrow> item_Key (last cur) \<le> item_Key x \<Longrightarrow> sorted (keys_of (cur @ [x]))"
  by (cases cur rule: rev_cases) (auto simp: keys_of_def sorted_append intro: order_trans)

context index_btree
begin

lemma run_step:
  assumes inv: "run_inv bt l done s" and rep: "log_rep l (done @ x # xs)" and v: "\<forall>it\<in>set (done @ x # xs). valid_item it"
    and len: "length (done @ x # xs) < 2 ^ 32" and first: "done = [] \<longrightarrow> key_int (item_Key x) \<ge> 0"
  shows "run_inv bt l (done @ [x]) (FromVlog_step bt x s)"
proof -
  obtain before cur where bc: "done = before @ cur" "index_ok bt l (fv_index s)"
    "mset (index_items bt l (fv_index s)) = mset before" "sorted (keys_of cur)"
    "loc_Off (fv_prevLoc s) = of_nat (length (enc_items done))"
    "if done = [] then fv_isInitialItem s \<and> fv_prevLoc s = zero_loc \<and> fv_lastLoc s = zero_loc
     else \<not> fv_isInitialItem s \<and> cur \<noteq> [] \<and> loc_Key (fv_prevLoc s) = item_Key (last done) \<and>
       fv_lastLoc s = \<lparr>loc_Key = item_Key (hd cur), loc_Off = of_nat (length (enc_items before)), loc_Len = of_nat (length cur)\<rparr>"
    using inv unfolding run_inv_def by blast
  have off: "loc_Off (fv_prevLoc (FromVlog_step bt x s)) = of_nat (length (enc_items (done @ [x])))"
    "loc_Key (fv_prevLoc (FromVlog_step bt x s)) = item_Key x" "\<not> fv_isInitialItem (FromVlog_step bt x s)"
    using bc(5) by (simp_all add: FromVlog_step_def Let_def HeaderSize_def TrailerSize_def)
  show ?thesis
  proof (cases "done = []")
    case True
    have "\<not> item_Key x < Key 0" using first True by (simp add: less_Key_def key_int_def)
    then have "fv_index (FromVlog_step bt x s) = fv_index s"
      "fv_lastLoc (FromVlog_step bt x s) = \<lparr>loc_Key = item_Key x, loc_Off = 0, loc_Len = 1\<rparr>"
      using True bc(6) by (simp_all add: FromVlog_step_def Let_def zero_loc_def)
    then show ?thesis unfolding run_inv_def using True bc(1-3) off
      by (intro exI [of _ "[]"] exI [of _ "[x]"]) (simp add: keys_of_def)
  next
    case False
    then have c: "cur \<noteq> []" "loc_Key (fv_prevLoc s) = item_Key (last cur)" "\<not> fv_isInitialItem s"
      "fv_lastLoc s = \<lparr>loc_Key = item_Key (hd cur), loc_Off = of_nat (length (enc_items before)), loc_Len = of_nat (length cur)\<rparr>"
      using bc(1,6) by auto
    show ?thesis
    proof (cases "loc_Key (fv_prevLoc s) > item_Key x")
      case True
      have st: "fv_index (FromVlog_step bt x s) = Index_Set bt (fv_lastLoc s) (fv_index s)"
        "fv_lastLoc (FromVlog_step bt x s) = \<lparr>loc_Key = item_Key x, loc_Off = of_nat (length (enc_items done)), loc_Len = 1\<rparr>"
        using True bc(5) c(3) by (simp_all add: FromVlog_step_def Let_def)
      have g: "good_loc l (fv_lastLoc s)" "batch_of l (fv_lastLoc s) = cur"
        using good_loc_run [of l before cur "x # xs"] rep v bc(1,4) c(1,4) len by auto
      show ?thesis unfolding run_inv_def using False off st Set_items [OF bc(2) g(1)] g(2) bc(1,3)
        by (intro exI [of _ "done"] exI [of _ "[x]"]) (simp add: keys_of_def)
    next
      case noturn: False
      have st: "fv_index (FromVlog_step bt x s) = fv_index s"
        "fv_lastLoc (FromVlog_step bt x s) = (fv_lastLoc s)\<lparr>loc_Len := loc_Len (fv_lastLoc s) + 1\<rparr>"
        using noturn c(3) by (simp_all add: FromVlog_step_def Let_def)
      have "sorted (keys_of (cur @ [x]))" using sorted_keys_snoc [OF bc(4) c(1)] noturn c(2) by simp
      then show ?thesis unfolding run_inv_def using False off st bc(1-3) c(1,4)
        by (intro exI [of _ before] exI [of _ "cur @ [x]"]) (simp add: add.commute)
    qed
  qed
qed

lemma FromVlog_loop_runs:
  assumes "run_inv bt l done s" "scan_iter (NOT 0) done li" "log_rep l (done @ rest)" "\<forall>it\<in>set (done @ rest). valid_item it"
    "length (done @ rest) < 2 ^ 32" "log_mmap l \<noteq> []" "done = [] \<and> rest \<noteq> [] \<longrightarrow> key_int (item_Key (hd rest)) \<ge> 0"
  shows "\<exists>li' s'. FromVlog_loop bt l li s = Ret (li', s') \<and> it_err li' = None \<and> run_inv bt l (done @ rest) s'"
  using assms
proof (induction rest arbitrary: "done" li s)
  case Nil
  have "Iter_Next l li = Ret (False, li\<lparr>it_exhausted := True\<rparr>)"
    using scan_end [of l "done" "NOT 0" li] Nil.prems by (simp add: unat_max_off)
  then show ?case using Nil.prems(1,2) by (simp add: FromVlog_loop.simps [of bt l li] scan_iter_def)
next
  case (Cons x xs)
  have "length done < unat (NOT 0 :: Off)" using Cons.prems(5) by (simp add: unat_max_off)
  then obtain li1 where 1: "Iter_Next l li = Ret (True, li1)" "it_item li1 = x" "scan_iter (NOT 0) (done @ [x]) li1"
    using scan_Next [OF Cons.prems(3,4,2)] by metis
  have "run_inv bt l (done @ [x]) (FromVlog_step bt x s)"
    by (rule run_step [OF Cons.prems(1,3,4,5)]) (use Cons.prems(7) in simp)
  then have "\<exists>li' s'. FromVlog_loop bt l li1 (FromVlog_step bt x s) = Ret (li', s') \<and> it_err li' = None \<and>
      run_inv bt l ((done @ [x]) @ xs) s'"
    using Cons.prems by (intro Cons.IH 1(3)) simp_all
  then show ?case using 1(1,2) by (simp add: FromVlog_loop.simps [of bt l li])
qed

lemma FromVlog_runs:
  assumes "log_rep l its" "\<forall>it\<in>set its. valid_item it" "length its < 2 ^ 32" "log_mmap l \<noteq> []"
    "its \<noteq> [] \<longrightarrow> key_int (item_Key (hd its)) \<ge> 0"
  shows "\<exists>i. FromVlog bt l = Ret (Inr i) \<and> index_ok bt l i \<and> mset (index_items bt l i) = mset its"
proof -
  define li where "li = Log_At \<lparr>loc_Key = Key 0, loc_Off = 0, loc_Len = NOT 0\<rparr> True"
  define s0 where "s0 = \<lparr>fv_index = Index_zero bt, fv_prevLoc = zero_loc, fv_lastLoc = zero_loc, fv_isInitialItem = True\<rparr>"
  have "run_inv bt l [] s0"
    by (simp add: run_inv_def s0_def index_ok_def index_items_def keys_of_def zero_loc_def)
  moreover have "scan_iter (NOT 0) [] li" by (simp add: scan_iter_def li_def Log_At_def)
  ultimately obtain li' s where r: "FromVlog_loop bt l li s0 = Ret (li', s)" "it_err li' = None" "run_inv bt l its s"
    using FromVlog_loop_runs [of l "[]" s0 li its] assms by auto
  have F: "FromVlog bt l = Ret (Inr (if loc_Len (fv_lastLoc s) > 0 then Index_Set bt (fv_lastLoc s) (fv_index s) else fv_index s))"
    unfolding FromVlog_def Let_def li_def [symmetric] s0_def [symmetric] r(1) go_bind.simps prod.case r(2) option.case ..
  obtain before cur where bc: "its = before @ cur" "index_ok bt l (fv_index s)"
    "mset (index_items bt l (fv_index s)) = mset before" "sorted (keys_of cur)"
    "loc_Off (fv_prevLoc s) = of_nat (length (enc_items its))"
    "if its = [] then fv_isInitialItem s \<and> fv_prevLoc s = zero_loc \<and> fv_lastLoc s = zero_loc
     else \<not> fv_isInitialItem s \<and> cur \<noteq> [] \<and> loc_Key (fv_prevLoc s) = item_Key (last its) \<and>
       fv_lastLoc s = \<lparr>loc_Key = item_Key (hd cur), loc_Off = of_nat (length (enc_items before)), loc_Len = of_nat (length cur)\<rparr>"
    using r(3) unfolding run_inv_def by blast
  show ?thesis
  proof (cases "its = []")
    case True
    then show ?thesis using F bc by (simp add: zero_loc_def)
  next
    case False
    then have g: "good_loc l (fv_lastLoc s)" "batch_of l (fv_lastLoc s) = cur"
      using good_loc_run [of l before cur "[]"] assms(1-3) bc(1,4,6) by auto
    then have "loc_Len (fv_lastLoc s) > 0" using good_loc_len(3) by (simp add: word_gt_0)
    then show ?thesis using F Set_items [OF bc(2) g(1)] g(2) bc(1,3) by simp
  qed
qed

text \<open>Without an invariant on the runs: the loop ends without an error and only adds locations.\<close>

lemma FromVlog_step_mono: "set (all_locs bt (fv_index s)) \<subseteq> set (all_locs bt (fv_index (FromVlog_step bt x s)))"
proof -
  have "set (all_locs bt (Index_Set bt loc i)) = insert loc (set (all_locs bt i))" for loc i
    using mset_all_locs_Set [of loc i] by (metis set_mset_add_mset_insert set_mset_mset)
  then show ?thesis by (auto simp: FromVlog_step_def Let_def)
qed

lemma FromVlog_loop_mono:
  assumes "scan_iter (NOT 0) done li" "log_rep l (done @ rest)" "\<forall>it\<in>set (done @ rest). valid_item it"
    "length (done @ rest) < 2 ^ 32" "log_mmap l \<noteq> []"
  shows "\<exists>li' s'. FromVlog_loop bt l li s = Ret (li', s') \<and> it_err li' = None \<and>
    set (all_locs bt (fv_index s)) \<subseteq> set (all_locs bt (fv_index s'))"
  using assms
proof (induction rest arbitrary: "done" li s)
  case Nil
  have "Iter_Next l li = Ret (False, li\<lparr>it_exhausted := True\<rparr>)" using scan_end [of l "done" "NOT 0" li] Nil.prems by (simp add: unat_max_off)
  then show ?case using Nil.prems(1) by (simp add: FromVlog_loop.simps [of bt l li] scan_iter_def)
next
  case (Cons x xs)
  have "length done < unat (NOT 0 :: Off)" using Cons.prems(4) by (simp add: unat_max_off)
  then obtain li1 where 1: "Iter_Next l li = Ret (True, li1)" "it_item li1 = x" "scan_iter (NOT 0) (done @ [x]) li1"
    using scan_Next [OF Cons.prems(2,3,1)] by metis
  have "\<exists>li' s'. FromVlog_loop bt l li1 (FromVlog_step bt x s) = Ret (li', s') \<and> it_err li' = None \<and>
      set (all_locs bt (fv_index (FromVlog_step bt x s))) \<subseteq> set (all_locs bt (fv_index s'))"
    using Cons.prems by (intro Cons.IH [OF 1(3)]) simp_all
  then show ?case using 1(1,2) FromVlog_step_mono [of s x] by (force simp: FromVlog_loop.simps [of bt l li])
qed

lemma FromVlog_zero_loc:
  assumes "log_rep l (x # xs)" "\<forall>it\<in>set (x # xs). valid_item it" "length (x # xs) < 2 ^ 32"
    "log_mmap l \<noteq> []" "key_int (item_Key x) < 0"
  shows "\<exists>i. FromVlog bt l = Ret (Inr i) \<and> zero_loc \<in> set (all_locs bt i)"
proof -
  define li where "li = Log_At \<lparr>loc_Key = Key 0, loc_Off = 0, loc_Len = NOT 0\<rparr> True"
  define s0 where "s0 = \<lparr>fv_index = Index_zero bt, fv_prevLoc = zero_loc, fv_lastLoc = zero_loc, fv_isInitialItem = True\<rparr>"
  have sc: "scan_iter (NOT 0) [] li" by (simp add: scan_iter_def li_def Log_At_def)
  obtain li1 where 1: "Iter_Next l li = Ret (True, li1)" "it_item li1 = x" "scan_iter (NOT 0) ([] @ [x]) li1"
    using scan_Next [of l "[]" x xs "NOT 0" li] assms(1,2) sc by (auto simp: unat_max_off)
  define s1 where "s1 = FromVlog_step bt x s0"
  have "item_Key x < Key 0" using assms(5) by (simp add: less_Key_def key_int_def)
  then have "fv_index s1 = Index_Set bt zero_loc (Index_zero bt)"
    by (simp add: s1_def s0_def FromVlog_step_def Let_def) (simp add: zero_loc_def)
  then have z: "zero_loc \<in> set (all_locs bt (fv_index s1))"
    using mset_all_locs_Set [of zero_loc "Index_zero bt"] by (metis set_mset_mset union_single_eq_member)
  obtain li2 s2 where 2: "FromVlog_loop bt l li1 s1 = Ret (li2, s2)" "it_err li2 = None"
    "set (all_locs bt (fv_index s1)) \<subseteq> set (all_locs bt (fv_index s2))"
    using FromVlog_loop_mono [OF 1(3), of l xs s1] assms(1-4) by auto
  have "FromVlog_loop bt l li s0 = Ret (li2, s2)" using 1(1,2) 2(1) by (simp add: FromVlog_loop.simps [of bt l li] s1_def)
  then have F: "FromVlog bt l = Ret (Inr (if loc_Len (fv_lastLoc s2) > 0 then Index_Set bt (fv_lastLoc s2) (fv_index s2) else fv_index s2))"
    unfolding FromVlog_def Let_def li_def [symmetric] s0_def [symmetric] using 2(2) by simp
  have "set (all_locs bt (Index_Set bt loc i)) = insert loc (set (all_locs bt i))" for loc i
    using mset_all_locs_Set [of loc i] by (metis set_mset_add_mset_insert set_mset_mset)
  then show ?thesis using F z 2(3) by auto
qed

end

section \<open>Properties of recovery\<close>

text \<open>
  C22 (recovery): rebuilding the index from an undamaged value log whose first key is not negative
  succeeds, and the new index refers to sorted batches that together hold every item of the log
  exactly once (so items that were popped before come back, none is lost).
\<close>

theorem FromVlog_recovers_all:
  assumes "index_btree bt" "log_rep l its" "\<forall>it\<in>set its. valid_item it" "length its < 2 ^ 32" "log_mmap l \<noteq> []"
    "its \<noteq> [] \<longrightarrow> key_int (item_Key (hd its)) \<ge> 0"
  shows "\<exists>i. FromVlog bt l = Ret (Inr i) \<and> index_ok bt l i \<and> mset (index_items bt l i) = mset its"
  by (rule index_btree.FromVlog_runs [OF assms])

theorem FromVlog_recovers_all_witness:
  "\<exists>i. FromVlog alist_btree wit_log = Ret (Inr i) \<and> mset (index_items alist_btree wit_log i) = {#wit_item 3#}"
proof -
  have "key_int (item_Key (wit_item 3)) \<ge> 0" by (simp add: wit_item_def key_int_def key_of_int_def)
  then show ?thesis
    using FromVlog_recovers_all [OF alist_index.index_btree_axioms wit_rep _ _ wit_facts(3)] by auto
qed

definition neg_log :: Log where
  "neg_log = \<lparr>log_path = [''dat.log''], log_mmap = enc_items [wit_item (- 1)], log_size = 15,
              log_syncOnWrite = False, log_isEmpty = False\<rparr>"

lemma neg_rep: "log_rep neg_log [wit_item (- 1)]"
  by (simp add: log_rep_def wf_log_def used_def neg_log_def del: enc_items_simps)

text \<open>
  C34 (recovery, negative first key): if the first key of the log is negative, the rebuilt index also
  gets a location of length zero at key 0, as the loop compares the first item with the zero value
  of the previous location. No batch is stored there.
\<close>

theorem FromVlog_negative_first:
  assumes "index_btree bt" "log_rep l (x # xs)" "\<forall>it\<in>set (x # xs). valid_item it" "length (x # xs) < 2 ^ 32"
    "log_mmap l \<noteq> []" "key_int (item_Key x) < 0"
  shows "\<exists>i. FromVlog bt l = Ret (Inr i) \<and> zero_loc \<in> set (all_locs bt i)"
  by (rule index_btree.FromVlog_zero_loc [OF assms])

theorem FromVlog_negative_first_witness:
  "\<exists>i. FromVlog alist_btree neg_log = Ret (Inr i) \<and> zero_loc \<in> set (all_locs alist_btree i)"
  using FromVlog_negative_first [OF alist_index.index_btree_axioms neg_rep]
  by (simp add: neg_log_def wit_item_def key_int_def key_of_int_def valid_item_def enc_item_def)

end
