(* ===== verification/Buckets.thy ===== *)
theory Buckets
  imports Bucket
begin

text \<open>
  The collection of buckets (src/buckets.go, with \<^verbatim>\<open>ForkName.Validate\<close> of src/api.go and src/util.go):
  an ordered map from bucket keys to buckets, of which only some are loaded at a time.

  A bucket of the collection is a pointer in the code. The map holds the value it points to
  (\<open>None\<close> for nil), and \<open>put_bucket\<close> stores through the pointer. A bucket that \<^verbatim>\<open>closeUnused\<close> or
  \<^verbatim>\<open>delete\<close> takes out of the map may still be in use by a caller: \<open>bs_closed\<close> keeps the buckets that
  were closed, in order, with their memory at that time, so that a pointer held across such a call
  can still be followed (\<open>deref\<close>).

  The mutex is left out: the operations are modelled one after the other. \<^verbatim>\<open>readBuf\<close> only provides
  memory. Messages to the logger are left out.
\<close>

section \<open>Code outside of the repository\<close>

text \<open>
  The two ordered maps, the page size, \<^verbatim>\<open>slices.SortFunc\<close> (which is not stable, so its result is not
  determined by its contract), \<^verbatim>\<open>copy.Copy\<close>, \<^verbatim>\<open>renameio.WriteFile\<close>, and what package
  \<^verbatim>\<open>unicode\<close> says about letters and digits beyond ASCII.
\<close>

record ('m, 't) deps =
  d_tree :: "(Key, 'm bucket option, 't) btree"
  d_index :: "'m ibtree"
  d_page :: int
  d_SortFunc :: "(Item \<Rightarrow> Item \<Rightarrow> int) \<Rightarrow> Items \<Rightarrow> Items"
  d_Copy :: "path \<Rightarrow> path \<Rightarrow> world \<Rightarrow> err option \<times> world"
  d_WriteFile :: "path \<Rightarrow> bytes \<Rightarrow> world \<Rightarrow> err option \<times> world"
  d_IsAlnum :: "nat \<Rightarrow> bool"

section \<open>Fork names\<close>

text \<open>The conversion \<^verbatim>\<open>[]rune(s)\<close>: UTF-8, with \<^verbatim>\<open>U+FFFD\<close> for each byte that starts no valid encoding.\<close>

definition cont :: "nat \<Rightarrow> nat \<Rightarrow> char \<Rightarrow> bool" where
  "cont lo hi c \<longleftrightarrow> lo \<le> (of_char c :: nat) \<and> (of_char c :: nat) \<le> hi"

definition rune2 :: "char \<Rightarrow> char \<Rightarrow> nat" where
  "rune2 a b = (of_char a mod 32) * 64 + of_char b mod 64"

definition rune3 :: "char \<Rightarrow> char \<Rightarrow> char \<Rightarrow> nat" where
  "rune3 a b c = (of_char a mod 16) * 4096 + (of_char b mod 64) * 64 + of_char c mod 64"

definition rune4 :: "char \<Rightarrow> char \<Rightarrow> char \<Rightarrow> char \<Rightarrow> nat" where
  "rune4 a b c e = (of_char a mod 8) * 262144 + (of_char b mod 64) * 4096 + (of_char c mod 64) * 64 + of_char e mod 64"

definition decode_rune :: "string \<Rightarrow> nat \<times> nat" where
  "decode_rune s =
     (case s of
        [] \<Rightarrow> (0xFFFD, 0)
      | a # r \<Rightarrow>
          let n = (of_char a :: nat);
              lo = (if n = 0xE0 then 0xA0 else if n = 0xF0 then 0x90 else 0x80);
              hi = (if n = 0xED then 0x9F else if n = 0xF4 then 0x8F else 0xBF) in
          if n < 0x80 then (n, 1)
          else if 0xC2 \<le> n \<and> n \<le> 0xDF then
            (case r of b # _ \<Rightarrow> if cont lo hi b then (rune2 a b, 2) else (0xFFFD, 1) | _ \<Rightarrow> (0xFFFD, 1))
          else if 0xE0 \<le> n \<and> n \<le> 0xEF then
            (case r of b # c # _ \<Rightarrow> if cont lo hi b \<and> cont 0x80 0xBF c then (rune3 a b c, 3) else (0xFFFD, 1)
             | _ \<Rightarrow> (0xFFFD, 1))
          else if 0xF0 \<le> n \<and> n \<le> 0xF4 then
            (case r of b # c # e # _ \<Rightarrow>
               if cont lo hi b \<and> cont 0x80 0xBF c \<and> cont 0x80 0xBF e then (rune4 a b c e, 4) else (0xFFFD, 1)
             | _ \<Rightarrow> (0xFFFD, 1))
          else (0xFFFD, 1))"

lemma decode_rune_width: "s \<noteq> [] \<Longrightarrow> 0 < snd (decode_rune s)"
  by (auto simp: decode_rune_def Let_def split: list.splits)

function runes_of :: "string \<Rightarrow> nat list" where
  "runes_of s = (if s = [] then [] else let (r, n) = decode_rune s in r # runes_of (drop n s))"
  by pat_completeness auto
termination
  by (relation "measure length") (auto, metis decode_rune_width diff_less length_greater_0_conv snd_conv)

declare runes_of.simps [simp del]

text \<open>\<^verbatim>\<open>IsUpper\<close>, \<^verbatim>\<open>IsLower\<close> or \<^verbatim>\<open>IsDigit\<close>; the tables beyond ASCII are the parameter.\<close>

definition is_alnum :: "(nat \<Rightarrow> bool) \<Rightarrow> nat \<Rightarrow> bool" where
  "is_alnum uni rn \<longleftrightarrow>
     (if rn < 0x80 then (65 \<le> rn \<and> rn \<le> 90) \<or> (97 \<le> rn \<and> rn \<le> 122) \<or> (48 \<le> rn \<and> rn \<le> 57) else uni rn)"

definition ForkName_Validate :: "('m, 't) deps \<Rightarrow> ForkName \<Rightarrow> err option" where
  "ForkName_Validate d name =
     (if name = '''' then Some (ErrInvalid ''empty string not allowed as fork name'')
      else if list_all (\<lambda>rn. is_alnum (d_IsAlnum d) rn \<or> rn = 45 \<or> rn = 95) (runes_of name) then None
      else Some (ErrInvalid ''invalid fork name''))"

section \<open>Moving directories\<close>

definition moveFileOrDir :: "('m, 't) deps \<Rightarrow> bool \<Rightarrow> path \<Rightarrow> path \<Rightarrow> world \<Rightarrow> err option \<times> world" where
  "moveFileOrDir d xdev src dst w =
     (case Rename xdev src dst w of
        (e, w) \<Rightarrow>
          if e \<noteq> Some ErrXdev then (e, w)
          else case d_Copy d src dst w of
                 (Some e, w) \<Rightarrow> (Some e, w)
               | (None, w) \<Rightarrow> RemoveAll src w)"

section \<open>State\<close>

definition splitConfFile :: string where "splitConfFile = ''split.conf''"

record ('m, 't) buckets =
  bs_dir :: path
  bs_tree :: 't
  bs_trailers :: "((Key \<times> ForkName) \<times> Trailer) list"
  bs_opts :: Options
  bs_forks :: "ForkName list"
  bs_closed :: "(Key \<times> 'm bucket) list"

text \<open>A nil function would panic; \<^verbatim>\<open>Options.Validate\<close> refuses it before a collection is made.\<close>

definition split_fn :: "Options \<Rightarrow> Key \<Rightarrow> Key" where
  "split_fn opts = (case conf_Func (opt_BucketSplitConf opts) of Some f \<Rightarrow> f | None \<Rightarrow> (\<lambda>k. k))"

definition tree_keys :: "('m, 't) deps \<Rightarrow> ('m, 't) buckets \<Rightarrow> Key list" where
  "tree_keys d bs = map fst (bt_iter (d_tree d) (bs_tree bs))"

definition tree_get :: "('m, 't) deps \<Rightarrow> Key \<Rightarrow> ('m, 't) buckets \<Rightarrow> 'm bucket option option" where
  "tree_get d key bs = bt_get (d_tree d) (bs_tree bs) key"

definition tree_set :: "('m, 't) deps \<Rightarrow> Key \<Rightarrow> 'm bucket option \<Rightarrow> ('m, 't) buckets \<Rightarrow> ('m, 't) buckets" where
  "tree_set d key b bs = bs\<lparr>bs_tree := bt_set (d_tree d) (bs_tree bs) key b\<rparr>"

text \<open>\<^verbatim>\<open>GetAt\<close>\<close>

definition tree_at :: "('m, 't) deps \<Rightarrow> int \<Rightarrow> ('m, 't) buckets \<Rightarrow> (Key \<times> 'm bucket option) option" where
  "tree_at d i bs =
     (let es = bt_iter (d_tree d) (bs_tree bs)
      in if 0 \<le> i \<and> i < int (length es) then Some (es ! nat i) else None)"

text \<open>What a pointer to the bucket of \<open>key\<close> refers to: a store, and the memory after a store.\<close>

definition put_bucket :: "('m, 't) deps \<Rightarrow> Key \<Rightarrow> 'm bucket \<Rightarrow> ('m, 't) buckets \<Rightarrow> ('m, 't) buckets" where
  "put_bucket d key b bs = tree_set d key (Some b) bs"

definition put_trailer :: "Key \<Rightarrow> ForkName \<Rightarrow> Trailer \<Rightarrow> ('m, 't) buckets \<Rightarrow> ('m, 't) buckets" where
  "put_trailer key fork t bs = bs\<lparr>bs_trailers := AList.update (key, fork) t (bs_trailers bs)\<rparr>"

definition put_trailers :: "Key \<Rightarrow> (ForkName \<times> Trailer) list \<Rightarrow> ('m, 't) buckets \<Rightarrow> ('m, 't) buckets" where
  "put_trailers key calls bs = fold (\<lambda>(fork, t). put_trailer key fork t) calls bs"

definition buckPath :: "('m, 't) buckets \<Rightarrow> Key \<Rightarrow> path" where
  "buckPath bs key = bs_dir bs @ [Key_String key]"

section \<open>Closing and opening of single buckets\<close>

definition nloaded :: "('m, 't) deps \<Rightarrow> ('m, 't) buckets \<Rightarrow> int" where
  "nloaded d bs = int (length (filter (\<lambda>(_, buck). \<not> Option.is_none buck) (bt_iter (d_tree d) (bs_tree bs))))"

text \<open>The body of the loop of \<^verbatim>\<open>closeUnused\<close> for a loaded bucket\<close>

definition close_one :: "('m, 't) deps \<Rightarrow> Key \<Rightarrow> 'm bucket \<Rightarrow> err option \<Rightarrow> ('m, 't) buckets \<Rightarrow> world \<Rightarrow>
    err option \<times> ('m, 't) buckets \<times> world" where
  "close_one d key buck closeErrs bs w =
     (let bs = put_trailers key (bucket_Trailers buck) bs;
          (e, w) = bucket_Close buck w;
          closeErrs = (if opt_ErrorMode (bs_opts bs) = ErrorModeAbort then join_err closeErrs e else closeErrs)
      in (closeErrs, (tree_set d key None bs)\<lparr>bs_closed := bs_closed bs @ [(key, buck)]\<rparr>, w))"

text \<open>
  The loop, over the indices it visits; the number of buckets does not change in it.
\<close>

fun close_loop :: "('m, 't) deps \<Rightarrow> int \<Rightarrow> int \<Rightarrow> int list \<Rightarrow> int \<Rightarrow> err option \<Rightarrow> ('m, 't) buckets \<Rightarrow> world \<Rightarrow>
    err option \<times> ('m, 't) buckets \<times> world" where
  "close_loop d nClosable pivotIdx [] nClosed closeErrs bs w = (closeErrs, bs, w)"
| "close_loop d nClosable pivotIdx (idx # idxs) nClosed closeErrs bs w =
     (if \<not> nClosed < nClosable then (closeErrs, bs, w)
      else let realIdx = (if idx mod 2 = 0 then pivotIdx + idx div 2 else pivotIdx - idx div 2 - 1) in
           case tree_at d realIdx bs of
             None \<Rightarrow> close_loop d nClosable pivotIdx idxs nClosed closeErrs bs w
           | Some (key, None) \<Rightarrow> close_loop d nClosable pivotIdx idxs nClosed closeErrs bs w
           | Some (key, Some buck) \<Rightarrow>
               let (closeErrs, bs, w) = close_one d key buck closeErrs bs w
               in close_loop d nClosable pivotIdx idxs (nClosed + 1) closeErrs bs w)"

definition closeUnused :: "('m, 't) deps \<Rightarrow> int \<Rightarrow> ('m, 't) buckets \<Rightarrow> world \<Rightarrow>
    err option \<times> ('m, 't) buckets \<times> world" where
  "closeUnused d maxBucks bs w =
     (if maxBucks < 0 then (None, bs, w)
      else let nl = nloaded d bs in
           if nl \<le> maxBucks then (None, bs, w)
           else let len = int (length (tree_keys d bs))
                in close_loop d (nl - maxBucks) (len div 2) [0..len - 1] 0 None bs w)"

text \<open>The depth bound of \<open>openBucket\<close> is never reached (\<open>openBucket_returns\<close>).\<close>

definition forKey :: "('m, 't) deps \<Rightarrow> Key \<Rightarrow> ('m, 't) buckets \<Rightarrow> world \<Rightarrow>
    (err + 'm bucket) \<times> ('m, 't) buckets \<times> world" where
  "forKey d key bs w =
     (case tree_get d key bs of
        Some (Some buck) \<Rightarrow> (Inr buck, bs, w)
      | _ \<Rightarrow>
     (case closeUnused d (opt_MaxParallelOpenBuckets (bs_opts bs) - 1) bs w of
        (Some e, bs, w) \<Rightarrow> (Inl e, bs, w)
      | (None, bs, w) \<Rightarrow>
     (case openBucket (d_index d) (d_page d) (buckPath bs key) (bs_forks bs) (bs_opts bs) w of
        (None, w) \<Rightarrow> (Inl ErrPanic, bs, w)
      | (Some (Inl e), w) \<Rightarrow> (Inl e, bs, w)
      | (Some (Inr buck), w) \<Rightarrow> (Inr buck, tree_set d key (Some buck) bs, w))))"

definition buckets_delete :: "('m, 't) deps \<Rightarrow> Key \<Rightarrow> ('m, 't) buckets \<Rightarrow> world \<Rightarrow>
    err option \<times> ('m, 't) buckets \<times> world" where
  "buckets_delete d key bs w =
     (case tree_get d key bs of
        None \<Rightarrow> (Some (ErrInvalid ''no bucket with key''), bs, w)
      | Some buck \<Rightarrow>
          let bs = bs\<lparr>bs_trailers := filter (\<lambda>((k, _), _). k \<noteq> key) (bs_trailers bs)\<rparr>;
              (e, dir, bs, w) =
                (case buck of
                   Some b \<Rightarrow> (let (e, w) = bucket_Close b w
                              in (e, b_dir b, bs\<lparr>bs_closed := bs_closed bs @ [(key, b)]\<rparr>, w))
                 | None \<Rightarrow> (None, buckPath bs key, bs, w));
              bs = bs\<lparr>bs_tree := bt_delete (d_tree d) (bs_tree bs) key\<rparr>;
              (e', w) = removeBucketDir dir (bs_forks bs) w
          in (join_err e e', bs, w))"

section \<open>Iteration\<close>

datatype iterMode = includeNil | loadedOnly | load

text \<open>
  The callback of \<^verbatim>\<open>iter\<close>: besides the key and the bucket it gets and returns the variables it
  captures, the collection and the world.
\<close>

type_synonym ('m, 't, 's) iter_fn =
  "Key \<Rightarrow> 'm bucket option \<Rightarrow> 's \<Rightarrow> ('m, 't) buckets \<Rightarrow> world \<Rightarrow> err option go \<times> 's \<times> ('m, 't) buckets \<times> world"

text \<open>The bucket that is passed to the callback: \<open>None\<close> if the mode skips it.\<close>

definition iter_fetch :: "('m, 't) deps \<Rightarrow> iterMode \<Rightarrow> Key \<Rightarrow> 'm bucket option \<Rightarrow> ('m, 't) buckets \<Rightarrow> world \<Rightarrow>
    (err + 'm bucket option) option \<times> ('m, 't) buckets \<times> world" where
  "iter_fetch d mode key buck bs w =
     (case buck of
        Some b \<Rightarrow> (Some (Inr (Some b)), bs, w)
      | None \<Rightarrow>
     (case mode of
        loadedOnly \<Rightarrow> (None, bs, w)
      | includeNil \<Rightarrow> (Some (Inr None), bs, w)
      | load \<Rightarrow>
     (case forKey d key bs w of
        (Inl e, bs, w) \<Rightarrow> (Some (Inl e), bs, w)
      | (Inr b, bs, w) \<Rightarrow> (Some (Inr (Some b)), bs, w))))"

fun iter_loop :: "('m, 't) deps \<Rightarrow> iterMode \<Rightarrow> ('m, 't, 's) iter_fn \<Rightarrow> Key list \<Rightarrow> 's \<Rightarrow>
    ('m, 't) buckets \<Rightarrow> world \<Rightarrow> err option go \<times> 's \<times> ('m, 't) buckets \<times> world" where
  "iter_loop d mode fn [] s bs w = (Ret None, s, bs, w)"
| "iter_loop d mode fn (key # keys) s bs w =
     (case tree_get d key bs of
        None \<Rightarrow> iter_loop d mode fn keys s bs w
      | Some buck \<Rightarrow>
     (case iter_fetch d mode key buck bs w of
        (None, bs, w) \<Rightarrow> iter_loop d mode fn keys s bs w
      | (Some (Inl e), bs, w) \<Rightarrow> (Ret (Some e), s, bs, w)
      | (Some (Inr buck), bs, w) \<Rightarrow>
     (case fn key buck s bs w of
        (Panic, s, bs, w) \<Rightarrow> (Panic, s, bs, w)
      | (Ret None, s, bs, w) \<Rightarrow> iter_loop d mode fn keys s bs w
      | (Ret (Some e), s, bs, w) \<Rightarrow> (Ret (if e = ErrIterStop then None else Some e), s, bs, w))))"

definition buckets_iter :: "('m, 't) deps \<Rightarrow> iterMode \<Rightarrow> ('m, 't, 's) iter_fn \<Rightarrow> 's \<Rightarrow>
    ('m, 't) buckets \<Rightarrow> world \<Rightarrow> err option go \<times> 's \<times> ('m, 't) buckets \<times> world" where
  "buckets_iter d mode fn s bs w = iter_loop d mode fn (tree_keys d bs) s bs w"

definition buckets_Sync :: "('m, 't) deps \<Rightarrow> ('m, 't) buckets \<Rightarrow> world \<Rightarrow> err option \<times> ('m, 't) buckets \<times> world" where
  "buckets_Sync d bs w =
     (case buckets_iter d loadedOnly
             (\<lambda>key buck e bs w.
                case buck of
                  None \<Rightarrow> (Panic, e, bs, w)
                | Some b \<Rightarrow> (let (e', w) = bucket_Sync True b w in (Ret None, join_err e e', bs, w)))
             None bs w of
        (_, e, bs, w) \<Rightarrow> (e, bs, w))"

fun clear_loop :: "('m, 't) deps \<Rightarrow> Key list \<Rightarrow> ('m, 't) buckets \<Rightarrow> world \<Rightarrow> err option \<times> ('m, 't) buckets \<times> world" where
  "clear_loop d [] bs w = (None, bs, w)"
| "clear_loop d (key # keys) bs w =
     (case buckets_delete d key bs w of
        (Some e, bs, w) \<Rightarrow> (Some e, bs, w)
      | (None, bs, w) \<Rightarrow> clear_loop d keys bs w)"

definition buckets_clear :: "('m, 't) deps \<Rightarrow> ('m, 't) buckets \<Rightarrow> world \<Rightarrow> err option \<times> ('m, 't) buckets \<times> world" where
  "buckets_clear d bs w = clear_loop d (tree_keys d bs) bs w"

definition buckets_Clear :: "('m, 't) deps \<Rightarrow> ('m, 't) buckets \<Rightarrow> world \<Rightarrow> err option \<times> ('m, 't) buckets \<times> world" where
  "buckets_Clear d bs w = buckets_clear d bs w"

definition buckets_Close :: "('m, 't) deps \<Rightarrow> ('m, 't) buckets \<Rightarrow> world \<Rightarrow> err option go \<times> ('m, 't) buckets \<times> world" where
  "buckets_Close d bs w =
     (case buckets_iter d loadedOnly
             (\<lambda>key buck s bs w.
                case buck of
                  None \<Rightarrow> (Panic, s, bs, w)
                | Some b \<Rightarrow> (let (e, w) = bucket_Close b w in (Ret e, s, bs, w)))
             () bs w of
        (r, _, bs, w) \<Rightarrow> (r, bs, w))"

text \<open>The iteration of \<^verbatim>\<open>Len\<close> neither loads nor changes a bucket.\<close>

definition buckets_Len :: "('m, 't) deps \<Rightarrow> ForkName \<Rightarrow> ('m, 't) buckets \<Rightarrow> world \<Rightarrow> int" where
  "buckets_Len d fork bs w =
     (case buckets_iter d includeNil
             (\<lambda>key buck len bs w.
                case buck of
                  None \<Rightarrow>
                    (case map_of (bs_trailers bs) (key, fork) of
                       None \<Rightarrow> (Ret None, len, bs, w)
                     | Some trailer \<Rightarrow> (Ret None, wrap64 (len + sint trailer), bs, w))
                | Some b \<Rightarrow> (Ret None, wrap64 (len + bucket_Len b fork), bs, w))
             0 bs w of
        (_, len, _, _) \<Rightarrow> len)"

section \<open>Push\<close>

lemma half_pos: "items \<noteq> [] \<Longrightarrow> length items \<noteq> Suc 0 \<Longrightarrow> 0 < length items div 2"
  by (cases items) (auto simp: neq_Nil_conv)

function binsplit :: "Items \<Rightarrow> Key \<Rightarrow> (Key \<Rightarrow> Key) \<Rightarrow> nat" where
  "binsplit items bk fn =
     (let l = length items in
      if l = 0 then 0
      else if l = 1 then 1
      else let pivotIdx = l div 2; pivotKey = fn (item_Key (items ! pivotIdx)) in
           if pivotKey \<noteq> bk then binsplit (take pivotIdx items) bk fn
           else pivotIdx + binsplit (drop pivotIdx items) bk fn)"
  by pat_completeness auto
termination
  by (relation "measure (\<lambda>(items, bk, fn). length items)") (auto simp: half_pos)

declare binsplit.simps [simp del]

text \<open>A batch that is not empty is split behind its first item at the earliest.\<close>

lemma binsplit_pos: "items \<noteq> [] \<Longrightarrow> 0 < binsplit items bk fn"
proof (induction items bk fn rule: binsplit.induct)
  case (1 items bk fn)
  then show ?case
    by (subst binsplit.simps) (auto simp: Let_def half_pos)
qed

text \<open>The comparison of \<^verbatim>\<open>Push\<close>: the difference of two \<^verbatim>\<open>int64\<close> keys.\<close>

definition key_cmp :: "Item \<Rightarrow> Item \<Rightarrow> int" where
  "key_cmp i j = wrap64 (key_int (item_Key i) - key_int (item_Key j))"

function pushSorted :: "('m, 't) deps \<Rightarrow> Items \<Rightarrow> ('m, 't) buckets \<Rightarrow> world \<Rightarrow>
    err option \<times> ('m, 't) buckets \<times> world" where
  "pushSorted d items bs w =
     (case items of
        [] \<Rightarrow> (None, bs, w)
      | it0 # _ \<Rightarrow>
          let keyMod = split_fn (bs_opts bs) (item_Key it0);
              nextIdx = binsplit items keyMod (split_fn (bs_opts bs)) in
          case forKey d keyMod bs w of
            (Inl e, bs, w) \<Rightarrow>
              if opt_ErrorMode (bs_opts bs) = ErrorModeAbort then (Some e, bs, w)
              else pushSorted d (drop nextIdx items) bs w
          | (Inr buck, bs, w) \<Rightarrow>
              (case bucket_Push (d_index d) (d_page d) (take nextIdx items) True '''' buck w of
                 (e, buck, w) \<Rightarrow>
                   let bs = put_bucket d keyMod buck bs in
                   if e \<noteq> None \<and> opt_ErrorMode (bs_opts bs) = ErrorModeAbort then (e, bs, w)
                   else pushSorted d (drop nextIdx items) bs w))"
  by pat_completeness auto
termination
  by (relation "measure (\<lambda>(d, items, bs, w). length items)") (auto simp: binsplit_pos)

declare pushSorted.simps [simp del]

text \<open>The flag \<^verbatim>\<open>locked\<close> of \<^verbatim>\<open>Push\<close> only concerns the mutex.\<close>

definition buckets_Push :: "('m, 't) deps \<Rightarrow> Items \<Rightarrow> ('m, 't) buckets \<Rightarrow> world \<Rightarrow>
    err option \<times> ('m, 't) buckets \<times> world" where
  "buckets_Push d items bs w =
     (if items = [] then (None, bs, w) else pushSorted d (d_SortFunc d key_cmp items) bs w)"

section \<open>Read\<close>

text \<open>
  A callback of \<^verbatim>\<open>Read\<close> may push to the queue before it returns, and looks at the results: it is a
  tree of pushes that ends with its results or a panic. \<open>'x\<close> are the variables it captures.
\<close>

datatype 'x tx = TxReturn 'x int "err option" | TxPush Items "err option \<Rightarrow> 'x tx" | TxPanic

type_synonym 'x TransactionFn = "'x \<Rightarrow> Items \<Rightarrow> 'x tx"

primrec run_tx :: "('m, 't) deps \<Rightarrow> 'x tx \<Rightarrow> ('m, 't) buckets \<Rightarrow> world \<Rightarrow>
    ('x \<times> int \<times> err option) go \<times> ('m, 't) buckets \<times> world" where
  "run_tx d (TxReturn x op e) = (\<lambda>bs w. (Ret (x, op, e), bs, w))"
| "run_tx d TxPanic = (\<lambda>bs w. (Panic, bs, w))"
| "run_tx d (TxPush items k) = (\<lambda>bs w.
     case buckets_Push d items bs w of (e, bs, w) \<Rightarrow> run_tx d (k e) bs w)"

text \<open>
  The memory behind a pointer to the bucket of \<open>key\<close> that was loaded when \<open>n\<close> buckets had been
  closed, and whether it was closed since.
\<close>

definition deref :: "('m, 't) deps \<Rightarrow> Key \<Rightarrow> nat \<Rightarrow> 'm bucket \<Rightarrow> ('m, 't) buckets \<Rightarrow> bool \<times> 'm bucket" where
  "deref d key n b bs =
     (case filter (\<lambda>(k, _). k = key) (drop n (bs_closed bs)) of
        (_, b) # _ \<Rightarrow> (True, b)
      | [] \<Rightarrow> (False, case tree_get d key bs of Some (Some b) \<Rightarrow> b | _ \<Rightarrow> b))"

text \<open>
  \<^verbatim>\<open>bucket.Read\<close> with such a callback, up to the error of the callback and from there on. Writing to
  a closed index log fails; the error then keeps the caller from looking at the bucket again.
\<close>

definition read_pop :: "('m, 't) deps \<Rightarrow> Key \<Rightarrow> ForkName \<Rightarrow> Iters option \<Rightarrow> bool \<times> 'm bucket \<Rightarrow>
    ('m, 't) buckets \<Rightarrow> world \<Rightarrow> err option go \<times> 'm bucket \<times> ('m, 't) buckets \<times> world" where
  "read_pop d key fork iters pb bs w =
     (case pb of (closed, b) \<Rightarrow>
       (case iters of
          None \<Rightarrow> (Ret None, b, bs, w)
        | Some iters \<Rightarrow>
            if iters = [] then (Ret None, b, bs, w)
            else if closed then (Ret (Some ErrClosed), b, bs, w)
            else case idxForFork b fork of
                   Inl e \<Rightarrow> (Ret (Some e), b, bs, w)
                 | Inr idx \<Rightarrow>
                     (case popSync (d_index d) iters idx w of
                        (r, idx, w) \<Rightarrow>
                          let b = put_index fork idx b in (r, b, put_bucket d key b bs, w))))"

definition bucket_Read_tx :: "('m, 't) deps \<Rightarrow> Key \<Rightarrow> int \<Rightarrow> ForkName \<Rightarrow> 'x TransactionFn \<Rightarrow> 'x \<Rightarrow> 'm bucket \<Rightarrow>
    ('m, 't) buckets \<Rightarrow> world \<Rightarrow> err option go \<times> 'x \<times> 'm bucket \<times> ('m, 't) buckets \<times> world" where
  "bucket_Read_tx d key n fork fn x b bs w =
     (if n \<le> 0 then (Ret None, x, b, bs, w)
      else case idxForFork b fork of
             Inl e \<Rightarrow> (Ret (Some e), x, b, bs, w)
           | Inr idx \<Rightarrow>
     (case bucket_peek (d_index d) b n [] (bi_Mem idx) of
        (_, _, _, Some e) \<Rightarrow> (Ret (Some e), x, b, bs, w)
      | (iters, items, _, None) \<Rightarrow>
     (case run_tx d (fn x items) bs w of
        (Panic, bs', w) \<Rightarrow> (Panic, x, b, bs', w)
      | (Ret (x, op, Some e), bs', w) \<Rightarrow> (Ret (Some e), x, snd (deref d key (length (bs_closed bs)) b bs'), bs', w)
      | (Ret (x, op, None), bs', w) \<Rightarrow>
          let pb = deref d key (length (bs_closed bs)) b bs' in
          if op = ReadOpPop
          then (case read_pop d key fork iters pb bs' w of (r, b, bs, w) \<Rightarrow> (r, x, b, bs, w))
          else (Ret None, x, snd pb, bs', w))))"

text \<open>The callback that \<^verbatim>\<open>Read\<close> passes to \<^verbatim>\<open>iter\<close>; \<open>left\<close> (\<^verbatim>\<open>count\<close>) is the number of items still to be read.\<close>

definition read_bucket :: "('m, 't) deps \<Rightarrow> ForkName \<Rightarrow> 'x TransactionFn \<Rightarrow> ('m, 't, int \<times> 'x) iter_fn" where
  "read_bucket d fork fn key buck s bs w =
     (case buck of
        None \<Rightarrow> (Panic, s, bs, w)
      | Some b \<Rightarrow>
     (case s of (left, x) \<Rightarrow>
     (let lenBefore = bucket_Len b fork in
      case bucket_Read_tx d key left fork fn x b bs w of
        (Panic, x, b, bs, w) \<Rightarrow> (Panic, (left, x), bs, w)
      | (Ret (Some e), x, b, bs, w) \<Rightarrow>
          (Ret (if opt_ErrorMode (bs_opts bs) = ErrorModeAbort then Some e else None), (left, x), bs, w)
      | (Ret None, x, b, bs, w) \<Rightarrow>
     (case (if bucket_AllEmpty b then buckets_delete d key bs w else (None, bs, w)) of
        (Some e, bs, w) \<Rightarrow> (Ret (Some e), (left, x), bs, w)
      | (None, bs, w) \<Rightarrow>
          let left = wrap64 (left - wrap64 (lenBefore - bucket_Len b fork))
          in (Ret (if left \<le> 0 then Some ErrIterStop else None), (left, x), bs, w)))))"

definition buckets_Read :: "('m, 't) deps \<Rightarrow> int \<Rightarrow> ForkName \<Rightarrow> 'x TransactionFn \<Rightarrow> 'x \<Rightarrow> ('m, 't) buckets \<Rightarrow> world \<Rightarrow>
    err option go \<times> 'x \<times> ('m, 't) buckets \<times> world" where
  "buckets_Read d n fork fn x bs w =
     (let left = (if n < 0 then 2 ^ 63 - 1 else n) in
      case buckets_iter d load (read_bucket d fork fn) (left, x) bs w of
        (r, (_, x), bs, w) \<Rightarrow> (r, x, bs, w))"

section \<open>Delete\<close>

text \<open>The loop over the buckets in the range: the result so far, or the error it ended with.\<close>

fun delete_range :: "('m, 't) deps \<Rightarrow> ForkName \<Rightarrow> Key \<Rightarrow> Key \<Rightarrow> Key \<Rightarrow> Key list \<Rightarrow> int \<Rightarrow> Key list \<Rightarrow>
    ('m, 't) buckets \<Rightarrow> world \<Rightarrow> (int \<times> err option \<times> Key list) \<times> ('m, 't) buckets \<times> world" where
  "delete_range d fork from to toBuckKey [] numDeleted deletableBucks bs w =
     ((numDeleted, None, deletableBucks), bs, w)"
| "delete_range d fork from to toBuckKey (buckKey # keys) numDeleted deletableBucks bs w =
     (if buckKey > toBuckKey then ((numDeleted, None, deletableBucks), bs, w)
      else case forKey d buckKey bs w of
             (Inl e, bs, w) \<Rightarrow>
               if opt_ErrorMode (bs_opts bs) = ErrorModeAbort then ((numDeleted, Some e, deletableBucks), bs, w)
               else delete_range d fork from to toBuckKey keys numDeleted deletableBucks bs w
           | (Inr buck, bs, w) \<Rightarrow>
     (case bucket_Delete (d_index d) fork from to buck w of
        ((n, e), buck, w) \<Rightarrow>
          let bs = put_bucket d buckKey buck bs in
          (case e of
             Some e \<Rightarrow>
               if opt_ErrorMode (bs_opts bs) = ErrorModeAbort then ((numDeleted, Some e, deletableBucks), bs, w)
               else delete_range d fork from to toBuckKey keys numDeleted deletableBucks bs w
           | None \<Rightarrow>
               delete_range d fork from to toBuckKey keys (wrap64 (numDeleted + n))
                 (if bucket_AllEmpty buck then deletableBucks @ [buckKey] else deletableBucks) bs w)))"

definition buckets_Delete :: "('m, 't) deps \<Rightarrow> ForkName \<Rightarrow> Key \<Rightarrow> Key \<Rightarrow> ('m, 't) buckets \<Rightarrow> world \<Rightarrow>
    (int \<times> err option) \<times> ('m, 't) buckets \<times> world" where
  "buckets_Delete d fork from to bs w =
     (if to < from then ((0, Some (ErrInvalid ''delete: to must be >= from'')), bs, w)
      else let toBuckKey = split_fn (bs_opts bs) to;
               fromBuckKey = split_fn (bs_opts bs) from;
               keys = dropWhile (\<lambda>k. k < fromBuckKey) (tree_keys d bs) in
           case delete_range d fork from to toBuckKey keys 0 [] bs w of
             ((numDeleted, Some e, _), bs, w) \<Rightarrow> ((numDeleted, Some e), bs, w)
           | ((numDeleted, None, deletableBucks), bs, w) \<Rightarrow>
               (case clear_loop d deletableBucks bs w of (e, bs, w) \<Rightarrow> ((numDeleted, e), bs, w)))"

section \<open>Shovel\<close>

text \<open>The fast path: the directory of a bucket that the destination does not have is moved.\<close>

definition shovel_move :: "('m, 't) deps \<Rightarrow> bool \<Rightarrow> ForkName \<Rightarrow> Key \<Rightarrow> int \<Rightarrow> ('m, 't) buckets \<Rightarrow>
    ('m, 't) buckets \<Rightarrow> world \<Rightarrow> err option \<times> (int \<times> ('m, 't) buckets) \<times> world" where
  "shovel_move d xdev fork key ntotalcopied dstBs bs w =
     (let dstPath = buckPath dstBs key; srcPath = buckPath bs key;
          dstBs = tree_set d key None dstBs;
          (e, calls, w) = ReadTrailers srcPath w;
          ntotalcopied = fold (\<lambda>(srcfork, t) n. if fork = srcfork then wrap64 (n + sint t) else n) calls ntotalcopied;
          dstBs = put_trailers key calls dstBs
      in case e of
           Some e \<Rightarrow> (Some e, (ntotalcopied, dstBs), w)
         | None \<Rightarrow> (case moveFileOrDir d xdev srcPath dstPath w of (e, w) \<Rightarrow> (e, (ntotalcopied, dstBs), w)))"

text \<open>
  \<^verbatim>\<open>srcBuck.Read(math.MaxInt, ...)\<close> with the callback that pushes to the other bucket and pops. The
  destination is another collection (one shovelled into itself would lock its mutex twice).
\<close>

definition shovel_read :: "('m, 't) deps \<Rightarrow> ForkName \<Rightarrow> 'm bucket \<Rightarrow> 'm bucket \<Rightarrow> int \<Rightarrow> world \<Rightarrow>
    err option go \<times> int \<times> 'm bucket \<times> 'm bucket \<times> world" where
  "shovel_read d fork srcBuck dstBuck ntotalcopied w =
     (case idxForFork srcBuck fork of
        Inl e \<Rightarrow> (Ret (Some e), ntotalcopied, srcBuck, dstBuck, w)
      | Inr idx \<Rightarrow>
     (case bucket_peek (d_index d) srcBuck (2 ^ 63 - 1) [] (bi_Mem idx) of
        (_, _, _, Some e) \<Rightarrow> (Ret (Some e), ntotalcopied, srcBuck, dstBuck, w)
      | (iters, items, _, None) \<Rightarrow>
     (case bucket_Push (d_index d) (d_page d) items True fork dstBuck w of
        (Some e, dstBuck, w) \<Rightarrow> (Ret (Some e), ntotalcopied, srcBuck, dstBuck, w)
      | (None, dstBuck, w) \<Rightarrow>
          let ntotalcopied = wrap64 (ntotalcopied + int (length items)) in
          case iters of
            None \<Rightarrow> (Ret None, ntotalcopied, srcBuck, dstBuck, w)
          | Some iters \<Rightarrow>
              (case popSync (d_index d) iters idx w of
                 (r, idx, w) \<Rightarrow> (r, ntotalcopied, put_index fork idx srcBuck, dstBuck, w)))))"

definition shovel_bucket :: "('m, 't) deps \<Rightarrow> bool \<Rightarrow> ForkName \<Rightarrow> ('m, 't, int \<times> ('m, 't) buckets) iter_fn" where
  "shovel_bucket d xdev fork key buck s bs w =
     (case s of (ntotalcopied, dstBs) \<Rightarrow>
     (case tree_get d key dstBs of
        None \<Rightarrow> (case shovel_move d xdev fork key ntotalcopied dstBs bs w of (e, s, w) \<Rightarrow> (Ret e, s, bs, w))
      | Some _ \<Rightarrow>
     (case forKey d key bs w of
        (Inl e, bs, w) \<Rightarrow> (Ret (Some e), s, bs, w)
      | (Inr srcBuck, bs, w) \<Rightarrow>
     (case forKey d key dstBs w of
        (Inl e, dstBs, w) \<Rightarrow> (Ret (Some e), (ntotalcopied, dstBs), bs, w)
      | (Inr dstBuck, dstBs, w) \<Rightarrow>
     (case shovel_read d fork srcBuck dstBuck ntotalcopied w of
        (r, ntotalcopied, srcBuck, dstBuck, w) \<Rightarrow>
          (r, (ntotalcopied, put_bucket d key dstBuck dstBs), put_bucket d key srcBuck bs, w))))))"

definition buckets_Shovel :: "('m, 't) deps \<Rightarrow> bool \<Rightarrow> ForkName \<Rightarrow> ('m, 't) buckets \<Rightarrow> ('m, 't) buckets \<Rightarrow> world \<Rightarrow>
    (int \<times> err option) go \<times> ('m, 't) buckets \<times> ('m, 't) buckets \<times> world" where
  "buckets_Shovel d xdev fork dstBs bs w =
     (case buckets_iter d includeNil (shovel_bucket d xdev fork) (0, dstBs) bs w of
        (Panic, (_, dstBs), bs, w) \<Rightarrow> (Panic, dstBs, bs, w)
      | (Ret (Some e), (n, dstBs), bs, w) \<Rightarrow> (Ret (n, Some e), dstBs, bs, w)
      | (Ret None, (n, dstBs), bs, w) \<Rightarrow>
          (case buckets_clear d bs w of (e, bs, w) \<Rightarrow> (Ret (n, e), dstBs, bs, w)))"

section \<open>Forks\<close>

definition buckets_Fork :: "('m, 't) deps \<Rightarrow> ForkName \<Rightarrow> ForkName \<Rightarrow> ('m, 't) buckets \<Rightarrow> world \<Rightarrow>
    err option go \<times> ('m, 't) buckets \<times> world" where
  "buckets_Fork d src dst bs w =
     (case ForkName_Validate d dst of
        Some e \<Rightarrow> (Ret (Some e), bs, w)
      | None \<Rightarrow>
          if List.member (bs_forks bs) dst then (Ret None, bs, w)
          else case buckets_iter d includeNil
                      (\<lambda>key buck s bs w.
                         case buck of
                           Some b \<Rightarrow>
                             (case bucket_Fork (d_index d) src dst b w of
                                (e, b, w) \<Rightarrow> (Ret e, s, put_bucket d key b bs, w))
                         | None \<Rightarrow>
                             (case forkOffline (d_Copy d) (buckPath bs key) src dst w of
                                (e, w) \<Rightarrow> (Ret e, s, bs, w)))
                      () bs w of
                 (Ret None, _, bs, w) \<Rightarrow> (Ret None, bs\<lparr>bs_forks := bs_forks bs @ [dst]\<rparr>, w)
               | (r, _, bs, w) \<Rightarrow> (r, bs, w))"

definition buckets_RemoveFork :: "('m, 't) deps \<Rightarrow> ForkName \<Rightarrow> ('m, 't) buckets \<Rightarrow> world \<Rightarrow>
    err option go \<times> ('m, 't) buckets \<times> world" where
  "buckets_RemoveFork d fork bs w =
     (case ForkName_Validate d fork of
        Some e \<Rightarrow> (Ret (Some e), bs, w)
      | None \<Rightarrow>
          (case buckets_iter d includeNil
                  (\<lambda>key buck s bs w.
                     case buck of
                       Some b \<Rightarrow>
                         (case bucket_RemoveFork fork b w of
                            (e, b, w) \<Rightarrow>
                              let bs = put_bucket d key b bs in
                              (case e of
                                 Some e \<Rightarrow> (Ret (Some e), s, bs, w)
                               | None \<Rightarrow>
                                   if \<not> bucket_AllEmpty b then (Ret None, s, bs, w)
                                   else case buckets_delete d key bs w of (e, bs, w) \<Rightarrow> (Ret e, s, bs, w)))
                     | None \<Rightarrow>
                         (case removeForkOffline (buckPath bs key) fork w of (e, w) \<Rightarrow> (Ret e, s, bs, w)))
                  () (bs\<lparr>bs_forks := filter (\<lambda>candidate. fork \<noteq> candidate) (bs_forks bs)\<rparr>) w of
             (r, _, bs, w) \<Rightarrow> (r, bs, w)))"

definition buckets_Forks :: "('m, 't) buckets \<Rightarrow> ForkName list" where
  "buckets_Forks bs = bs_forks bs"

text \<open>The first loop of \<^verbatim>\<open>fetchForks\<close> keeps the last value it saw, also if that is nil.\<close>

definition last_bucket :: "('m, 't) deps \<Rightarrow> ('m, 't) buckets \<Rightarrow> 'm bucket option" where
  "last_bucket d bs =
     (let es = bt_iter (d_tree d) (bs_tree bs) in if es = [] then None else snd (last es))"

definition fetchForks :: "('m, 't) deps \<Rightarrow> ('m, 't) buckets \<Rightarrow> world \<Rightarrow>
    (err + ForkName list) \<times> ('m, 't) buckets \<times> world" where
  "fetchForks d bs w =
     (case last_bucket d bs of
        Some buck \<Rightarrow> (Inr (bucket_Forks buck), bs, w)
      | None \<Rightarrow>
     (case tree_keys d bs of
        [] \<Rightarrow> (Inr [], bs, w)
      | key # _ \<Rightarrow>
     (case forKey d key bs w of
        (Inl e, bs, w) \<Rightarrow> (Inl e, bs, w)
      | (Inr buck, bs, w) \<Rightarrow> (Inr (bucket_Forks buck), bs, w))))"

section \<open>Loading\<close>

text \<open>The variables of the loop of \<^verbatim>\<open>loadAllBuckets\<close>\<close>

record 't loading =
  ld_expectedFiles :: nat
  ld_dirsHandled :: nat
  ld_tree :: 't
  ld_trailers :: "((Key \<times> ForkName) \<times> Trailer) list"

fun load_entries :: "('m, 't) deps \<Rightarrow> path \<Rightarrow> Options \<Rightarrow> string list \<Rightarrow> 't loading \<Rightarrow> world \<Rightarrow>
    (err + 't loading) \<times> world" where
  "load_entries d dir opts [] ld w = (Inr ld, w)"
| "load_entries d dir opts (name # names) ld w =
     (let ld = (if name = splitConfFile then ld\<lparr>ld_expectedFiles := ld_expectedFiles ld + 1\<rparr> else ld) in
      if node_at w (dir @ [name]) \<noteq> Some Dir then load_entries d dir opts names ld w
      else case KeyFromString name of
             Inl e \<Rightarrow>
               if opt_ErrorMode opts = ErrorModeAbort then (Inl e, w)
               else load_entries d dir opts names ld w
           | Inr key \<Rightarrow>
               (case ReadTrailers (dir @ [name]) w of
                  (Some e, _, w) \<Rightarrow> (Inl e, w)
                | (None, calls, w) \<Rightarrow>
                    load_entries d dir opts names
                      (ld\<lparr>ld_dirsHandled := ld_dirsHandled ld + 1,
                          ld_trailers := fold (\<lambda>(fork, t). AList.update (key, fork) t) calls (ld_trailers ld),
                          ld_tree := bt_set (d_tree d) (ld_tree ld) key None\<rparr>) w))"

definition loadAllBuckets :: "('m, 't) deps \<Rightarrow> path \<Rightarrow> Options \<Rightarrow> world \<Rightarrow> (err + ('m, 't) buckets) \<times> world" where
  "loadAllBuckets d dir opts w =
     (case MkdirAll dir w of
        (Some e, w) \<Rightarrow> (Inl e, w)
      | (None, w) \<Rightarrow>
     (case ReadDir dir w of
        (Inl e, w) \<Rightarrow> (Inl e, w)
      | (Inr ents, w) \<Rightarrow>
     (case load_entries d dir opts ents
             \<lparr>ld_expectedFiles = 0, ld_dirsHandled = 0, ld_tree = bt_empty (d_tree d), ld_trailers = []\<rparr> w of
        (Inl e, w) \<Rightarrow> (Inl e, w)
      | (Inr ld, w) \<Rightarrow>
          if ld_dirsHandled ld = 0 \<and> length ents > ld_expectedFiles ld
          then (Inl (ErrInvalid ''not empty; refusing to create db''), w)
          else let bs = \<lparr>bs_dir = dir, bs_tree = ld_tree ld, bs_trailers = ld_trailers ld, bs_opts = opts,
                         bs_forks = [], bs_closed = []\<rparr> in
               case fetchForks d bs w of
                 (Inl e, bs, w) \<Rightarrow> (Inl e, w)
               | (Inr forks, bs, w) \<Rightarrow> (Inr (bs\<lparr>bs_forks := forks\<rparr>), w))))"

text \<open>\<^verbatim>\<open>bytes.TrimSpace\<close>: the encodings of the white space of \<^verbatim>\<open>unicode.IsSpace\<close>\<close>

definition space_encodings :: "bytes list" where
  "space_encodings =
     [[9], [10], [11], [12], [13], [32], [0xC2, 0x85], [0xC2, 0xA0], [0xE1, 0x9A, 0x80],
      [0xE2, 0x80, 0x80], [0xE2, 0x80, 0x81], [0xE2, 0x80, 0x82], [0xE2, 0x80, 0x83], [0xE2, 0x80, 0x84],
      [0xE2, 0x80, 0x85], [0xE2, 0x80, 0x86], [0xE2, 0x80, 0x87], [0xE2, 0x80, 0x88], [0xE2, 0x80, 0x89],
      [0xE2, 0x80, 0x8A], [0xE2, 0x80, 0xA8], [0xE2, 0x80, 0xA9], [0xE2, 0x80, 0xAF], [0xE2, 0x81, 0x9F],
      [0xE3, 0x80, 0x80]]"

definition leading_space :: "bytes list \<Rightarrow> bytes \<Rightarrow> nat" where
  "leading_space encs bs = (case filter (\<lambda>enc. take (length enc) bs = enc) encs of [] \<Rightarrow> 0 | enc # _ \<Rightarrow> length enc)"

function trim_left :: "bytes list \<Rightarrow> bytes \<Rightarrow> bytes" where
  "trim_left encs bs =
     (if bs = [] \<or> leading_space encs bs = 0 then bs else trim_left encs (drop (leading_space encs bs) bs))"
  by pat_completeness auto
termination
  by (relation "measure (\<lambda>(encs, bs). length bs)") auto

declare trim_left.simps [simp del]

definition TrimSpace :: "bytes \<Rightarrow> bytes" where
  "TrimSpace bs = rev (trim_left (map rev space_encodings) (rev (trim_left space_encodings bs)))"

text \<open>The bytes of a Go string\<close>

definition string_bytes :: "string \<Rightarrow> bytes" where
  "string_bytes s = map of_char s"

definition ValidateBucketKeys :: "('m, 't) deps \<Rightarrow> BucketSplitConf \<Rightarrow> ('m, 't) buckets \<Rightarrow> world \<Rightarrow>
    err option \<times> world" where
  "ValidateBucketKeys d bucketFn bs w =
     (let namePath = bs_dir bs @ [splitConfFile];
          (e, w) =
            (case OpenRead namePath w of
               (Inl _, w) \<Rightarrow> d_WriteFile d namePath (string_bytes (conf_Name bucketFn)) w
             | (Inr nameData, w) \<Rightarrow>
                 (if TrimSpace nameData \<noteq> string_bytes (conf_Name bucketFn) then Some ErrChangedSplitFunc else None, w))
      in case e of
           Some e \<Rightarrow> (Some e, w)
         | None \<Rightarrow>
             (if list_all (\<lambda>ik. ik = (case conf_Func bucketFn of Some f \<Rightarrow> f ik | None \<Rightarrow> ik)) (tree_keys d bs)
              then None else Some ErrChangedSplitFunc, w))"

end
