(* ===== verification/Api.thy ===== *)
theory Api
  imports Buckets
begin

text \<open>
  The public interface (src/api.go): a queue is a pointer to a collection of buckets, a fork is a name
  with a pointer to its queue, which \<^verbatim>\<open>Remove\<close> sets to nil. The queue is passed and returned; of the
  pointer of a fork the model keeps whether it is set.
\<close>

section \<open>Queues\<close>

record ('m, 't) Queue =
  q_buckets :: "('m, 't) buckets"

text \<open>\<^verbatim>\<open>Open\<close> validates its copy of the options, which fills in defaults.\<close>

definition Open :: "('m, 't) deps \<Rightarrow> path \<Rightarrow> Options \<Rightarrow> world \<Rightarrow> (err + ('m, 't) Queue) \<times> world" where
  "Open d dir opts w =
     (case Options_Validate opts of
        (Some e, opts) \<Rightarrow> (Inl e, w)
      | (None, opts) \<Rightarrow>
     (case loadAllBuckets d dir opts w of
        (Inl e, w) \<Rightarrow> (Inl e, w)
      | (Inr bs, w) \<Rightarrow>
     (case ValidateBucketKeys d (opt_BucketSplitConf opts) bs w of
        (Some e, w) \<Rightarrow> (Inl e, w)
      | (None, w) \<Rightarrow> (Inr \<lparr>q_buckets = bs\<rparr>, w))))"

definition Queue_Push :: "('m, 't) deps \<Rightarrow> Items \<Rightarrow> ('m, 't) Queue \<Rightarrow> world \<Rightarrow> err option \<times> ('m, 't) Queue \<times> world" where
  "Queue_Push d items q w =
     (case buckets_Push d items (q_buckets q) w of (e, bs, w) \<Rightarrow> (e, q\<lparr>q_buckets := bs\<rparr>, w))"

definition Queue_Read :: "('m, 't) deps \<Rightarrow> int \<Rightarrow> 'x TransactionFn \<Rightarrow> 'x \<Rightarrow> ('m, 't) Queue \<Rightarrow> world \<Rightarrow>
    err option go \<times> 'x \<times> ('m, 't) Queue \<times> world" where
  "Queue_Read d n fn x q w =
     (case buckets_Read d n '''' fn x (q_buckets q) w of (r, x, bs, w) \<Rightarrow> (r, x, q\<lparr>q_buckets := bs\<rparr>, w))"

definition Queue_Delete :: "('m, 't) deps \<Rightarrow> Key \<Rightarrow> Key \<Rightarrow> ('m, 't) Queue \<Rightarrow> world \<Rightarrow>
    (int \<times> err option) \<times> ('m, 't) Queue \<times> world" where
  "Queue_Delete d from to q w =
     (case buckets_Delete d '''' from to (q_buckets q) w of (r, bs, w) \<Rightarrow> (r, q\<lparr>q_buckets := bs\<rparr>, w))"

definition Queue_Len :: "('m, 't) deps \<Rightarrow> ('m, 't) Queue \<Rightarrow> world \<Rightarrow> int" where
  "Queue_Len d q w = buckets_Len d '''' (q_buckets q) w"

definition Queue_Sync :: "('m, 't) deps \<Rightarrow> ('m, 't) Queue \<Rightarrow> world \<Rightarrow> err option \<times> ('m, 't) Queue \<times> world" where
  "Queue_Sync d q w = (case buckets_Sync d (q_buckets q) w of (e, bs, w) \<Rightarrow> (e, q\<lparr>q_buckets := bs\<rparr>, w))"

definition Queue_Clear :: "('m, 't) deps \<Rightarrow> ('m, 't) Queue \<Rightarrow> world \<Rightarrow> err option \<times> ('m, 't) Queue \<times> world" where
  "Queue_Clear d q w = (case buckets_Clear d (q_buckets q) w of (e, bs, w) \<Rightarrow> (e, q\<lparr>q_buckets := bs\<rparr>, w))"

text \<open>Shovelling from a fork of a queue to another queue; the second queue comes first in the result.\<close>

definition shovel_to :: "('m, 't) deps \<Rightarrow> bool \<Rightarrow> ForkName \<Rightarrow> ('m, 't) Queue \<Rightarrow> ('m, 't) Queue \<Rightarrow> world \<Rightarrow>
    (int \<times> err option) go \<times> ('m, 't) Queue \<times> ('m, 't) Queue \<times> world" where
  "shovel_to d xdev fork dst q w =
     (case buckets_Shovel d xdev fork (q_buckets dst) (q_buckets q) w of
        (r, dstBs, bs, w) \<Rightarrow> (r, dst\<lparr>q_buckets := dstBs\<rparr>, q\<lparr>q_buckets := bs\<rparr>, w))"

definition Queue_Shovel :: "('m, 't) deps \<Rightarrow> bool \<Rightarrow> ('m, 't) Queue \<Rightarrow> ('m, 't) Queue \<Rightarrow> world \<Rightarrow>
    (int \<times> err option) go \<times> ('m, 't) Queue \<times> ('m, 't) Queue \<times> world" where
  "Queue_Shovel d xdev dst q w = shovel_to d xdev '''' dst q w"

record Fork =
  fork_name :: ForkName
  fork_live :: bool   \<comment> \<open>\<^verbatim>\<open>f.q != nil\<close>\<close>

text \<open>Forking from the fork \<open>src\<close> of the queue.\<close>

definition fork_from :: "('m, 't) deps \<Rightarrow> ForkName \<Rightarrow> ForkName \<Rightarrow> ('m, 't) Queue \<Rightarrow> world \<Rightarrow>
    (err + Fork) go \<times> ('m, 't) Queue \<times> world" where
  "fork_from d src name q w =
     (case buckets_Fork d src name (q_buckets q) w of
        (r, bs, w) \<Rightarrow>
          (go_bind r (\<lambda>e. case e of Some e \<Rightarrow> Ret (Inl e) | None \<Rightarrow> Ret (Inr \<lparr>fork_name = name, fork_live = True\<rparr>)),
           q\<lparr>q_buckets := bs\<rparr>, w))"

definition Queue_Fork :: "('m, 't) deps \<Rightarrow> ForkName \<Rightarrow> ('m, 't) Queue \<Rightarrow> world \<Rightarrow>
    (err + Fork) go \<times> ('m, 't) Queue \<times> world" where
  "Queue_Fork d name q w = fork_from d '''' name q w"

definition Queue_Forks :: "('m, 't) Queue \<Rightarrow> ForkName list" where
  "Queue_Forks q = buckets_Forks (q_buckets q)"

definition Queue_Close :: "('m, 't) deps \<Rightarrow> ('m, 't) Queue \<Rightarrow> world \<Rightarrow> err option go \<times> ('m, 't) Queue \<times> world" where
  "Queue_Close d q w = (case buckets_Close d (q_buckets q) w of (r, bs, w) \<Rightarrow> (r, q\<lparr>q_buckets := bs\<rparr>, w))"

section \<open>Forks\<close>

definition Fork_Read :: "('m, 't) deps \<Rightarrow> Fork \<Rightarrow> int \<Rightarrow> 'x TransactionFn \<Rightarrow> 'x \<Rightarrow> ('m, 't) Queue \<Rightarrow> world \<Rightarrow>
    err option go \<times> 'x \<times> ('m, 't) Queue \<times> world" where
  "Fork_Read d f n fn x q w =
     (if \<not> fork_live f then (Ret (Some ErrNoSuchFork), x, q, w)
      else case buckets_Read d n (fork_name f) fn x (q_buckets q) w of
             (r, x, bs, w) \<Rightarrow> (r, x, q\<lparr>q_buckets := bs\<rparr>, w))"

definition Fork_Len :: "('m, 't) deps \<Rightarrow> Fork \<Rightarrow> ('m, 't) Queue \<Rightarrow> world \<Rightarrow> int" where
  "Fork_Len d f q w = (if \<not> fork_live f then 0 else buckets_Len d (fork_name f) (q_buckets q) w)"

definition Fork_Delete :: "('m, 't) deps \<Rightarrow> Fork \<Rightarrow> Key \<Rightarrow> Key \<Rightarrow> ('m, 't) Queue \<Rightarrow> world \<Rightarrow>
    (int \<times> err option) \<times> ('m, 't) Queue \<times> world" where
  "Fork_Delete d f from to q w =
     (if \<not> fork_live f then ((0, Some ErrNoSuchFork), q, w)
      else case buckets_Delete d (fork_name f) from to (q_buckets q) w of (r, bs, w) \<Rightarrow> (r, q\<lparr>q_buckets := bs\<rparr>, w))"

definition Fork_Remove :: "('m, 't) deps \<Rightarrow> Fork \<Rightarrow> ('m, 't) Queue \<Rightarrow> world \<Rightarrow>
    err option go \<times> Fork \<times> ('m, 't) Queue \<times> world" where
  "Fork_Remove d f q w =
     (if \<not> fork_live f then (Ret (Some ErrNoSuchFork), f, q, w)
      else case buckets_RemoveFork d (fork_name f) (q_buckets q) w of
             (r, bs, w) \<Rightarrow> (r, f\<lparr>fork_live := False\<rparr>, q\<lparr>q_buckets := bs\<rparr>, w))"

definition Fork_Shovel :: "('m, 't) deps \<Rightarrow> bool \<Rightarrow> Fork \<Rightarrow> ('m, 't) Queue \<Rightarrow> ('m, 't) Queue \<Rightarrow> world \<Rightarrow>
    (int \<times> err option) go \<times> ('m, 't) Queue \<times> ('m, 't) Queue \<times> world" where
  "Fork_Shovel d xdev f dst q w =
     (if \<not> fork_live f then (Ret (0, Some ErrNoSuchFork), dst, q, w)
      else shovel_to d xdev (fork_name f) dst q w)"

text \<open>\<^verbatim>\<open>Fork.Fork\<close> follows the pointer without a check.\<close>

definition Fork_Fork :: "('m, 't) deps \<Rightarrow> Fork \<Rightarrow> ForkName \<Rightarrow> ('m, 't) Queue \<Rightarrow> world \<Rightarrow>
    (err + Fork) go \<times> ('m, 't) Queue \<times> world" where
  "Fork_Fork d f name q w =
     (if \<not> fork_live f then (Panic, q, w) else fork_from d (fork_name f) name q w)"

section \<open>Consumers\<close>

datatype Consumer = QueueConsumer | ForkConsumer Fork

definition Consumer_Read :: "('m, 't) deps \<Rightarrow> Consumer \<Rightarrow> int \<Rightarrow> 'x TransactionFn \<Rightarrow> 'x \<Rightarrow> ('m, 't) Queue \<Rightarrow> world \<Rightarrow>
    err option go \<times> 'x \<times> ('m, 't) Queue \<times> world" where
  "Consumer_Read d c n fn x q w =
     (case c of QueueConsumer \<Rightarrow> Queue_Read d n fn x q w | ForkConsumer f \<Rightarrow> Fork_Read d f n fn x q w)"

text \<open>The callbacks of \<^verbatim>\<open>PopCopy\<close> and \<^verbatim>\<open>PeekCopy\<close>: append a copy of the items and ask for \<open>op\<close>.\<close>

definition copy_items :: "int \<Rightarrow> Items TransactionFn" where
  "copy_items op items popped =
     (case Items_Copy popped of Ret copied \<Rightarrow> TxReturn (items @ copied) op None | Panic \<Rightarrow> TxPanic)"

definition PopCopy :: "('m, 't) deps \<Rightarrow> Consumer \<Rightarrow> int \<Rightarrow> ('m, 't) Queue \<Rightarrow> world \<Rightarrow>
    (Items \<times> err option) go \<times> ('m, 't) Queue \<times> world" where
  "PopCopy d c n q w =
     (case Consumer_Read d c n (copy_items ReadOpPop) [] q w of
        (r, items, q, w) \<Rightarrow> (go_bind r (\<lambda>e. Ret (items, e)), q, w))"

definition PeekCopy :: "('m, 't) deps \<Rightarrow> Consumer \<Rightarrow> int \<Rightarrow> ('m, 't) Queue \<Rightarrow> world \<Rightarrow>
    (Items \<times> err option) go \<times> ('m, 't) Queue \<times> world" where
  "PeekCopy d c n q w =
     (case Consumer_Read d c n (copy_items ReadOpPeek) [] q w of
        (r, items, q, w) \<Rightarrow> (go_bind r (\<lambda>e. Ret (items, e)), q, w))"

end
