(* ===== verification/Buckets_Tree.thy ===== *)
theory Buckets_Tree
  imports Buckets Bucket_Peek
begin

text \<open>
  The collection as an ordered map: splitting a batch by bucket, which buckets stay loaded, and the
  length of the queue. Nothing here depends on the content of the files, so the facts hold for every
  sequence of failing system calls.
\<close>

section \<open>Splitting a batch\<close>

lemma takeWhile_take_drop:
  "\<forall>x\<in>set (take n xs). P x \<Longrightarrow> takeWhile P xs = take n xs @ takeWhile P (drop n xs)"
  by (metis append_take_drop_id takeWhile_append2)

lemma takeWhile_take:
  assumes "n < length xs" "\<not> P (xs ! n)"
  shows "takeWhile P xs = takeWhile P (take n xs)"
proof -
  have "takeWhile P xs = takeWhile P (take n xs @ xs ! n # drop (Suc n) xs)"
    using assms(1) by (simp add: id_take_nth_drop [symmetric])
  then show ?thesis using assms(2) by (simp add: takeWhile_tail)
qed

lemma sorted_keys_nth:
  "sorted (keys_of xs) \<Longrightarrow> i \<le> j \<Longrightarrow> j < length xs \<Longrightarrow> item_Key (xs ! i) \<le> item_Key (xs ! j)"
  using sorted_nth_mono [of "keys_of xs" i j] by (simp add: keys_of_def)

context bucket_split
begin

lemma binsplit_takeWhile:
  assumes "items \<noteq> []" "sorted (keys_of items)" "f (item_Key (hd items)) = bk"
  shows "binsplit items bk f = length (takeWhile (\<lambda>it. f (item_Key it) = bk) items)"
  using assms
proof (induction items rule: measure_induct_rule [where f = length])
  case (less items)
  let ?P = "\<lambda>it. f (item_Key it) = bk" and ?p = "length items div 2"
  show ?case
  proof (cases "length items = 1")
    case True
    then obtain x where "items = [x]" by (cases items) auto
    then show ?thesis using less.prems(3) by (simp add: binsplit.simps)
  next
    case False
    then have p: "0 < ?p" "?p < length items" using less.prems(1) half_pos [of items] by simp_all
    have h: "f (item_Key (items ! 0)) = bk" using less.prems(1,3) by (simp add: hd_conv_nth)
    have lo: "sorted (keys_of (take ?p items))" "sorted (keys_of (drop ?p items))"
      using less.prems(2) by (simp_all add: keys_of_def sorted_wrt_take sorted_wrt_drop flip: take_map drop_map)
    show ?thesis
    proof (cases "?P (items ! ?p)")
      case True
      have "\<forall>x\<in>set (take ?p items). ?P x"
      proof
        fix x
        assume "x \<in> set (take ?p items)"
        then obtain i where "i < ?p" "x = items ! i" using p(2) by (auto simp: in_set_conv_nth)
        then show "?P x"
          using between [of "item_Key (items ! 0)" "item_Key x" "item_Key (items ! ?p)"] p(2) h True
            sorted_keys_nth [OF less.prems(2), of 0 i] sorted_keys_nth [OF less.prems(2), of i ?p] by simp
      qed
      then have "takeWhile ?P items = take ?p items @ takeWhile ?P (drop ?p items)" by (rule takeWhile_take_drop)
      moreover have "binsplit (drop ?p items) bk f = length (takeWhile ?P (drop ?p items))"
        by (rule less.IH) (use p lo True in \<open>simp_all add: hd_drop_conv_nth\<close>)
      ultimately show ?thesis using False p True by (simp add: binsplit.simps [of items] Let_def)
    next
      case right: False
      have "binsplit (take ?p items) bk f = length (takeWhile ?P (take ?p items))"
        by (rule less.IH) (use p lo h less.prems(1,3) in simp_all)
      then show ?thesis using False p right takeWhile_take [of ?p items ?P]
        by (simp add: binsplit.simps [of items] Let_def)
    qed
  qed
qed

end

text \<open>
  C21 (splitting a batch): if the split function is monotone and the batch is sorted, the binary search
  finds the first item that belongs to another bucket than the first one, like a linear scan.
\<close>

theorem binsplit_linear:
  assumes "bucket_split f" "items \<noteq> []" "sorted (keys_of items)"
  shows "binsplit items (f (item_Key (hd items))) f =
    length (takeWhile (\<lambda>it. f (item_Key it) = f (item_Key (hd items))) items)"
  by (rule bucket_split.binsplit_takeWhile [OF assms refl])

theorem binsplit_linear_witness:
  "binsplit [\<lparr>item_Key = key_of_int 3, item_Blob = []\<rparr>, \<lparr>item_Key = key_of_int 12, item_Blob = []\<rparr>]
     (FixedSizeFunc 10 (key_of_int 3)) (FixedSizeFunc 10) =
   length (takeWhile (\<lambda>it. FixedSizeFunc 10 (item_Key it) = FixedSizeFunc 10 (key_of_int 3))
     [\<lparr>item_Key = key_of_int 3, item_Blob = []\<rparr>, \<lparr>item_Key = key_of_int 12, item_Blob = []\<rparr>])"
proof -
  have "bucket_split (FixedSizeFunc 10)" using fixed.bucket_split_axioms [of 10] by simp
  moreover have "sorted (keys_of [\<lparr>item_Key = key_of_int 3, item_Blob = []\<rparr>, \<lparr>item_Key = key_of_int 12, item_Blob = []\<rparr>])"
    by (simp add: keys_of_def less_eq_Key_def)
  ultimately show ?thesis using binsplit_linear by fastforce
qed

section \<open>The collection as a sorted list of buckets\<close>

lemma al_set_keys:
  "k \<in> fst ` set es \<Longrightarrow> sorted_keys es \<Longrightarrow> map fst (al_set k v es) = map fst es"
proof (induction k v es rule: al_set.induct)
  case (2 k v a b es)
  then have "k \<noteq> a \<Longrightarrow> a < k" by auto
  with 2 show ?case by auto
qed simp

lemma al_set_nth:
  assumes "sorted_keys es" "i < length es"
  shows "al_set (fst (es ! i)) v es = es[i := (fst (es ! i), v)]"
  using assms
proof (induction es arbitrary: i)
  case (Cons e es)
  obtain a b where e: "e = (a, b)" by (cases e)
  show ?case
  proof (cases i)
    case (Suc j)
    then have "fst (es ! j) \<in> fst ` set es" using Cons.prems(2) by simp
    then have "a < fst (es ! j)" using Cons.prems(1) e by auto
    then have "\<not> fst (es ! j) < a" "fst (es ! j) \<noteq> a" by auto
    then show ?thesis using Cons.IH [of j] Cons.prems Suc e by simp
  qed (simp add: e)
qed simp

locale buckets_tree = tree: btree_map "d_tree d" for d :: "('m, 't) deps"
begin

abbreviation view :: "('m, 't) buckets \<Rightarrow> (Key \<times> 'm bucket option) list" where
  "view bs \<equiv> bt_iter (d_tree d) (bs_tree bs)"

lemma view_sorted: "sorted_keys (view bs)" "distinct (map fst (view bs))"
  using tree.iter_sorted by (auto simp: strict_sorted_iff)

lemma tree_get_view: "tree_get d key bs = map_of (view bs) key"
  by (simp add: tree_get_def tree.get_iter)

lemma view_tree_set [simp]: "view (tree_set d key b bs) = al_set key b (view bs)"
  by (simp add: tree_set_def)

lemma tree_get_set [simp]: "tree_get d k (tree_set d key b bs) = (if k = key then Some b else tree_get d k bs)"
  by (simp add: tree_get_def tree_set_def)

lemma tree_keys_set: "key \<in> set (tree_keys d bs) \<Longrightarrow> tree_keys d (tree_set d key b bs) = tree_keys d bs"
  using al_set_keys [of key "view bs" b] view_sorted(1) by (simp add: tree_keys_def)

lemma tree_get_keys: "tree_get d key bs \<noteq> None \<longleftrightarrow> key \<in> set (tree_keys d bs)"
  by (simp add: tree_get_view tree_keys_def map_of_eq_None_iff)

end

text \<open>How many of the buckets in a list are loaded\<close>

definition n_loaded :: "(Key \<times> 'b option) list \<Rightarrow> nat" where
  "n_loaded es = length (filter (\<lambda>(_, b). \<not> Option.is_none b) es)"

lemma n_loaded_simps [simp]:
  "n_loaded [] = 0" "n_loaded ((k, None) # es) = n_loaded es" "n_loaded ((k, Some b) # es) = Suc (n_loaded es)"
  by (simp_all add: n_loaded_def)

lemma n_loaded_append [simp]: "n_loaded (xs @ ys) = n_loaded xs + n_loaded ys"
  by (simp add: n_loaded_def)

lemma n_loaded_update:
  assumes "i < length es" "es ! i = (k, Some b)"
  shows "n_loaded (es[i := (k, None)]) + 1 = n_loaded es"
proof -
  have "es = take i es @ (k, Some b) # drop (Suc i) es" using assms by (metis id_take_nth_drop)
  moreover have "es[i := (k, None)] = take i es @ (k, None) # drop (Suc i) es" using assms(1) by (rule upd_conv_take_nth_drop)
  ultimately have "n_loaded es = n_loaded (take i es) + Suc (n_loaded (drop (Suc i) es))"
    "n_loaded (es[i := (k, None)]) = n_loaded (take i es) + n_loaded (drop (Suc i) es)"
    by (metis n_loaded_append n_loaded_simps(3)) (metis n_loaded_append n_loaded_simps(2) \<open>es[i := (k, None)] = _\<close>)
  then show ?thesis by simp
qed

lemma n_loaded_0: "(\<And>i. i < length es \<Longrightarrow> snd (es ! i) = None) \<Longrightarrow> n_loaded es = 0"
  by (fastforce simp: n_loaded_def filter_empty_conv in_set_conv_nth)

lemma n_loaded_al_set:
  "sorted_keys es \<Longrightarrow> n_loaded (al_set k v es) + of_bool (\<exists>b. map_of es k = Some (Some b)) =
     n_loaded es + of_bool (v \<noteq> None)"
proof (induction k v es rule: al_set.induct)
  case (2 k v a b es)
  have "k < a \<Longrightarrow> map_of es k = None" using "2.prems" by (force simp: map_of_eq_None_iff)
  with 2 show ?case by (cases v; cases b) auto
qed (auto split: option.splits)

text \<open>The sequence of positions that \<^verbatim>\<open>closeUnused\<close> tries reaches every bucket.\<close>

definition real_idx :: "int \<Rightarrow> int \<Rightarrow> int" where
  "real_idx pivot idx = (if idx mod 2 = 0 then pivot + idx div 2 else pivot - idx div 2 - 1)"

lemma real_idx_onto:
  assumes "0 \<le> j" "j < n"
  shows "\<exists>idx. 0 \<le> idx \<and> idx < n \<and> real_idx (n div 2) idx = j"
proof (cases "n div 2 \<le> j")
  case True
  then show ?thesis using assms by (intro exI [of _ "2 * (j - n div 2)"]) (auto simp: real_idx_def)
next
  case False
  then show ?thesis using assms
    by (intro exI [of _ "2 * (n div 2 - 1 - j) + 1"]) (auto simp: real_idx_def)
qed

section \<open>Closing buckets\<close>

text \<open>What the operations below leave of a collection as it is.\<close>

definition same_conf :: "('m, 't) buckets \<Rightarrow> ('m, 't) buckets \<Rightarrow> bool" where
  "same_conf bs bs' \<longleftrightarrow> bs_dir bs' = bs_dir bs \<and> bs_opts bs' = bs_opts bs \<and> bs_forks bs' = bs_forks bs"

lemma same_conf_refl [simp]: "same_conf bs bs"
  by (simp add: same_conf_def)

lemma same_conf_trans [trans]: "same_conf a b \<Longrightarrow> same_conf b c \<Longrightarrow> same_conf a c"
  by (simp add: same_conf_def)

text \<open>What \<^verbatim>\<open>Len\<close> counts for one bucket\<close>

fun entry_len :: "ForkName \<Rightarrow> ((Key \<times> ForkName) \<times> Trailer) list \<Rightarrow> Key \<times> 'm bucket option \<Rightarrow> int" where
  "entry_len fork tr (key, Some b) = bucket_Len b fork"
| "entry_len fork tr (key, None) = (case map_of tr (key, fork) of None \<Rightarrow> 0 | Some t \<Rightarrow> sint t)"

lemma put_trailers_conf [simp]:
  "bs_tree (put_trailers key calls bs) = bs_tree bs" "bs_closed (put_trailers key calls bs) = bs_closed bs"
  "bs_opts (put_trailers key calls bs) = bs_opts bs" "bs_dir (put_trailers key calls bs) = bs_dir bs"
  "bs_forks (put_trailers key calls bs) = bs_forks bs"
  unfolding put_trailers_def by (induction calls arbitrary: bs) (auto simp: put_trailer_def)

lemma map_of_put_trailers:
  "map_of (bs_trailers (put_trailers key calls bs)) (k, f) =
     (if k = key \<and> map_of (rev calls) f \<noteq> None then map_of (rev calls) f else map_of (bs_trailers bs) (k, f))"
  unfolding put_trailers_def
  by (induction calls arbitrary: bs) (auto simp: put_trailer_def update_conv' map_add_Some_iff map_add_def split: option.splits)

lemma Trailers_Len:
  assumes "distinct (map fst (b_indexes b))" "map_of (b_indexes b) fork \<noteq> None"
  shows "\<exists>t. map_of (rev (bucket_Trailers b)) fork = Some t \<and> sint t = bucket_Len b fork"
proof -
  obtain idx where idx: "map_of (b_indexes b) fork = Some idx" using assms(2) by blast
  have "map fst (bucket_Trailers b) = map fst (b_indexes b)" by (auto simp: bucket_Trailers_def)
  then have "map_of (rev (bucket_Trailers b)) = map_of (bucket_Trailers b)"
    using assms(1) by (subst map_of_inject_set) (simp_all flip: rev_map)
  moreover have "map_of (bucket_Trailers b) fork = Some (Index_Trailer (bi_Mem idx))"
    using idx by (simp add: bucket_Trailers_def map_of_map)
  ultimately show ?thesis using idx by (simp add: bucket_Len_def idxForFork_def Index_Trailer_def Index_Len_def)
qed

text \<open>Every loaded bucket knows the fork (as a Go map, so without repetition).\<close>

definition knows_fork :: "ForkName \<Rightarrow> (Key \<times> 'm bucket option) list \<Rightarrow> bool" where
  "knows_fork fork es \<longleftrightarrow>
     (\<forall>(key, buck)\<in>set es. \<forall>b. buck = Some b \<longrightarrow> distinct (map fst (b_indexes b)) \<and> map_of (b_indexes b) fork \<noteq> None)"

text \<open>The collection after one bucket was closed, and after some were.\<close>

definition closed_bucket :: "('m, 't) deps \<Rightarrow> Key \<Rightarrow> 'm bucket \<Rightarrow> ('m, 't) buckets \<Rightarrow> ('m, 't) buckets" where
  "closed_bucket d key b bs =
     (tree_set d key None (put_trailers key (bucket_Trailers b) bs))\<lparr>bs_closed := bs_closed bs @ [(key, b)]\<rparr>"

inductive closes :: "('m, 't) deps \<Rightarrow> ('m, 't) buckets \<Rightarrow> ('m, 't) buckets \<Rightarrow> bool" for d where
  refl: "closes d bs bs"
| step: "closes d bs bs1 \<Longrightarrow> tree_get d key bs1 = Some (Some b) \<Longrightarrow> closes d bs (closed_bucket d key b bs1)"

lemma closes_trans: "closes d bs1 bs2 \<Longrightarrow> closes d bs bs1 \<Longrightarrow> closes d bs bs2"
  by (induction rule: closes.induct) (auto intro: closes.step)

lemma close_one_closed: "\<exists>e' w'. close_one d key b e bs w = (e', closed_bucket d key b bs, w')"
  by (auto simp: close_one_def closed_bucket_def Let_def split: prod.splits)

context buckets_tree
begin

lemma nloaded_view: "nloaded d bs = int (n_loaded (view bs))"
  by (simp add: nloaded_def n_loaded_def)

lemma tree_at_Some: "tree_at d i bs = Some e \<longleftrightarrow> 0 \<le> i \<and> i < int (length (view bs)) \<and> e = view bs ! nat i"
  by (auto simp: tree_at_def Let_def)

lemma closed_view:
  assumes "tree_at d i bs = Some (key, Some b)"
  shows "view (closed_bucket d key b bs) = (view bs)[nat i := (key, None)]"
proof -
  have i: "nat i < length (view bs)" "view bs ! nat i = (key, Some b)" using assms by (auto simp: tree_at_Some)
  show ?thesis using al_set_nth [OF view_sorted(1) i(1), of None] i(2) by (simp add: closed_bucket_def tree_set_def)
qed

lemma tree_at_get: "tree_at d i bs = Some (key, v) \<Longrightarrow> tree_get d key bs = Some v"
  using view_sorted(2) [of bs] by (auto simp: tree_at_Some tree_get_view intro!: map_of_is_SomeI)

lemma close_loop_closes:
  "close_loop d N p idxs c e bs w = (e', bs', w') \<Longrightarrow> closes d bs bs'"
proof (induction idxs arbitrary: c e bs w)
  case (Cons idx idxs)
  show ?case
  proof (cases "tree_at d (real_idx p idx) bs")
    case (Some kb)
    then obtain key v where kv: "tree_at d (real_idx p idx) bs = Some (key, v)" by (cases kb) auto
    show ?thesis
    proof (cases v)
      case v: (Some b)
      obtain e1 w1 where 1: "close_one d key b e bs w = (e1, closed_bucket d key b bs, w1)"
        using close_one_closed by blast
      show ?thesis
      proof (cases "c < N")
        case True
        then have "closes d (closed_bucket d key b bs) bs'"
          using Cons.IH [of "c + 1" e1 _ w1] Cons.prems kv v 1 by (simp add: real_idx_def Let_def)
        moreover have "closes d bs (closed_bucket d key b bs)"
          using closes.step [OF closes.refl] tree_at_get kv v by blast
        ultimately show ?thesis by (blast intro: closes_trans)
      qed (use Cons.prems in \<open>auto intro: closes.refl\<close>)
    qed (use Cons kv in \<open>auto simp: real_idx_def Let_def intro: closes.refl split: if_splits\<close>)
  qed (use Cons in \<open>auto simp: real_idx_def Let_def intro: closes.refl split: if_splits\<close>)
qed (auto intro: closes.refl)

lemma close_loop_count:
  assumes "close_loop d N p idxs c e bs w = (e', bs', w')" "c \<le> N"
    "\<And>j. j < length (view bs) \<Longrightarrow> snd (view bs ! j) = None \<or> int j \<in> real_idx p ` set idxs"
  shows "int (n_loaded (view bs')) = max 0 (int (n_loaded (view bs)) - (N - c))"
  using assms
proof (induction idxs arbitrary: c e bs w)
  case Nil
  then have "n_loaded (view bs) = 0" by (intro n_loaded_0) auto
  then show ?case using Nil by simp
next
  case (Cons idx idxs)
  show ?case
  proof (cases "c < N")
    case False
    then show ?thesis using Cons.prems by simp
  next
    case c: True
    show ?thesis
    proof (cases "\<exists>key b. tree_at d (real_idx p idx) bs = Some (key, Some b)")
      case True
      then obtain key b where kb: "tree_at d (real_idx p idx) bs = Some (key, Some b)" by blast
      obtain e1 w1 where 1: "close_one d key b e bs w = (e1, closed_bucket d key b bs, w1)"
        using close_one_closed by blast
      have i: "nat (real_idx p idx) < length (view bs)" "view bs ! nat (real_idx p idx) = (key, Some b)"
        using kb by (auto simp: tree_at_Some)
      have n: "n_loaded (view (closed_bucket d key b bs)) + 1 = n_loaded (view bs)"
        unfolding closed_view [OF kb] by (rule n_loaded_update [OF i])
      have "int (n_loaded (view bs')) = max 0 (int (n_loaded (view (closed_bucket d key b bs))) - (N - (c + 1)))"
      proof (rule Cons.IH)
        show "close_loop d N p idxs (c + 1) e1 (closed_bucket d key b bs) w1 = (e', bs', w')"
          using Cons.prems(1) kb c 1 by (simp add: real_idx_def Let_def)
        show "c + 1 \<le> N" using c by simp
        fix j
        assume j: "j < length (view (closed_bucket d key b bs))"
        show "snd (view (closed_bucket d key b bs) ! j) = None \<or> int j \<in> real_idx p ` set idxs"
          using j Cons.prems(3) [of j] kb unfolding closed_view [OF kb]
          by (cases "j = nat (real_idx p idx)") (auto simp: tree_at_Some)
      qed
      then show ?thesis using n by linarith
    next
      case False
      then have skip: "close_loop d N p idxs c e bs w = (e', bs', w')"
        using Cons.prems(1) c by (fastforce simp: real_idx_def Let_def split: option.splits prod.splits)
      show ?thesis
      proof (rule Cons.IH [OF skip Cons.prems(2)])
        fix j
        assume j: "j < length (view bs)"
        show "snd (view bs ! j) = None \<or> int j \<in> real_idx p ` set idxs"
          using Cons.prems(3) [OF j] False j
          by (cases "view bs ! j") (auto simp: tree_at_Some, metis nat_int option.exhaust)
      qed
    qed
  qed
qed

lemma closeUnused_closes: "closeUnused d m bs w = (e, bs', w') \<Longrightarrow> closes d bs bs'"
  by (auto simp: closeUnused_def Let_def intro: closes.refl close_loop_closes split: if_splits)

lemma closeUnused_count:
  assumes "closeUnused d m bs w = (e, bs', w')" "0 \<le> m"
  shows "nloaded d bs' = min m (nloaded d bs)"
proof (cases "nloaded d bs \<le> m")
  case True
  then show ?thesis using assms by (simp add: closeUnused_def Let_def)
next
  case False
  let ?n = "int (length (view bs))"
  have "int j \<in> real_idx (?n div 2) ` set [0..?n - 1]" if "j < length (view bs)" for j
    using real_idx_onto [of "int j" ?n] that by (force simp: image_iff)
  then have "int (n_loaded (view bs')) = max 0 (int (n_loaded (view bs)) - (nloaded d bs - m - 0))"
    using assms False by (intro close_loop_count) (auto simp: closeUnused_def Let_def tree_keys_def)
  then show ?thesis using False assms(2) by (simp add: nloaded_view)
qed

end

section \<open>What closing keeps\<close>

lemma fold_add_entries:
  "map f es = map g es' \<Longrightarrow> fold (\<lambda>e n. wrap64 (n + f e)) es m = fold (\<lambda>e n. wrap64 (n + g e)) es' m"
  by (induction es es' arbitrary: m rule: list_induct2') auto

lemma wrap64_idem [simp]: "wrap64 (wrap64 x) = wrap64 x"
  by (simp add: wrap64_def)

context buckets_tree
begin

lemma closed_conf: "same_conf bs (closed_bucket d key b bs)"
  by (simp add: closed_bucket_def same_conf_def tree_set_def)

lemma closed_keys:
  "tree_get d key bs = Some v \<Longrightarrow> tree_keys d (closed_bucket d key b bs) = tree_keys d bs"
  using tree_keys_set [of key bs None] tree_get_keys [of key bs]
  by (simp add: closed_bucket_def tree_keys_def tree_set_def)

lemma closed_get: "tree_get d k (closed_bucket d key b bs) = (if k = key then Some None else tree_get d k bs)"
  by (simp add: closed_bucket_def tree_get_def tree_set_def)

lemma closes_conf: "closes d bs bs' \<Longrightarrow> same_conf bs bs' \<and> tree_keys d bs' = tree_keys d bs"
  by (induction rule: closes.induct) (auto simp: closed_keys intro: same_conf_trans closed_conf)

lemma closed_entry_len:
  assumes "tree_get d key bs = Some (Some b)" "knows_fork fork (view bs)"
  shows "map (entry_len fork (bs_trailers (closed_bucket d key b bs))) (view (closed_bucket d key b bs)) =
    map (entry_len fork (bs_trailers bs)) (view bs)"
proof -
  have "(key, Some b) \<in> set (view bs)" using assms(1) by (simp add: tree_get_view map_of_SomeD)
  then obtain i where i: "i < length (view bs)" "view bs ! i = (key, Some b)" by (auto simp: in_set_conv_nth)
  then have v: "view (closed_bucket d key b bs) = (view bs)[i := (key, None)]"
    using closed_view [of "int i" bs key b] by (simp add: tree_at_Some)
  have tr: "bs_trailers (closed_bucket d key b bs) = bs_trailers (put_trailers key (bucket_Trailers b) bs)"
    by (simp add: closed_bucket_def tree_set_def)
  obtain t where t: "map_of (rev (bucket_Trailers b)) fork = Some t" "sint t = bucket_Len b fork"
    using Trailers_Len assms(2) \<open>(key, Some b) \<in> _\<close> by (fastforce simp: knows_fork_def)
  have "entry_len fork (bs_trailers (closed_bucket d key b bs)) ((view bs)[i := (key, None)] ! j) =
      entry_len fork (bs_trailers bs) (view bs ! j)" if j: "j < length (view bs)" for j
  proof (cases "j = i")
    case True
    then show ?thesis using i t by (simp add: tr map_of_put_trailers)
  next
    case False
    then have "fst (view bs ! j) \<noteq> key"
      using nth_eq_iff_index_eq [OF view_sorted(2) [of bs], of j i] i j by simp
    then show ?thesis using False
      by (cases "view bs ! j"; cases "snd (view bs ! j)") (auto simp: tr map_of_put_trailers)
  qed
  then show ?thesis unfolding v by (intro nth_equalityI) (use i in auto)
qed

lemma closed_knows:
  assumes "tree_get d key bs = Some (Some b)" "knows_fork fork (view bs)"
  shows "knows_fork fork (view (closed_bucket d key b bs))"
proof -
  have "(key, Some b) \<in> set (view bs)" using assms(1) by (simp add: tree_get_view map_of_SomeD)
  then obtain i where i: "i < length (view bs)" "view bs ! i = (key, Some b)" by (auto simp: in_set_conv_nth)
  then have "view (closed_bucket d key b bs) = (view bs)[i := (key, None)]"
    using closed_view [of "int i" bs key b] by (simp add: tree_at_Some)
  then have "e \<in> set (view bs) \<or> e = (key, None)" if "e \<in> set (view (closed_bucket d key b bs))" for e
    using that set_update_subset_insert [of "view bs" i "(key, None)"] by (simp only: subset_iff insert_iff) blast
  then show ?thesis using assms(2) unfolding knows_fork_def by fast
qed

lemma closes_entry_len:
  assumes "closes d bs bs'" "knows_fork fork (view bs)"
  shows "knows_fork fork (view bs') \<and>
     map (entry_len fork (bs_trailers bs')) (view bs') = map (entry_len fork (bs_trailers bs)) (view bs)"
  using assms
proof (induction rule: closes.induct)
  case (step bs bs1 key b)
  then show ?case using closed_knows [of key bs1 b fork] closed_entry_len [of key bs1 b fork] by metis
qed simp

lemma Len_loop:
  assumes "view bs = pre @ es" "wrap64 n = n"
  shows "fst (snd (iter_loop d includeNil
      (\<lambda>key buck len bs w.
         case buck of
           None \<Rightarrow>
             (case map_of (bs_trailers bs) (key, fork) of
                None \<Rightarrow> (Ret None, len, bs, w)
              | Some trailer \<Rightarrow> (Ret None, wrap64 (len + sint trailer), bs, w))
         | Some b \<Rightarrow> (Ret None, wrap64 (len + bucket_Len b fork), bs, w)) (map fst es) n bs w)) =
    fold (\<lambda>e n. wrap64 (n + entry_len fork (bs_trailers bs) e)) es n"
  using assms
proof (induction es arbitrary: pre n)
  case (Cons e es)
  obtain k v where e: "e = (k, v)" by (cases e)
  have "tree_get d k bs = Some v"
    unfolding tree_get_view using Cons.prems(1) e by (intro map_of_is_SomeI view_sorted(2)) simp
  then show ?case using Cons.IH [of "pre @ [e]"] Cons.prems e
    by (cases v) (auto simp: iter_fetch_def wrap64_idem split: option.splits)
qed simp

lemma Len_view: "buckets_Len d fork bs w = fold (\<lambda>e n. wrap64 (n + entry_len fork (bs_trailers bs) e)) (view bs) 0"
  using Len_loop [of bs "[]" "view bs" 0 fork w]
  by (simp add: buckets_Len_def buckets_iter_def tree_keys_def case_prod_beta)

lemma closes_Len: "closes d bs bs' \<Longrightarrow> knows_fork fork (view bs) \<Longrightarrow> buckets_Len d fork bs' w' = buckets_Len d fork bs w"
  unfolding Len_view using closes_entry_len by (intro fold_add_entries) blast

end

section \<open>What the collection relies on\<close>

text \<open>
  The ordered maps obey their laws, and \<^verbatim>\<open>slices.SortFunc\<close> permutes its argument into an order that
  agrees with the comparison, if the comparison is one of some rank of the items.
\<close>

locale queue_deps = buckets_tree d + idx: index_btree "d_index d" for d :: "('m, 't) deps" +
  assumes SortFunc_mset: "mset (d_SortFunc d cmp xs) = mset xs"
    and SortFunc_sorted: "\<forall>a\<in>set xs. \<forall>b\<in>set xs. sgn (cmp a b) = sgn (r a - r b) \<Longrightarrow>
      sorted (map (r :: Item \<Rightarrow> int) (d_SortFunc d cmp xs))"
begin

text \<open>The difference of keys is such a comparison as long as it does not overflow.\<close>

lemma SortFunc_keys:
  assumes "\<forall>a\<in>set xs. \<forall>b\<in>set xs. \<bar>key_int (item_Key a) - key_int (item_Key b)\<bar> < 2 ^ 63"
  shows "sorted (keys_of (d_SortFunc d key_cmp xs))"
proof -
  have "wrap64 (key_int (item_Key a) - key_int (item_Key b)) = key_int (item_Key a) - key_int (item_Key b)"
    if "a \<in> set xs" "b \<in> set xs" for a b
    using assms that by (intro wrap64_id) (force simp: abs_less_iff)+
  then have "sorted (map (\<lambda>it. key_int (item_Key it)) (d_SortFunc d key_cmp xs))"
    by (intro SortFunc_sorted) (simp add: key_cmp_def)
  then show ?thesis by (simp add: keys_of_def sorted_map less_eq_Key_def)
qed

end

text \<open>An instance: association lists and insertion sort.\<close>

fun ins_cmp :: "('a \<Rightarrow> 'a \<Rightarrow> int) \<Rightarrow> 'a \<Rightarrow> 'a list \<Rightarrow> 'a list" where
  "ins_cmp cmp x [] = [x]"
| "ins_cmp cmp x (y # ys) = (if cmp x y \<le> 0 then x # y # ys else y # ins_cmp cmp x ys)"

definition demo_deps :: "((Key \<times> Location list) list,
    (Key \<times> (Key \<times> Location list) list bucket option) list) deps" where
  "demo_deps =
     \<lparr>d_tree = alist_btree, d_index = alist_btree, d_page = 4096,
      d_SortFunc = (\<lambda>cmp xs. foldr (ins_cmp cmp) xs []),
      d_Copy = (\<lambda>src dst w. (None, case node_at w src of Some n \<Rightarrow> put_node dst n w | None \<Rightarrow> w)),
      d_WriteFile = (\<lambda>p bs w. (None, put_node p (File bs) w)),
      d_IsAlnum = (\<lambda>_. False)\<rparr>"

lemma mset_ins_cmp [simp]: "mset (ins_cmp cmp x xs) = add_mset x (mset xs)"
  by (induction xs) auto

lemma set_ins_cmp [simp]: "set (ins_cmp cmp x xs) = insert x (set xs)"
  by (induction xs) auto

lemma mset_ins_sort [simp]: "mset (foldr (ins_cmp cmp) xs []) = mset xs"
  by (induction xs) auto

lemma sorted_ins_cmp:
  "\<forall>b\<in>set xs. sgn (cmp x b) = sgn (r x - r b) \<Longrightarrow> sorted (map r xs) \<Longrightarrow> sorted (map (r :: 'a \<Rightarrow> int) (ins_cmp cmp x xs))"
proof (induction xs)
  case (Cons y ys)
  have "cmp x y \<le> 0 \<longleftrightarrow> r x \<le> r y" using Cons.prems(1) by (simp add: sgn_if split: if_splits)
  then show ?case using Cons by (auto intro: order_trans)
qed simp

lemma sorted_ins_sort:
  "\<forall>a\<in>set xs. \<forall>b\<in>set xs. sgn (cmp a b) = sgn (r a - r b) \<Longrightarrow> sorted (map (r :: 'a \<Rightarrow> int) (foldr (ins_cmp cmp) xs []))"
proof (induction xs)
  case (Cons x xs)
  have "set (foldr (ins_cmp cmp) xs []) = set xs" by (metis mset_ins_sort set_mset_mset)
  then show ?case using Cons by (auto intro!: sorted_ins_cmp)
qed simp

interpretation demo: queue_deps demo_deps
  by unfold_locales
    (simp_all add: demo_deps_def alist.iter_sorted alist.get_iter sorted_ins_sort)

text \<open>
  Closing unused buckets brings the number of loaded ones down to the
  limit exactly (never below it if there were as many), takes no bucket out of the collection, and
  leaves the length of the queue as every fork sees it, whichever calls fail.
\<close>

theorem closeUnused_limit:
  assumes "btree_map (d_tree d)" "closeUnused d m bs w = (e, bs', w')" "0 \<le> m"
  shows "nloaded d bs' = min m (nloaded d bs) \<and> tree_keys d bs' = tree_keys d bs \<and>
    (\<forall>fork. knows_fork fork (bt_iter (d_tree d) (bs_tree bs)) \<longrightarrow> buckets_Len d fork bs' w' = buckets_Len d fork bs w)"
proof -
  have t: "buckets_tree d" using assms(1) by (simp add: buckets_tree_def)
  note c = buckets_tree.closeUnused_closes [OF t assms(2)]
  show ?thesis
    using buckets_tree.closeUnused_count [OF t assms(2,3)] buckets_tree.closes_conf [OF t c]
      buckets_tree.closes_Len [OF t c] by blast
qed

definition demo_buckets :: "(Key \<times> (Key \<times> Location list) list bucket option) list \<Rightarrow>
    ((Key \<times> Location list) list, (Key \<times> (Key \<times> Location list) list bucket option) list) buckets" where
  "demo_buckets t = \<lparr>bs_dir = [''q''], bs_tree = t, bs_trailers = [], bs_opts = DefaultOptions, bs_forks = [], bs_closed = []\<rparr>"

definition demo_bucket :: "Key \<Rightarrow> (Key \<times> Location list) list bucket" where
  "demo_bucket key =
     \<lparr>b_dir = [''q'', Key_String key], b_key = key,
      b_log = \<lparr>log_path = [''q'', Key_String key, dataLogName], log_mmap = [], log_size = 0, log_syncOnWrite = False, log_isEmpty = True\<rparr>,
      b_opts = DefaultOptions,
      b_indexes = [('''', \<lparr>bi_Log = \<lparr>wr_path = [''q'', Key_String key, ''idx.log''], wr_sync = False\<rparr>,
        bi_Mem = \<lparr>idx_m = [], idx_len = 5, idx_nentries = 5\<rparr>\<rparr>)]\<rparr>"

lemma demo_key_order: "(key_of_int 1 :: Key) < key_of_int 2"
  by (simp add: less_Key_def)

theorem closeUnused_limit_witness:
  "\<exists>e bs' w'. closeUnused demo_deps 1
     (demo_buckets [(key_of_int 1, Some (demo_bucket (key_of_int 1))), (key_of_int 2, Some (demo_bucket (key_of_int 2)))])
     \<lparr>w_fs = [], w_faults = [True]\<rparr> = (e, bs', w') \<and> nloaded demo_deps bs' = 1 \<and> buckets_Len demo_deps '''' bs' w' = 10"
proof -
  define bs where "bs = demo_buckets
    [(key_of_int 1, Some (demo_bucket (key_of_int 1))), (key_of_int 2, Some (demo_bucket (key_of_int 2)))]"
  have v: "bt_iter (d_tree demo_deps) (bs_tree bs) =
      [(key_of_int 1, Some (demo_bucket (key_of_int 1))), (key_of_int 2, Some (demo_bucket (key_of_int 2)))]"
    using demo_key_order by (simp add: bs_def demo_buckets_def demo_deps_def alist_btree_def)
  then have "nloaded demo_deps bs = 2" by (simp add: nloaded_def)
  moreover have "buckets_Len demo_deps '''' bs w = 10" for w
    unfolding demo.Len_view v by (simp add: demo_bucket_def bucket_Len_def idxForFork_def Index_Len_def)
  moreover have "knows_fork '''' (bt_iter (d_tree demo_deps) (bs_tree bs))"
    unfolding v by (simp add: knows_fork_def demo_bucket_def)
  moreover obtain e bs' w' where "closeUnused demo_deps 1 bs \<lparr>w_fs = [], w_faults = [True]\<rparr> = (e, bs', w')"
    by (metis prod_cases3)
  ultimately show ?thesis unfolding bs_def [symmetric]
    using closeUnused_limit [OF demo.tree.btree_map_axioms, of 1 bs] by fastforce
qed

end
