(* ===== verification/Queue_Steps.thy ===== *)
theory Queue_Steps
  imports Api Buckets_Tree
begin

text \<open>
  The queue as a state machine whose steps are the operations of the public interface, with any
  callbacks and any sequence of failing system calls. Its invariant is the limit on the number of
  loaded buckets. Along the way the pointers that \<^verbatim>\<open>Read\<close> holds across a callback are accounted for:
  a loaded bucket stays loaded or is found among the closed ones.
\<close>

section \<open>Steps of a collection\<close>

abbreviation max_open :: "('m, 't) buckets \<Rightarrow> int" where
  "max_open bs \<equiv> opt_MaxParallelOpenBuckets (bs_opts bs)"

definition tracks :: "('m, 't) deps \<Rightarrow> ('m, 't) buckets \<Rightarrow> ('m, 't) buckets \<Rightarrow> bool" where
  "tracks d bs bs' \<longleftrightarrow>
     (\<exists>l. bs_closed bs' = bs_closed bs @ l \<and>
        (\<forall>key b. tree_get d key bs = Some (Some b) \<longrightarrow> key \<in> fst ` set l \<or> (\<exists>b'. tree_get d key bs' = Some (Some b'))))"

definition step_ok :: "('m, 't) deps \<Rightarrow> ('m, 't) buckets \<Rightarrow> ('m, 't) buckets \<Rightarrow> bool" where
  "step_ok d bs bs' \<longleftrightarrow>
     bs_dir bs' = bs_dir bs \<and> bs_opts bs' = bs_opts bs \<and>
     (1 \<le> max_open bs \<and> nloaded d bs \<le> max_open bs \<longrightarrow> nloaded d bs' \<le> max_open bs) \<and> tracks d bs bs'"

lemma tracks_refl [simp]: "tracks d bs bs"
  by (simp add: tracks_def)

lemma tracks_trans:
  assumes "tracks d a b" "tracks d b c"
  shows "tracks d a c"
proof -
  obtain l1 where 1: "bs_closed b = bs_closed a @ l1"
    "\<forall>key v. tree_get d key a = Some (Some v) \<longrightarrow> key \<in> fst ` set l1 \<or> (\<exists>v'. tree_get d key b = Some (Some v'))"
    using assms(1) by (auto simp: tracks_def)
  obtain l2 where 2: "bs_closed c = bs_closed b @ l2"
    "\<forall>key v. tree_get d key b = Some (Some v) \<longrightarrow> key \<in> fst ` set l2 \<or> (\<exists>v'. tree_get d key c = Some (Some v'))"
    using assms(2) by (auto simp: tracks_def)
  show ?thesis unfolding tracks_def
  proof (intro exI [of _ "l1 @ l2"] conjI allI impI)
    show "bs_closed c = bs_closed a @ l1 @ l2" using 1(1) 2(1) by simp
    fix key v
    assume "tree_get d key a = Some (Some v)"
    then consider "key \<in> fst ` set l1" | v' where "tree_get d key b = Some (Some v')" using 1(2) by blast
    then show "key \<in> fst ` set (l1 @ l2) \<or> (\<exists>v'. tree_get d key c = Some (Some v'))"
      by cases (use 2(2) in \<open>simp, (metis UnI1 UnI2 image_Un set_append)?\<close>)+
  qed
qed

lemma step_ok_refl [simp]: "step_ok d bs bs"
  by (simp add: step_ok_def)

lemma step_ok_trans [trans]: "step_ok d a b \<Longrightarrow> step_ok d b c \<Longrightarrow> step_ok d a c"
  unfolding step_ok_def using tracks_trans by metis

lemma step_okD: "step_ok d bs bs' \<Longrightarrow> bs_opts bs' = bs_opts bs"
  by (simp add: step_ok_def)

text \<open>A pointer to a loaded bucket can be followed after a step.\<close>

lemma deref_tracks:
  assumes "tracks d bs bs'" "tree_get d key bs = Some (Some b)" "deref d key (length (bs_closed bs)) b0 bs' = (False, b')"
  shows "tree_get d key bs' = Some (Some b')"
proof -
  obtain l where l: "bs_closed bs' = bs_closed bs @ l" "key \<in> fst ` set l \<or> (\<exists>b'. tree_get d key bs' = Some (Some b'))"
    using assms(1,2) by (auto simp: tracks_def)
  have "filter (\<lambda>(k, _). k = key) l = []" using assms(3) l(1) by (auto simp: deref_def split: list.splits)
  then have "key \<notin> fst ` set l" by (auto simp: filter_empty_conv)
  then obtain b1 where "tree_get d key bs' = Some (Some b1)" using l(2) by blast
  then show ?thesis using assms(3) l(1) \<open>filter _ l = []\<close> by (simp add: deref_def)
qed

context buckets_tree
begin

lemma nloaded_set:
  "nloaded d (tree_set d key v bs) + of_bool (\<exists>b. tree_get d key bs = Some (Some b)) = nloaded d bs + of_bool (v \<noteq> None)"
  using n_loaded_al_set [OF view_sorted(1), of key v bs] by (simp add: nloaded_view tree_get_view of_bool_def split: if_splits)

lemma closes_step:
  assumes "closes d bs bs'"
  shows "step_ok d bs bs' \<and> nloaded d bs' \<le> nloaded d bs"
  using assms
proof (induction rule: closes.induct)
  case (step bs bs1 key b)
  have "nloaded d (closed_bucket d key b bs1) = nloaded d (tree_set d key None bs1)"
    by (simp add: closed_bucket_def nloaded_def tree_set_def)
  then have n: "nloaded d (closed_bucket d key b bs1) \<le> nloaded d bs1"
    using nloaded_set [of key None bs1] by (simp add: of_bool_def split: if_splits)
  have "tracks d bs1 (closed_bucket d key b bs1)" unfolding tracks_def
    by (intro exI [of _ "[(key, b)]"]) (auto simp: closed_get, auto simp: closed_bucket_def)
  then have "step_ok d bs1 (closed_bucket d key b bs1)"
    using n closed_conf [of bs1 key b] by (auto simp: step_ok_def same_conf_def)
  then show ?case using step.IH n step_ok_trans by fastforce
qed simp

lemma put_bucket_step:
  assumes "tree_get d key bs = Some (Some b0)"
  shows "step_ok d bs (put_bucket d key b bs)"
proof -
  have "nloaded d (put_bucket d key b bs) = nloaded d bs"
    using nloaded_set [of key "Some b" bs] assms by (simp add: put_bucket_def)
  moreover have "tracks d bs (put_bucket d key b bs)" unfolding tracks_def put_bucket_def
    by (intro exI [of _ "[]"]) (simp, simp add: tree_set_def)
  ultimately show ?thesis by (simp add: step_ok_def) (simp add: put_bucket_def tree_set_def)
qed

lemma put_bucket_get [simp]:
  "tree_get d k (put_bucket d key b bs) = (if k = key then Some (Some b) else tree_get d k bs)"
  by (simp add: put_bucket_def)

lemma forKey_step:
  assumes "forKey d key bs w = (r, bs', w')"
  shows "step_ok d bs bs' \<and> (\<forall>b. r = Inr b \<longrightarrow> tree_get d key bs' = Some (Some b))"
proof (cases "\<exists>b. tree_get d key bs = Some (Some b)")
  case True
  then show ?thesis using assms by (auto simp: forKey_def)
next
  case False
  obtain e bs1 w1 where 1: "closeUnused d (max_open bs - 1) bs w = (e, bs1, w1)" by (metis prod_cases3)
  note c = closeUnused_closes [OF 1]
  have st: "step_ok d bs bs1" using closes_step [OF c] by blast
  have F: "forKey d key bs w = (case e of Some e \<Rightarrow> (Inl e, bs1, w1) | None \<Rightarrow>
      (case openBucket (d_index d) (d_page d) (buckPath bs1 key) (bs_forks bs1) (bs_opts bs1) w1 of
         (None, w) \<Rightarrow> (Inl ErrPanic, bs1, w)
       | (Some (Inl e), w) \<Rightarrow> (Inl e, bs1, w)
       | (Some (Inr buck), w) \<Rightarrow> (Inr buck, tree_set d key (Some buck) bs1, w)))"
    using False 1 by (auto simp: forKey_def split: option.splits)
  have new: "step_ok d bs (tree_set d key (Some b) bs1)" for b
  proof -
    have "nloaded d (tree_set d key (Some b) bs1) \<le> nloaded d bs1 + 1" using nloaded_set [of key "Some b" bs1] by (simp add: of_bool_def split: if_splits)
    moreover have "1 \<le> max_open bs \<Longrightarrow> nloaded d bs1 \<le> max_open bs - 1"
      using closeUnused_count [OF 1] by simp
    moreover have "tracks d bs1 (tree_set d key (Some b) bs1)" unfolding tracks_def
      by (intro exI [of _ "[]"]) (simp, simp add: tree_set_def)
    ultimately show ?thesis using st tracks_trans unfolding step_ok_def
      by (fastforce simp: tree_set_def)
  qed
  show ?thesis using assms st new unfolding F by (auto split: option.splits prod.splits sum.splits)
qed

lemma delete_step:
  assumes "buckets_delete d key bs w = (e, bs', w')"
  shows "step_ok d bs bs'"
proof (cases "tree_get d key bs")
  case None
  then show ?thesis using assms by (simp add: buckets_delete_def)
next
  case (Some buck)
  obtain l where bs': "bs' = bs\<lparr>bs_trailers := filter (\<lambda>((k, _), _). k \<noteq> key) (bs_trailers bs), bs_closed := bs_closed bs @ l,
      bs_tree := bt_delete (d_tree d) (bs_tree bs) key\<rparr>" "l = (case buck of None \<Rightarrow> [] | Some b \<Rightarrow> [(key, b)])"
    using assms Some by (cases buck) (auto simp: buckets_delete_def Let_def split: prod.splits)
  have "nloaded d bs' \<le> nloaded d bs"
    by (simp add: nloaded_def bs'(1) al_del_def filter_filter) (metis (no_types, lifting) length_filter_le filter_filter filter_cong)
  moreover have "tree_get d k bs' = (if k = key then None else tree_get d k bs)" for k
    by (simp add: tree_get_def bs'(1))
  then have "tracks d bs bs'" unfolding tracks_def
    by (intro exI [of _ l]) (use Some bs' in \<open>auto split: option.splits\<close>)
  ultimately show ?thesis by (simp add: step_ok_def) (simp add: bs'(1))
qed

lemma clear_loop_step: "clear_loop d keys bs w = (e, bs', w') \<Longrightarrow> step_ok d bs bs'"
proof (induction keys arbitrary: bs w)
  case (Cons key keys)
  obtain e1 bs1 w1 where 1: "buckets_delete d key bs w = (e1, bs1, w1)" by (metis prod_cases3)
  then show ?case using Cons delete_step [OF 1] by (cases e1) (auto intro: step_ok_trans)
qed simp

lemma fetch_step:
  assumes "iter_fetch d mode key buck bs w = (r, bs1, w1)" "tree_get d key bs = Some buck"
  shows "step_ok d bs bs1 \<and> (\<forall>b. r = Some (Inr b) \<longrightarrow> tree_get d key bs1 = Some b)"
  using assms forKey_step [of key bs w]
  by (auto simp: iter_fetch_def split: option.splits iterMode.splits prod.splits sum.splits)

lemma iter_step:
  assumes "\<And>key buck s bs w r s' bs' w'. tree_get d key bs = Some buck \<Longrightarrow> fn key buck s bs w = (r, s', bs', w') \<Longrightarrow> step_ok d bs bs'"
  shows "iter_loop d mode fn keys s bs w = (r, s', bs', w') \<Longrightarrow> step_ok d bs bs'"
proof (induction keys arbitrary: s bs w)
  case (Cons key keys)
  show ?case
  proof (cases "tree_get d key bs")
    case None
    then show ?thesis using Cons by simp
  next
    case (Some buck)
    obtain r1 bs1 w1 where 1: "iter_fetch d mode key buck bs w = (r1, bs1, w1)" by (metis prod_cases3)
    note f = fetch_step [OF 1 Some]
    consider "r1 = None" | e where "r1 = Some (Inl e)" | b where "r1 = Some (Inr b)" by (metis old.sum.exhaust option.exhaust)
    then show ?thesis
    proof cases
      case 3
      obtain r2 s2 bs2 w2 where 2: "fn key b s bs1 w1 = (r2, s2, bs2, w2)" by (metis prod_cases4)
      then have "step_ok d bs bs2" using f 3 assms [of key bs1 b] step_ok_trans by blast
      moreover have "step_ok d bs2 bs'"
        using Cons 1 2 3 Some by (auto split: go.splits option.splits)
      ultimately show ?thesis by (rule step_ok_trans)
    qed (use Cons 1 Some f in \<open>auto intro: step_ok_trans\<close>)
  qed
qed simp

lemma pushSorted_step: "pushSorted d items bs w = (e, bs', w') \<Longrightarrow> step_ok d bs bs'"
proof (induction items arbitrary: bs w rule: measure_induct_rule [where f = length])
  case (less items)
  show ?case
  proof (cases items)
    case Nil
    then show ?thesis using less.prems by (simp add: pushSorted.simps)
  next
    case (Cons it0 rest)
    define key where "key = split_fn (bs_opts bs) (item_Key it0)"
    define n where "n = binsplit items key (split_fn (bs_opts bs))"
    have n: "length (drop n items) < length items" using binsplit_pos [of items] Cons by (simp add: n_def)
    obtain r1 bs1 w1 where 1: "forKey d key bs w = (r1, bs1, w1)" by (metis prod_cases3)
    note f = forKey_step [OF 1]
    show ?thesis
    proof (cases r1)
      case (Inl e1)
      then have "step_ok d bs1 bs'"
        using less.prems less.IH [OF n] 1 Cons
        by (auto simp: pushSorted.simps [of d "it0 # rest"] Let_def key_def n_def split: if_splits)
      then show ?thesis using f step_ok_trans by blast
    next
      case (Inr b)
      obtain e2 b2 w2 where 2: "bucket_Push (d_index d) (d_page d) (take n items) True '''' b w1 = (e2, b2, w2)"
        by (metis prod_cases3)
      then have "step_ok d (put_bucket d key b2 bs1) bs'"
        using less.prems less.IH [OF n] 1 Cons Inr
        by (auto simp: pushSorted.simps [of d "it0 # rest"] Let_def key_def n_def split: if_splits)
      moreover have "step_ok d bs1 (put_bucket d key b2 bs1)" using f Inr put_bucket_step by blast
      ultimately show ?thesis using f step_ok_trans by blast
    qed
  qed
qed

lemma Push_step: "buckets_Push d items bs w = (e, bs', w') \<Longrightarrow> step_ok d bs bs'"
  by (auto simp: buckets_Push_def pushSorted_step split: if_splits)

lemma run_tx_step: "run_tx d t bs w = (r, bs', w') \<Longrightarrow> step_ok d bs bs'"
proof (induction t arbitrary: bs w)
  case (TxPush items k)
  obtain e bs1 w1 where 1: "buckets_Push d items bs w = (e, bs1, w1)" by (metis prod_cases3)
  then show ?case using TxPush.IH [of "k e" bs1 w1] TxPush.prems Push_step [OF 1]
    by (auto intro: step_ok_trans)
qed simp_all

lemma read_pop_step:
  assumes "read_pop d key fork iters (closed, b) bs w = (r, b', bs', w')"
    "\<not> closed \<Longrightarrow> tree_get d key bs = Some (Some b)"
  shows "step_ok d bs bs'"
  using assms put_bucket_step [of key bs b]
  by (auto simp: read_pop_def Let_def split: option.splits if_splits sum.splits prod.splits)

lemma Read_tx_step:
  assumes "bucket_Read_tx d key n fork fn x b bs w = (r, x', b', bs', w')" "tree_get d key bs = Some (Some b)"
  shows "step_ok d bs bs'"
proof -
  obtain idx where nontriv: "step_ok d bs bs' \<or> (0 < n \<and> idxForFork b fork = Inr idx)"
    using assms(1) by (auto simp: bucket_Read_tx_def split: if_splits sum.splits)
  obtain it items c e where p: "bucket_peek (d_index d) b n [] (bi_Mem idx) = (it, items, c, e)" by (metis prod_cases4)
  obtain r1 bs1 w1 where 1: "run_tx d (fn x items) bs w = (r1, bs1, w1)" by (metis prod_cases3)
  obtain closed b1 where pb: "deref d key (length (bs_closed bs)) b bs1 = (closed, b1)" by (metis surj_pair)
  have st: "step_ok d bs bs1" by (rule run_tx_step [OF 1])
  then have open1: "\<not> closed \<Longrightarrow> tree_get d key bs1 = Some (Some b1)"
    using deref_tracks [of d bs bs1 key b b b1] assms(2) pb by (auto simp: step_ok_def)
  obtain r2 b2 bs2 w2 where 2: "read_pop d key fork it (closed, b1) bs1 w1 = (r2, b2, bs2, w2)" by (metis prod_cases4)
  have "step_ok d bs bs2" using read_pop_step [OF 2 open1] st step_ok_trans by blast
  then show ?thesis using nontriv assms(1) st p 1 pb 2
    by (auto simp: bucket_Read_tx_def Let_def split: option.splits go.splits prod.splits if_splits)
qed

end

section \<open>Every operation is a step\<close>

context buckets_tree
begin

lemma read_bucket_step:
  assumes "read_bucket d fork fn key buck s bs w = (r, s', bs', w')" "tree_get d key bs = Some buck"
  shows "step_ok d bs bs'"
proof (cases buck)
  case None
  then show ?thesis using assms(1) by (simp add: read_bucket_def)
next
  case (Some b)
  obtain n x where s: "s = (n, x)" by (cases s)
  obtain r1 x1 b1 bs1 w1 where 1: "bucket_Read_tx d key n fork fn x b bs w = (r1, x1, b1, bs1, w1)"
    by (metis prod_cases5)
  have st: "step_ok d bs bs1" using Read_tx_step [OF 1] assms(2) Some by simp
  obtain e2 bs2 w2 where 2: "buckets_delete d key bs1 w1 = (e2, bs2, w2)" by (metis prod_cases3)
  have "step_ok d bs bs2" using delete_step [OF 2] st step_ok_trans by blast
  then show ?thesis using assms(1) Some s 1 2 st
    by (auto simp: read_bucket_def Let_def split: go.splits option.splits if_splits)
qed

lemma Read_step: "buckets_Read d n fork fn x bs w = (r, x', bs', w') \<Longrightarrow> step_ok d bs bs'"
  using iter_step [of "read_bucket d fork fn"] read_bucket_step
  by (fastforce simp: buckets_Read_def buckets_iter_def Let_def split: prod.splits)

lemma delete_range_step:
  "delete_range d fork lo hi toBuckKey keys n del bs w = (r, bs', w') \<Longrightarrow> step_ok d bs bs'"
proof (induction keys arbitrary: n del bs w)
  case (Cons key keys)
  obtain r1 bs1 w1 where 1: "forKey d key bs w = (r1, bs1, w1)" by (metis prod_cases3)
  note f = forKey_step [OF 1]
  show ?case
  proof (cases r1)
    case (Inl e)
    then have "step_ok d bs bs' \<or> step_ok d bs1 bs'" using Cons 1 by (auto split: if_splits)
    then show ?thesis using f step_ok_trans by blast
  next
    case (Inr b)
    obtain m e2 b2 w2 where 2: "bucket_Delete (d_index d) fork lo hi b w1 = ((m, e2), b2, w2)" by (metis prod_cases3 surj_pair)
    have "step_ok d bs (put_bucket d key b2 bs1)" using f Inr put_bucket_step step_ok_trans by blast
    moreover have "step_ok d bs bs' \<or> step_ok d (put_bucket d key b2 bs1) bs'"
      using Cons 1 2 Inr by (auto simp: Let_def split: if_splits option.splits)
    ultimately show ?thesis using step_ok_trans by blast
  qed
qed simp

lemma Delete_step:
  assumes "buckets_Delete d fork lo hi bs w = (r, bs', w')"
  shows "step_ok d bs bs'"
proof -
  let ?keys = "dropWhile (\<lambda>k. k < split_fn (bs_opts bs) lo) (tree_keys d bs)"
  obtain n e del bs1 w1 where 1: "delete_range d fork lo hi (split_fn (bs_opts bs) hi) ?keys 0 [] bs w = ((n, e, del), bs1, w1)"
    by (metis prod_cases3)
  obtain e2 bs2 w2 where 2: "clear_loop d del bs1 w1 = (e2, bs2, w2)" by (metis prod_cases3)
  have "step_ok d bs bs2" using delete_range_step [OF 1] clear_loop_step [OF 2] step_ok_trans by blast
  then show ?thesis using assms delete_range_step [OF 1] 1 2
    by (auto simp: buckets_Delete_def Let_def split: if_splits option.splits)
qed

lemma Clear_step: "buckets_clear d bs w = (e, bs', w') \<Longrightarrow> step_ok d bs bs'"
  by (simp add: buckets_clear_def clear_loop_step)

lemma Sync_step: "buckets_Sync d bs w = (e, bs', w') \<Longrightarrow> step_ok d bs bs'"
  by (auto simp: buckets_Sync_def buckets_iter_def split: prod.splits elim!: iter_step [rotated])
    (auto split: option.splits prod.splits)

lemma Close_step: "buckets_Close d bs w = (r, bs', w') \<Longrightarrow> step_ok d bs bs'"
  by (auto simp: buckets_Close_def buckets_iter_def split: prod.splits elim!: iter_step [rotated])
    (auto split: option.splits prod.splits)

lemma step_ok_forks: "step_ok d bs bs' \<Longrightarrow> step_ok d (bs\<lparr>bs_forks := f\<rparr>) bs' \<and> step_ok d bs (bs'\<lparr>bs_forks := f\<rparr>)"
  by (simp add: step_ok_def tracks_def nloaded_def tree_get_def)

lemma Fork_step:
  assumes "buckets_Fork d src dst bs w = (r, bs', w')"
  shows "step_ok d bs bs'"
proof -
  let ?fn = "\<lambda>key buck s bs w.
     case buck of
       Some b \<Rightarrow> (case bucket_Fork (d_index d) src dst b w of (e, b, w) \<Rightarrow> (Ret e, s, put_bucket d key b bs, w))
     | None \<Rightarrow> (case forkOffline (d_Copy d) (buckPath bs key) src dst w of (e, w) \<Rightarrow> (Ret e, s, bs, w))"
  obtain r1 u bs1 w1 where 1: "iter_loop d includeNil ?fn (tree_keys d bs) () bs w = (r1, u, bs1, w1)"
    by (cases "iter_loop d includeNil ?fn (tree_keys d bs) () bs w") auto
  have "step_ok d bs bs1"
    by (rule iter_step [OF _ 1]) (auto split: option.splits prod.splits intro: put_bucket_step)
  then show ?thesis using assms 1 step_ok_forks [of bs bs1 "bs_forks bs1 @ [dst]"]
    by (auto simp: buckets_Fork_def buckets_iter_def split: option.splits if_splits go.splits)
qed

lemma RemoveFork_fn_step:
  assumes "tree_get d key bs = Some buck"
    "(case buck of
        Some b \<Rightarrow>
          (case bucket_RemoveFork fork b w of
             (e, b, w) \<Rightarrow>
               let bs = put_bucket d key b bs in
               (case e of
                  Some e \<Rightarrow> (Ret (Some e), s, bs, w)
                | None \<Rightarrow>
                    if \<not> bucket_AllEmpty b then (Ret None, s, bs, w)
                    else case buckets_delete d key bs w of (e, bs, w) \<Rightarrow> (Ret e, s, bs, w)))
      | None \<Rightarrow>
          (case removeForkOffline (buckPath bs key) fork w of (e, w) \<Rightarrow> (Ret e, s, bs, w))) = (r, s', bs', w')"
  shows "step_ok d bs bs'"
proof (cases buck)
  case None
  then show ?thesis using assms by (auto split: prod.splits)
next
  case (Some b)
  obtain e1 b1 w1 where 1: "bucket_RemoveFork fork b w = (e1, b1, w1)" by (metis prod_cases3)
  have st: "step_ok d bs (put_bucket d key b1 bs)" using assms(1) Some put_bucket_step by simp
  obtain e2 bs2 w2 where 2: "buckets_delete d key (put_bucket d key b1 bs) w1 = (e2, bs2, w2)" by (metis prod_cases3)
  have "step_ok d bs bs2" using delete_step [OF 2] st step_ok_trans by blast
  then show ?thesis using assms(2) Some 1 2 st by (auto simp: Let_def split: option.splits if_splits)
qed

lemma RemoveFork_step:
  assumes "buckets_RemoveFork d fork bs w = (r, bs', w')"
  shows "step_ok d bs bs'"
proof (cases "ForkName_Validate d fork")
  case None
  then have "step_ok d (bs\<lparr>bs_forks := filter (\<lambda>candidate. fork \<noteq> candidate) (bs_forks bs)\<rparr>) bs'"
    using assms unfolding buckets_RemoveFork_def buckets_iter_def
    by (auto split: prod.splits elim!: iter_step [rotated] intro: RemoveFork_fn_step)
  then show ?thesis using step_ok_forks [of _ bs' "bs_forks bs"] by fastforce
qed (use assms in \<open>simp add: buckets_RemoveFork_def\<close>)

text \<open>Both sides of a \<^verbatim>\<open>Shovel\<close> take a step.\<close>

lemma put_trailers_step: "step_ok d bs (put_trailers key calls bs)"
  by (simp add: step_ok_def tracks_def nloaded_def tree_get_def)

lemma shovel_move_step:
  assumes "shovel_move d xdev fork key n dst bs w = (e, (n', dst'), w')" "tree_get d key dst = None"
  shows "step_ok d dst dst'"
proof -
  have "nloaded d (tree_set d key None dst) = nloaded d dst" using nloaded_set [of key None dst] assms(2) by simp
  moreover have "tracks d dst (tree_set d key None dst)" unfolding tracks_def
    by (intro exI [of _ "[]"]) (use assms(2) in \<open>auto simp: tree_set_def [of d key None dst] tree_get_def\<close>)
  ultimately have "step_ok d dst (tree_set d key None dst)" by (simp add: step_ok_def) (simp add: tree_set_def)
  then show ?thesis using assms(1) put_trailers_step [of "tree_set d key None dst" key] step_ok_trans
    by (fastforce simp: shovel_move_def Let_def split: prod.splits option.splits)
qed

lemma shovel_bucket_step:
  assumes "shovel_bucket d xdev fork key buck (n, dst) bs w = (r, (n', dst'), bs', w')"
  shows "step_ok d bs bs' \<and> step_ok d dst dst'"
proof (cases "tree_get d key dst")
  case None
  then show ?thesis using assms shovel_move_step [of xdev fork key n dst bs w]
    by (auto simp: shovel_bucket_def split: prod.splits)
next
  case (Some v)
  obtain r1 bs1 w1 where 1: "forKey d key bs w = (r1, bs1, w1)" by (metis prod_cases3)
  obtain r2 dst2 w2 where 2: "forKey d key dst w1 = (r2, dst2, w2)" by (metis prod_cases3)
  note f = forKey_step [OF 1] forKey_step [OF 2]
  show ?thesis
  proof (cases "\<exists>a b. r1 = Inr a \<and> r2 = Inr b")
    case True
    then obtain a b where ab: "r1 = Inr a" "r2 = Inr b" by blast
    obtain r3 m a3 b3 w3 where 3: "shovel_read d fork a b n w2 = (r3, m, a3, b3, w3)" by (metis prod_cases5)
    have "step_ok d bs (put_bucket d key a3 bs1)" "step_ok d dst (put_bucket d key b3 dst2)"
      using f ab put_bucket_step step_ok_trans by blast+
    then show ?thesis using assms Some 1 2 3 ab by (auto simp: shovel_bucket_def)
  qed (use assms Some 1 2 f in \<open>auto simp: shovel_bucket_def split: sum.splits\<close>)
qed

lemma shovel_loop_step:
  "iter_loop d includeNil (shovel_bucket d xdev fork) keys (n, dst) bs w = (r, (n', dst'), bs', w') \<Longrightarrow>
     step_ok d bs bs' \<and> step_ok d dst dst'"
proof (induction keys arbitrary: n dst bs w)
  case (Cons key keys)
  show ?case
  proof (cases "tree_get d key bs")
    case None
    then show ?thesis using Cons by simp
  next
    case (Some buck)
    obtain r1 n1 dst1 bs1 w1 where 1: "shovel_bucket d xdev fork key buck (n, dst) bs w = (r1, (n1, dst1), bs1, w1)"
      by (metis prod_cases5 surj_pair)
    have "iter_fetch d includeNil key buck bs w = (Some (Inr buck), bs, w)"
      by (simp add: iter_fetch_def split: option.splits)
    then have "step_ok d bs1 bs' \<and> step_ok d dst1 dst'"
      using Cons 1 Some by (auto split: go.splits option.splits)
    then show ?thesis using shovel_bucket_step [OF 1] step_ok_trans by blast
  qed
qed simp

lemma Shovel_step:
  assumes "buckets_Shovel d xdev fork dst bs w = (r, dst', bs', w')"
  shows "step_ok d bs bs' \<and> step_ok d dst dst'"
proof -
  obtain r1 n1 dst1 bs1 w1 where 1: "iter_loop d includeNil (shovel_bucket d xdev fork) (tree_keys d bs) (0, dst) bs w =
      (r1, (n1, dst1), bs1, w1)" by (metis prod_cases5 surj_pair)
  obtain e2 bs2 w2 where 2: "buckets_clear d bs1 w1 = (e2, bs2, w2)" by (metis prod_cases3)
  show ?thesis using assms shovel_loop_step [OF 1] Clear_step [OF 2] 1 2 step_ok_trans
    by (auto simp: buckets_Shovel_def buckets_iter_def split: go.splits option.splits)
qed

end

section \<open>The state machine\<close>

text \<open>
  One step is one call of the interface on the queue or on one of its forks; a queue also changes as
  the destination of a \<^verbatim>\<open>Shovel\<close>. \<open>'x\<close> are the variables that callbacks capture.
\<close>

inductive queue_step :: "'x itself \<Rightarrow> ('m, 't) deps \<Rightarrow> ('m, 't) Queue \<times> world \<Rightarrow> ('m, 't) Queue \<times> world \<Rightarrow> bool"
  for T :: "'x itself" and d :: "('m, 't) deps" where
  Push: "Queue_Push d items q w = (e, q', w') \<Longrightarrow> queue_step T d (q, w) (q', w')"
| Read: "Consumer_Read d c n fn (x :: 'x) q w = (r, x', q', w') \<Longrightarrow> queue_step T d (q, w) (q', w')"
| Delete: "Queue_Delete d from to q w = (r, q', w') \<Longrightarrow> queue_step T d (q, w) (q', w')"
| Sync: "Queue_Sync d q w = (e, q', w') \<Longrightarrow> queue_step T d (q, w) (q', w')"
| Clear: "Queue_Clear d q w = (e, q', w') \<Longrightarrow> queue_step T d (q, w) (q', w')"
| Shovel: "Queue_Shovel d xdev dst q w = (r, dst', q', w') \<Longrightarrow> queue_step T d (q, w) (q', w')"
| Shovel_dst: "Queue_Shovel d xdev q src w = (r, q', src', w') \<Longrightarrow> queue_step T d (q, w) (q', w')"
| Fork: "Queue_Fork d name q w = (r, q', w') \<Longrightarrow> queue_step T d (q, w) (q', w')"
| Close: "Queue_Close d q w = (r, q', w') \<Longrightarrow> queue_step T d (q, w) (q', w')"
| Fork_Delete: "Fork_Delete d f from to q w = (r', q', w') \<Longrightarrow> queue_step T d (q, w) (q', w')"
| Fork_Remove: "Fork_Remove d f q w = (r, f', q', w') \<Longrightarrow> queue_step T d (q, w) (q', w')"
| Fork_Shovel: "Fork_Shovel d xdev f dst q w = (r', dst', q', w') \<Longrightarrow> queue_step T d (q, w) (q', w')"
| Fork_Shovel_dst: "Fork_Shovel d xdev f q src w = (r', q', src', w') \<Longrightarrow> queue_step T d (q, w) (q', w')"
| Fork_Fork: "Fork_Fork d f name q w = (r', q', w') \<Longrightarrow> queue_step T d (q, w) (q', w')"
| Other: "queue_step T d (q, w) (q, w')"   \<comment> \<open>something else changed the files\<close>

lemmas api_defs = Queue_Push_def Consumer_Read_def Queue_Read_def Fork_Read_def Queue_Delete_def Fork_Delete_def
  Queue_Sync_def Queue_Clear_def buckets_Clear_def Queue_Shovel_def Fork_Shovel_def shovel_to_def Queue_Fork_def
  Fork_Fork_def fork_from_def Queue_Close_def Fork_Remove_def

context buckets_tree
begin

lemma queue_step_ok:
  assumes "queue_step T d (q, w) (q', w')"
  shows "step_ok d (q_buckets q) (q_buckets q')"
  using assms
  by (cases rule: queue_step.cases)
    (auto simp: api_defs split: prod.splits if_splits Consumer.splits
      dest: Push_step Read_step Delete_step Sync_step Clear_step Shovel_step Fork_step Close_step RemoveFork_step)

lemma queue_steps_ok:
  "(queue_step T d)\<^sup>*\<^sup>* (q, w) (q', w') \<Longrightarrow> step_ok d (q_buckets q) (q_buckets q')"
  by (induction rule: rtranclp_induct2) (auto intro: step_ok_trans queue_step_ok)

lemma load_entries_unloaded:
  "load_entries d dir opts names ld w = (Inr ld', w') \<Longrightarrow> n_loaded (bt_iter (d_tree d) (ld_tree ld)) = 0 \<Longrightarrow>
     n_loaded (bt_iter (d_tree d) (ld_tree ld')) = 0"
proof (induction names arbitrary: ld w)
  case (Cons name names)
  have "n_loaded (al_set key None (bt_iter (d_tree d) (ld_tree ld))) = 0" for key
    using n_loaded_al_set [OF tree.iter_sorted, of key None "ld_tree ld"] Cons.prems(2) by simp
  then show ?case using Cons
    by (auto simp: Let_def split: if_splits sum.splits prod.splits option.splits)
qed simp

lemma Open_loaded:
  assumes "Open d dir opts w = (Inr q, w')" "1 \<le> opt_MaxParallelOpenBuckets opts"
  shows "nloaded d (q_buckets q) \<le> max_open (q_buckets q) \<and> max_open (q_buckets q) = opt_MaxParallelOpenBuckets opts"
proof -
  obtain opts' where V: "Options_Validate opts = (None, opts')" "opt_MaxParallelOpenBuckets opts' = opt_MaxParallelOpenBuckets opts"
    using assms by (auto simp: Open_def Options_Validate_def Let_def split: prod.splits if_splits option.splits)
  obtain w1 where L: "loadAllBuckets d dir opts' w = (Inr (q_buckets q), w1)"
    using assms(1) V(1) by (auto simp: Open_def split: prod.splits sum.splits option.splits)
  obtain ld names w2 w3 where E: "load_entries d dir opts' names
      \<lparr>ld_expectedFiles = 0, ld_dirsHandled = 0, ld_tree = bt_empty (d_tree d), ld_trailers = []\<rparr> w2 = (Inr ld, w3)"
    and Fo: "\<exists>forks bs w4. fetchForks d \<lparr>bs_dir = dir, bs_tree = ld_tree ld, bs_trailers = ld_trailers ld, bs_opts = opts',
         bs_forks = [], bs_closed = []\<rparr> w3 = (Inr forks, bs, w4) \<and> q_buckets q = bs\<lparr>bs_forks := forks\<rparr>"
    using L by (auto simp: loadAllBuckets_def Let_def split: prod.splits sum.splits option.splits if_splits)
  define bs0 :: "('m, 't) buckets" where "bs0 = \<lparr>bs_dir = dir, bs_tree = ld_tree ld, bs_trailers = ld_trailers ld, bs_opts = opts',
         bs_forks = [], bs_closed = []\<rparr>"
  have "n_loaded (view bs0) = 0" using load_entries_unloaded [OF E] by (simp add: bs0_def)
  then have n0: "nloaded d bs0 = 0" by (simp add: nloaded_view)
  obtain forks bs w4 where bs: "fetchForks d bs0 w3 = (Inr forks, bs, w4)" "q_buckets q = bs\<lparr>bs_forks := forks\<rparr>"
    using Fo unfolding bs0_def by blast
  have "step_ok d bs0 bs"
    using bs(1) forKey_step by (fastforce simp: fetchForks_def split: option.splits list.splits prod.splits sum.splits)
  then have "nloaded d bs \<le> max_open bs0 \<and> bs_opts bs = opts'"
    using n0 assms(2) V(2) by (simp add: step_ok_def bs0_def)
  then show ?thesis using bs(2) V(2) by (simp add: bs0_def) (simp add: nloaded_def)
qed

end

text \<open>
  C20 (loaded buckets, invariant): from opening the queue on, in every state that calls of the
  interface can lead to, with callbacks that push and calls that fail, no more buckets are loaded
  than the option allows, and the option stays what it was.
\<close>

theorem loaded_limit_reachable:
  assumes "btree_map (d_tree d)" "Open d dir opts w0 = (Inr q, w)" "1 \<le> opt_MaxParallelOpenBuckets opts"
    "(queue_step TYPE('x) d)\<^sup>*\<^sup>* (q, w) (q', w')"
  shows "nloaded d (q_buckets q') \<le> opt_MaxParallelOpenBuckets opts \<and>
    opt_MaxParallelOpenBuckets (bs_opts (q_buckets q')) = opt_MaxParallelOpenBuckets opts"
proof -
  have t: "buckets_tree d" using assms(1) by (simp add: buckets_tree_def)
  show ?thesis
    using buckets_tree.Open_loaded [OF t assms(2,3)] buckets_tree.queue_steps_ok [OF t assms(4)] assms(3)
    by (simp add: step_ok_def)
qed

definition demo_world :: world where
  "demo_world = \<lparr>w_fs = [([], Dir)], w_faults = []\<rparr>"

lemma demo_Open: "\<exists>q w. Open demo_deps [''q''] DefaultOptions demo_world = (Inr q, w)"
  by (simp add: Open_def Options_Validate_def DefaultOptions_def DefaultBucketSplitConf_def SyncMode_IsValid_def
      SyncFull_def SyncData_def SyncIndex_def ErrorMode_IsValid_def ErrorModeAbort_def errorModeMax_def Let_def
      loadAllBuckets_def MkdirAll_def ancestors_def ReadDir_def children_def demo_world_def sys_def
      make_dir_def node_at_def put_node_def fetchForks_def last_bucket_def tree_keys_def demo_deps_def
      alist_btree_def ValidateBucketKeys_def OpenRead_def file_at_def splitConfFile_def)

theorem loaded_limit_reachable_witness:
  "\<exists>q w q' w'. Open demo_deps [''q''] DefaultOptions demo_world = (Inr q, w) \<and>
     Queue_Push demo_deps [\<lparr>item_Key = key_of_int 3, item_Blob = []\<rparr>] q w = (fst (Queue_Push demo_deps [\<lparr>item_Key = key_of_int 3, item_Blob = []\<rparr>] q w), q', w') \<and>
     nloaded demo_deps (q_buckets q') \<le> 4"
proof -
  obtain q w where o: "Open demo_deps [''q''] DefaultOptions demo_world = (Inr q, w)" using demo_Open by blast
  obtain e q' w' where p: "Queue_Push demo_deps [\<lparr>item_Key = key_of_int 3, item_Blob = []\<rparr>] q w = (e, q', w')"
    by (metis prod_cases3)
  have st: "(queue_step TYPE(unit) demo_deps)\<^sup>*\<^sup>* (q, w) (q', w')" using queue_step.Push [OF p] by blast
  have "1 \<le> opt_MaxParallelOpenBuckets DefaultOptions" by (simp add: DefaultOptions_def)
  then have "nloaded demo_deps (q_buckets q') \<le> opt_MaxParallelOpenBuckets DefaultOptions"
    using loaded_limit_reachable [OF demo.tree.btree_map_axioms o _ st] by blast
  then show ?thesis using o p by (auto simp: DefaultOptions_def)
qed

end
