(* ===== verification/Buckets_Items.thy ===== *)
theory Buckets_Items
  imports Queue_Steps Bucket_Open
begin

text \<open>
  The content of a collection. The abstract view of a fork is \<open>queue_items\<close>: the items of its buckets
  in the order of the bucket keys, from memory for a loaded bucket and from the files for one that is
  not loaded. The invariant \<open>buckets_ok\<close> says that every bucket is in order in memory or on disk,
  that its directory holds nothing else, and that its items belong to it; it is kept by pushing and
  popping although these close and open buckets on the way.
\<close>

section \<open>The abstract view\<close>

text \<open>What the files of a bucket directory hold for a fork\<close>

definition disk_items :: "('m, 't) deps \<Rightarrow> path \<Rightarrow> ForkName \<Rightarrow> world \<Rightarrow> Items" where
  "disk_items d dir fork w =
     (case vlog_Open (d_page d) (dir @ [dataLogName]) False w of
        (Inr log, w) \<Rightarrow>
          (case Index_Load (d_index d) (idxPath dir fork) w of
             (Ret (None, mem), _) \<Rightarrow> index_items (d_index d) log mem
           | _ \<Rightarrow> [])
      | _ \<Rightarrow> [])"

definition items_at :: "('m, 't) deps \<Rightarrow> ('m, 't) buckets \<Rightarrow> world \<Rightarrow> Key \<Rightarrow> ForkName \<Rightarrow> Items" where
  "items_at d bs w key fork =
     (case tree_get d key bs of
        None \<Rightarrow> []
      | Some (Some b) \<Rightarrow> fork_items (d_index d) b fork
      | Some None \<Rightarrow> disk_items d (buckPath bs key) fork w)"

definition queue_items :: "('m, 't) deps \<Rightarrow> ForkName \<Rightarrow> ('m, 't) buckets \<Rightarrow> world \<Rightarrow> Items" where
  "queue_items d fork bs w = concat (map (\<lambda>key. items_at d bs w key fork) (tree_keys d bs))"

section \<open>The invariant\<close>

definition fork_names :: "('m, 't) buckets \<Rightarrow> ForkName set" where
  "fork_names bs = insert '''' (set (bs_forks bs))"

text \<open>A bucket of the collection in order, with the files of its directory\<close>

definition held :: "('m, 't) deps \<Rightarrow> ('m, 't) buckets \<Rightarrow> world \<Rightarrow> Key \<Rightarrow> 'm bucket \<Rightarrow> Items \<Rightarrow> bool" where
  "held d bs w key b its \<longleftrightarrow>
     bucket_ok (d_index d) its b w \<and> log_mmap (b_log b) \<noteq> [] \<and> b_dir b = buckPath bs key \<and> b_key b = key \<and>
     fst ` set (b_indexes b) = fork_names bs \<and> node_at w (buckPath bs key) = Some Dir \<and>
     (\<forall>q. node_at w (buckPath bs key @ q) \<noteq> None \<longrightarrow> q = [] \<or> buckPath bs key @ q \<in> bucket_files b) \<and>
     (\<forall>fork. \<forall>it\<in>set (fork_items (d_index d) b fork). split_fn (bs_opts bs) (item_Key it) = key)"

text \<open>It is not empty, and each of its index logs had a batch, so that it can be opened again.\<close>

definition filed :: "('m, 't) deps \<Rightarrow> ('m, 't) buckets \<Rightarrow> world \<Rightarrow> Key \<Rightarrow> 'm bucket \<Rightarrow> bool" where
  "filed d bs w key b \<longleftrightarrow>
     \<not> bucket_AllEmpty b \<and>
     (\<forall>f\<in>fork_names bs. \<exists>rs. file_at w (idxPath (buckPath bs key) f) = Some (enc_recs rs) \<and>
        (\<forall>(loc, t) \<in> set rs. rec_ok loc) \<and> 0 < volume rs)"

fun entry_ok :: "('m, 't) deps \<Rightarrow> ('m, 't) buckets \<Rightarrow> world \<Rightarrow> Key \<Rightarrow> ('m bucket \<times> Items) option \<Rightarrow> 'm bucket option option \<Rightarrow> bool" where
  "entry_ok d bs w key None v \<longleftrightarrow> v = None \<and> (\<forall>q. node_at w (buckPath bs key @ q) = None)"
| "entry_ok d bs w key (Some (b, its)) v \<longleftrightarrow>
     (v = Some None \<or> v = Some (Some b)) \<and> held d bs w key b its \<and> filed d bs w key b"

text \<open>\<open>C\<close> gives each bucket and the items ever pushed to it; the keys in \<open>X\<close> are being worked on.\<close>

definition tracked :: "('m, 't) deps \<Rightarrow> ('m, 't) buckets \<Rightarrow> world \<Rightarrow> (Key \<rightharpoonup> 'm bucket \<times> Items) \<Rightarrow> Key set \<Rightarrow> bool" where
  "tracked d bs w C X \<longleftrightarrow>
     w_faults w = [] \<and> (\<forall>q\<in>set (ancestors (bs_dir bs)). node_at w q = Some Dir) \<and>
     (\<forall>key. key \<notin> X \<longrightarrow> entry_ok d bs w key (C key) (tree_get d key bs))"

definition buckets_ok :: "('m, 't) deps \<Rightarrow> ('m, 't) buckets \<Rightarrow> world \<Rightarrow> bool" where
  "buckets_ok d bs w \<longleftrightarrow> (\<exists>C. tracked d bs w C {})"

text \<open>The items of a bucket of \<open>C\<close>\<close>

definition c_items :: "('m, 't) deps \<Rightarrow> (Key \<rightharpoonup> 'm bucket \<times> Items) \<Rightarrow> Key \<Rightarrow> ForkName \<Rightarrow> Items" where
  "c_items d C key fork = (case C key of None \<Rightarrow> [] | Some (b, its) \<Rightarrow> fork_items (d_index d) b fork)"

section \<open>Frames\<close>

lemma held_conf:
  assumes "same_conf bs bs'"
  shows "held d bs' = held d bs" "filed d bs' = filed d bs" "buckPath bs' = buckPath bs" "fork_names bs' = fork_names bs"
    "split_fn (bs_opts bs') = split_fn (bs_opts bs)"
  using assms by (auto simp: same_conf_def held_def filed_def buckPath_def fork_names_def fun_eq_iff)

lemma entry_ok_conf: "same_conf bs bs' \<Longrightarrow> entry_ok d bs' w key c v = entry_ok d bs w key c v"
  by (cases c) (auto simp: held_conf)

lemma bucket_ok_frame:
  assumes "bucket_ok bt its b w" "w_faults w' = []" "\<And>q. q \<in> bucket_files b \<Longrightarrow> node_at w' q = node_at w q"
  shows "bucket_ok bt its b w'"
proof -
  note k = bucket_okD [OF assms(1)]
  have "log_on_disk (b_log b) w'" using k(3,4) assms(3) by (simp add: log_on_disk_def file_at_def bucket_files_def)
  moreover have "fork_ok bt b w' f idx" if "(f, idx) \<in> set (b_indexes b)" for f idx
  proof -
    have fk: "fork_ok bt b w f idx" using assms(1) that by (auto simp: bucket_ok_def)
    moreover have "node_at w' (wr_path (bi_Log idx)) = node_at w (wr_path (bi_Log idx))"
      using fk that by (intro assms(3)) (force simp: fork_ok_def bucket_files_def)
    ultimately show ?thesis using wal_ok_frame unfolding fork_ok_def by blast
  qed
  ultimately show ?thesis using assms(1,2) by (auto simp: bucket_ok_def)
qed

text \<open>Nothing below the directory of the bucket changed.\<close>

lemma below_files: "b_dir b = dir \<Longrightarrow> q \<in> bucket_files b \<Longrightarrow> \<exists>r. q = dir @ r"
  by (auto simp: bucket_files_def idxPath_def Let_def)

lemma held_frame:
  assumes "held d bs w key b its" "w_faults w' = []"
    "\<And>q. node_at w' (buckPath bs key @ q) = node_at w (buckPath bs key @ q)"
  shows "held d bs w' key b its"
proof -
  have h: "bucket_ok (d_index d) its b w" "b_dir b = buckPath bs key" using assms(1) by (auto simp: held_def)
  have "bucket_ok (d_index d) its b w'"
    by (rule bucket_ok_frame [OF h(1) assms(2)]) (use below_files [OF h(2)] assms(3) in auto)
  then show ?thesis using assms(1,3) assms(3) [of "[]"] by (simp add: held_def)
qed

lemma filed_frame:
  assumes "filed d bs w key b" "\<And>q. node_at w' (buckPath bs key @ q) = node_at w (buckPath bs key @ q)"
  shows "filed d bs w' key b"
proof -
  have "file_at w' (idxPath (buckPath bs key) f) = file_at w (idxPath (buckPath bs key) f)" for f
    using assms(2) by (auto simp: file_at_def idxPath_def Let_def)
  then show ?thesis using assms(1) by (simp add: filed_def)
qed

lemma entry_ok_frame:
  assumes "entry_ok d bs w key c v" "w_faults w' = []"
    "\<And>q. node_at w' (buckPath bs key @ q) = node_at w (buckPath bs key @ q)"
  shows "entry_ok d bs w' key c v"
proof (cases c)
  case None
  then show ?thesis using assms by simp
next
  case (Some p)
  then show ?thesis using assms held_frame [OF _ assms(2,3)] filed_frame [OF _ assms(3)] by (cases p) auto
qed

lemma buckPath_other: "k \<noteq> key \<Longrightarrow> buckPath bs k @ q \<noteq> buckPath bs key @ r"
  by (simp add: buckPath_def)

lemma buckPath_ancestors: "q \<in> set (ancestors (bs_dir bs)) \<Longrightarrow> q \<noteq> buckPath bs key @ r"
  by (auto simp: ancestors_def buckPath_def dest!: arg_cong [of _ _ length])

text \<open>The world changed only below the directory of one bucket.\<close>

definition only_at :: "path \<Rightarrow> world \<Rightarrow> world \<Rightarrow> bool" where
  "only_at dir w w' \<longleftrightarrow> w_faults w' = [] \<and> (\<forall>q. (\<forall>r. q \<noteq> dir @ r) \<longrightarrow> node_at w' q = node_at w q)"

lemma only_at_trans: "only_at dir w w1 \<Longrightarrow> only_at dir w1 w' \<Longrightarrow> only_at dir w w'"
  by (simp add: only_at_def)

lemma tracked_frame:
  assumes "tracked d bs w C X" "only_at (buckPath bs key) w w'" "key \<in> X"
  shows "tracked d bs w' C X"
  unfolding tracked_def
proof (intro conjI allI impI ballI)
  show "w_faults w' = []" using assms(2) by (simp add: only_at_def)
  show "node_at w' q = Some Dir" if "q \<in> set (ancestors (bs_dir bs))" for q
    using assms(1,2) that buckPath_ancestors [OF that, of key] by (simp add: tracked_def only_at_def)
  fix k
  assume "k \<notin> X"
  then have k: "k \<noteq> key" "entry_ok d bs w k (C k) (tree_get d k bs)" using assms(1,3) by (auto simp: tracked_def)
  have "node_at w' (buckPath bs k @ q) = node_at w (buckPath bs k @ q)" for q
    using assms(2) buckPath_other [OF k(1)] unfolding only_at_def by blast
  then show "entry_ok d bs w' k (C k) (tree_get d k bs)"
    using assms(2) by (intro entry_ok_frame [OF k(2)]) (simp_all add: only_at_def)
qed

section \<open>Opening and closing\<close>

text \<open>The index logs of a bucket are shorter than 32 GiB: the entry counter does not overflow.\<close>

definition small :: "('m, 't) buckets \<Rightarrow> world \<Rightarrow> Key \<Rightarrow> bool" where
  "small bs w key \<longleftrightarrow> (\<forall>f\<in>fork_names bs. length (contents w (idxPath (buckPath bs key) f)) < 2 ^ 35)"

lemma length_enc_recs: "length (enc_recs rs) = 24 * length rs"
  by (induction rs) (auto simp: length_enc_loc)

lemma volume_bound:
  assumes "\<forall>(loc, t) \<in> set rs. rec_ok loc" "length (enc_recs rs) < 2 ^ 35"
  shows "volume rs < 2 ^ 63"
proof -
  have "volume rs \<le> length rs * 2 ^ 32"
    using assms(1) by (induction rs) (auto simp: volume_def rec_ok_def)
  also have "\<dots> \<le> 2 ^ 31 * 2 ^ 32" using assms(2) by (intro mult_right_mono) (simp_all add: length_enc_recs)
  finally have le: "volume rs \<le> 2 ^ 63" by simp
  have "length rs < 2 ^ 31" using assms(2) by (simp add: length_enc_recs)
  then have "length rs * 2 ^ 32 < 2 ^ 31 * (2 ^ 32 :: nat)" by (rule mult_strict_right_mono) simp
  then show ?thesis using \<open>volume rs \<le> length rs * 2 ^ 32\<close> by simp
qed

lemma held_live:
  assumes "held d bs w key b its" "filed d bs w key b" "small bs w key" "(f, idx) \<in> set (b_indexes b)"
  shows "live_log w idx"
proof -
  have "fst ` set (b_indexes b) = fork_names bs" using assms(1) by (simp add: held_def)
  then have f: "f \<in> fork_names bs" using assms(4) by force
  have p: "wr_path (bi_Log idx) = idxPath (buckPath bs key) f"
    using assms(1,4) by (auto simp: held_def bucket_ok_def fork_ok_def)
  obtain rs where rs: "file_at w (idxPath (buckPath bs key) f) = Some (enc_recs rs)"
    "\<forall>(loc, t) \<in> set rs. rec_ok loc" "0 < volume rs"
    using assms(2) f by (auto simp: filed_def)
  have "length (enc_recs rs) < 2 ^ 35" using assms(3) f rs(1) by (auto simp: small_def contents_def)
  then show ?thesis unfolding live_log_def p using rs volume_bound by blast
qed

lemma ancestors_snoc: "ancestors (dir @ [name]) = ancestors dir @ [dir @ [name]]"
  by (simp add: ancestors_def)

lemma close_logs_ok: "w_faults w = [] \<Longrightarrow> close_logs es None w = (None, w)"
  by (induction es) (auto simp: Writer_Close_def join_err_def)

lemma bucket_Close_ok: "w_faults w = [] \<Longrightarrow> bucket_Close b w = (None, w)"
  by (simp add: bucket_Close_def Log_Close_def join_err_def close_logs_ok)

lemma bucket_files_cong: "b_dir b = b_dir b' \<Longrightarrow> fst ` set (b_indexes b) = fst ` set (b_indexes b') \<Longrightarrow> bucket_files b = bucket_files b'"
  by (simp add: bucket_files_def)

context queue_deps
begin

lemma close_loop_ok:
  "w_faults w = [] \<Longrightarrow> \<exists>bs'. close_loop d N p idxs c None bs w = (None, bs', w)"
proof (induction idxs arbitrary: c bs)
  case (Cons idx idxs)
  then show ?case
    by (auto simp: Let_def close_one_def bucket_Close_ok join_err_def split: option.splits)
qed simp

lemma closeUnused_ok:
  assumes "w_faults w = []"
  obtains bs' where "closeUnused d m bs w = (None, bs', w)" "closes d bs bs'"
proof -
  have "\<exists>bs'. closeUnused d m bs w = (None, bs', w)"
    using close_loop_ok [OF assms] by (auto simp: closeUnused_def Let_def)
  then show ?thesis using that closeUnused_closes by blast
qed

lemma closes_tracked:
  assumes "closes d bs bs'" "tracked d bs w C X"
  shows "tracked d bs' w C X"
  using assms
proof (induction rule: closes.induct)
  case (step bs bs1 key b)
  note t = step.IH [OF step.prems]
  have conf: "same_conf bs1 (closed_bucket d key b bs1)" by (rule closed_conf)
  have "entry_ok d bs1 w k (C k) (tree_get d k (closed_bucket d key b bs1))" if "k \<notin> X" for k
  proof -
    have "entry_ok d bs1 w k (C k) (tree_get d k bs1)" using t that by (simp add: tracked_def)
    then show ?thesis using step.hyps(2) by (cases "C k") (auto simp: closed_get)
  qed
  then show ?case using t entry_ok_conf [OF conf] conf by (simp add: tracked_def same_conf_def)
qed

lemma tracked_set:
  assumes "tracked d bs w C X" "key \<in> X"
  shows "tracked d (tree_set d key v bs) w C X"
proof -
  have "same_conf bs (tree_set d key v bs)" by (simp add: same_conf_def tree_set_def)
  note e = entry_ok_conf [OF this]
  have "bs_dir (tree_set d key v bs) = bs_dir bs" by (simp add: tree_set_def)
  then show ?thesis using assms unfolding tracked_def e by (metis tree_get_set)
qed

lemma held_again:
  assumes "held d bs w key b its" "filed d bs w key b" "small bs w key"
    "\<forall>q\<in>set (ancestors (bs_dir bs)). node_at w q = Some Dir"
  obtains b' where "openBucket (d_index d) (d_page d) (buckPath bs key) (bs_forks bs) opts w = (Some (Inr b'), w)"
    "held d bs w key b' its" "filed d bs w key b'" "\<And>f. fork_items (d_index d) b' f = fork_items (d_index d) b f"
proof -
  have h: "bucket_ok (d_index d) its b w" "log_mmap (b_log b) \<noteq> []" "b_dir b = buckPath bs key" "b_key b = key"
    "fst ` set (b_indexes b) = fork_names bs" "node_at w (buckPath bs key) = Some Dir"
    using assms(1) by (auto simp: held_def)
  have live: "\<forall>(f, idx) \<in> set (b_indexes b). live_log w idx" using held_live [OF assms(1-3)] by blast
  have ne: "\<not> bucket_AllEmpty b" using assms(2) by (simp add: filed_def)
  have names: "set (bs_forks bs) \<union> {''''} = fst ` set (b_indexes b)" using h(5) by (auto simp: fork_names_def)
  have nm: "KeyFromString (last (b_dir b)) = Inr (b_key b)" using h(3,4) Key_String_parses by (simp add: buckPath_def)
  have anc: "\<forall>q\<in>set (ancestors (b_dir b)). node_at w q = Some Dir"
    using h(3,6) assms(4) by (auto simp: buckPath_def ancestors_snoc)
  obtain b' where b': "openBucket (d_index d) (d_page d) (b_dir b) (bs_forks bs) opts w = (Some (Inr b'), w)"
    "bucket_ok (d_index d) its b' w" "b_key b' = b_key b" "\<forall>f. fork_items (d_index d) b' f = fork_items (d_index d) b f"
    "fst ` set (b_indexes b') = fst ` set (b_indexes b)" "b_dir b' = b_dir b" "log_mmap (b_log b') = log_mmap (b_log b)"
    "\<not> bucket_AllEmpty b'"
    using idx.openBucket_again [OF h(1,2) live ne names nm anc] by blast
  have "bucket_files b' = bucket_files b" using b'(5,6) by (intro bucket_files_cong) simp_all
  then have "held d bs w key b' its" using assms(1) b' by (simp add: held_def)
  moreover have "filed d bs w key b'" using assms(2) b'(8) by (simp add: filed_def)
  ultimately show ?thesis using that b'(1,4) h(3) by simp
qed

text \<open>What \<^verbatim>\<open>forKey\<close> returns is the bucket of the key, with the items it had; all others are kept.\<close>

lemma forKey_ok:
  assumes t: "tracked d bs w C {}" and sm: "small bs w key" and pg: "0 < d_page d" "128 * d_page d < 2 ^ 62"
  obtains b its bs' w' where "forKey d key bs w = (Inr b, bs', w')" "same_conf bs bs'" "tracked d bs' w' C {key}"
    "tree_get d key bs' = Some (Some b)" "held d bs' w' key b its"
    "\<And>f. fork_items (d_index d) b f = c_items d C key f" "C key \<noteq> None \<Longrightarrow> filed d bs' w' key b"
    "only_at (buckPath bs key) w w'" "log_size (b_log b) \<le> int (length (contents w (buckPath bs key @ [dataLogName])))"
    "C key \<noteq> None \<Longrightarrow> w' = w"
proof -
  have nf: "w_faults w = []" and anc: "\<forall>q\<in>set (ancestors (bs_dir bs)). node_at w q = Some Dir"
    and e: "\<And>k. entry_ok d bs w k (C k) (tree_get d k bs)" using t by (auto simp: tracked_def)
  have o: "only_at p w w" for p using nf by (simp add: only_at_def)
  have tX: "tracked d bs w C {key}" using t by (simp add: tracked_def)
  have size: "log_size (b_log b) \<le> int (length (contents w (buckPath bs key @ [dataLogName])))" if "held d bs w key b its" for b its
  proof -
    have "log_rep (b_log b) its" "file_at w (buckPath bs key @ [dataLogName]) = Some (log_mmap (b_log b))"
      using that by (auto simp: held_def bucket_ok_def log_on_disk_def)
    then show ?thesis by (simp add: contents_def log_rep_def wf_log_def)
  qed
  consider (loaded) b its where "C key = Some (b, its)" "tree_get d key bs = Some (Some b)"
    | (unloaded) b its where "C key = Some (b, its)" "tree_get d key bs = Some None"
    | (absent) "C key = None" "tree_get d key bs = None"
    using e [of key] by (cases "C key") auto
  then show ?thesis
  proof cases
    case loaded
    then have "held d bs w key b its" "filed d bs w key b" using e [of key] by auto
    then show ?thesis using that [of b bs w its] loaded tX o size by (simp add: forKey_def c_items_def)
  next
    case unloaded
    have h: "held d bs w key b its" "filed d bs w key b" using e [of key] unloaded by auto
    obtain bs1 where bs1: "closeUnused d (max_open bs - 1) bs w = (None, bs1, w)" "closes d bs bs1"
      by (rule closeUnused_ok [OF nf])
    have conf: "same_conf bs bs1" using closes_conf [OF bs1(2)] by blast
    obtain b' where b': "openBucket (d_index d) (d_page d) (buckPath bs key) (bs_forks bs) (bs_opts bs) w = (Some (Inr b'), w)"
      "held d bs w key b' its" "filed d bs w key b'" "\<And>f. fork_items (d_index d) b' f = fork_items (d_index d) b f"
      using held_again [OF h sm anc] by metis
    define bs2 where "bs2 = tree_set d key (Some b') bs1"
    have conf2: "same_conf bs bs2" using conf by (simp add: bs2_def same_conf_def tree_set_def)
    have "forKey d key bs w = (Inr b', bs2, w)"
      using unloaded(2) bs1(1) b'(1) conf held_conf(3) [OF conf] by (simp add: forKey_def bs2_def same_conf_def)
    moreover have "tracked d bs2 w C {key}"
      unfolding bs2_def by (intro tracked_set closes_tracked [OF bs1(2) tX]) simp
    ultimately show ?thesis using that [of b' bs2 w its] conf2 b' o size [OF b'(2)] unloaded
      by (simp add: c_items_def held_conf [OF conf2]) (simp add: bs2_def)
  next
    case absent
    have none: "node_at w (bs_dir bs @ Key_String key # q) = None" for q
      using e [of key] absent by (simp add: buckPath_def)
    obtain bs1 where bs1: "closeUnused d (max_open bs - 1) bs w = (None, bs1, w)" "closes d bs bs1"
      by (rule closeUnused_ok [OF nf])
    have conf: "same_conf bs bs1" using closes_conf [OF bs1(2)] by blast
    obtain b w' where b: "openBucket (d_index d) (d_page d) (buckPath bs key) (bs_forks bs) (bs_opts bs) w = (Some (Inr b), w')"
      "bucket_ok (d_index d) [] b w'" "b_key b = key" "b_dir b = buckPath bs key"
      "fst ` set (b_indexes b) = set (bs_forks bs) \<union> {''''}" "\<forall>f. fork_items (d_index d) b f = []" "log_mmap (b_log b) \<noteq> []"
      "node_at w' (buckPath bs key) = Some Dir"
      "\<forall>q. q \<notin> insert (buckPath bs key) (bucket_files b) \<longrightarrow> node_at w' q = node_at w q"
      using idx.openBucket_fresh [OF nf anc none Key_String_parses pg] unfolding buckPath_def by blast
    define bs2 where "bs2 = tree_set d key (Some b) bs1"
    have conf2: "same_conf bs bs2" using conf by (simp add: bs2_def same_conf_def tree_set_def)
    have oa: "only_at (buckPath bs key) w w'"
      unfolding only_at_def using b(9) below_files [OF b(4)] bucket_okD(1) [OF b(2)] by (metis append_Nil2 insertE)
    have "held d bs w' key b []"
      unfolding held_def using b none by (auto simp: fork_names_def buckPath_def)
    moreover have "log_size (b_log b) = 0" using log_rep_size [of "b_log b" "[]"] b(2) by (simp add: bucket_ok_def)
    moreover have "forKey d key bs w = (Inr b, bs2, w')"
      using absent(2) bs1(1) b(1) conf held_conf(3) [OF conf] by (simp add: forKey_def bs2_def same_conf_def)
    moreover have "tracked d bs2 w' C {key}"
    proof -
      have "tracked d bs1 w C {key}" by (rule closes_tracked [OF bs1(2) tX])
      moreover have "only_at (buckPath bs1 key) w w'" using oa held_conf(3) [OF conf] by simp
      ultimately have "tracked d bs1 w' C {key}" by (rule tracked_frame) simp
      then show ?thesis unfolding bs2_def by (rule tracked_set) simp
    qed
    ultimately show ?thesis using that [of b bs2 w' "[]"] conf2 b oa absent
      by (simp add: c_items_def held_conf [OF conf2]) (simp add: bs2_def)
  qed
qed

end

section \<open>Push\<close>

lemma no_fork_items: "f \<notin> fst ` set (b_indexes b) \<Longrightarrow> fork_items bt b f = []"
  using map_of_eq_None_iff [of "b_indexes b" f] by (simp add: fork_items_def)

context index_btree
begin

lemma sum_len_items: "\<forall>loc\<in>set locs. good_loc l loc \<Longrightarrow>
    (\<Sum>loc\<leftarrow>locs. loc_Len loc) = of_nat (length (concat (map (batch_of l) locs)))"
  by (induction locs) (auto dest: good_locD(3))

lemma idx_len_items: "index_ok bt l i \<Longrightarrow> idx_len i = of_nat (length (index_items bt l i))"
  using sum_len_items [of "all_locs bt i" l] by (simp add: index_ok_def wf_index_def index_items_def)

lemma fork_len:
  assumes "bucket_ok bt its b w" "map_of (b_indexes b) f = Some idx"
  shows "idx_len (bi_Mem idx) = of_nat (length (fork_items bt b f))"
  using idx_len_items bucket_okD(6) [OF assms] assms(2) by (simp add: fork_ok_def fork_items_def)

lemma bucket_Len_items:
  assumes "bucket_ok bt its b w" "map_of (b_indexes b) f \<noteq> None" "length (fork_items bt b f) < 2 ^ 63"
  shows "bucket_Len b f = int (length (fork_items bt b f))"
proof -
  obtain idx where "map_of (b_indexes b) f = Some idx" using assms(2) by blast
  then show ?thesis using fork_len [OF assms(1)] assms(3)
    by (simp add: bucket_Len_def idxForFork_def Index_Len_def sint_of_nat64)
qed

lemma AllEmpty_items:
  assumes "bucket_ok bt its b w" "\<forall>f. length (fork_items bt b f) < 2 ^ 63"
  shows "bucket_AllEmpty b \<longleftrightarrow> (\<forall>f. fork_items bt b f = [])"
proof -
  have z: "(of_nat (length (fork_items bt b f)) :: Off) = 0 \<longleftrightarrow> fork_items bt b f = []" for f
  proof -
    have "length (fork_items bt b f) < 2 ^ 64" using assms(2) [rule_format, of f] by simp
    note u = unat_of_nat64 [OF this]
    show ?thesis unfolding unat_eq_0 [symmetric] u by (rule length_0_conv)
  qed
  have d: "distinct (map fst (b_indexes b))" by (rule bucket_okD(5) [OF assms(1)])
  have "idx_len (bi_Mem idx) = 0 \<longleftrightarrow> fork_items bt b f = []" if "(f, idx) \<in> set (b_indexes b)" for f idx
    using fork_len [OF assms(1), of f idx] that d z by simp
  then have "bucket_AllEmpty b \<longleftrightarrow> (\<forall>f\<in>fst ` set (b_indexes b). fork_items bt b f = [])"
    unfolding bucket_AllEmpty_iff by fastforce
  then show ?thesis using no_fork_items by blast
qed

end

text \<open>A step that changes only the files of a bucket\<close>

lemma held_nodes:
  assumes "held d bs w key b its" "\<forall>q. q \<notin> bucket_files b \<longrightarrow> node_at w' q = node_at w q"
  shows "node_at w' (buckPath bs key) = Some Dir"
    "\<forall>q. node_at w' (buckPath bs key @ q) \<noteq> None \<longrightarrow> q = [] \<or> buckPath bs key @ q \<in> bucket_files b"
    "w_faults w' = [] \<Longrightarrow> only_at (buckPath bs key) w w'"
proof -
  have dir: "b_dir b = buckPath bs key" using assms(1) by (simp add: held_def)
  then have "buckPath bs key \<notin> bucket_files b" by (auto simp: bucket_files_def)
  then show "node_at w' (buckPath bs key) = Some Dir" using assms by (simp add: held_def)
  show "\<forall>q. node_at w' (buckPath bs key @ q) \<noteq> None \<longrightarrow> q = [] \<or> buckPath bs key @ q \<in> bucket_files b"
    using assms unfolding held_def by metis
  show "w_faults w' = [] \<Longrightarrow> only_at (buckPath bs key) w w'"
    unfolding only_at_def using assms(2) below_files [OF dir] by metis
qed

context queue_deps
begin

lemma tracked_done:
  assumes "tracked d bs w C {key}" "tree_get d key bs = Some (Some b)" "held d bs w key b its" "filed d bs w key b"
  shows "tracked d bs w (C(key \<mapsto> (b, its))) {}"
  using assms by (auto simp: tracked_def)

lemma held_Push:
  assumes h: "held d bs w key b its" and it: "items \<noteq> []" "sorted (keys_of items)" "\<forall>it\<in>set items. valid_item it"
    "length items < 2 ^ 32" and rm: "room (d_page d) (b_log b) (length (enc_items items))"
    and sp: "\<forall>it\<in>set items. split_fn (bs_opts bs) (item_Key it) = key"
    and len: "\<forall>f. length (fork_items (d_index d) b f) + length items < 2 ^ 63"
  obtains b' w' where "bucket_Push (d_index d) (d_page d) items True '''' b w = (None, b', w')"
    "held d bs w' key b' (its @ items)" "filed d bs w' key b'" "only_at (buckPath bs key) w w'"
    "\<forall>f\<in>fork_names bs. mset (fork_items (d_index d) b' f) = mset (fork_items (d_index d) b f) + mset items"
proof -
  let ?bt = "d_index d" and ?dir = "buckPath bs key"
  have ok: "bucket_ok ?bt its b w" and dir: "b_dir b = ?dir" and names: "fst ` set (b_indexes b) = fork_names bs"
    using h by (auto simp: held_def)
  obtain b' w' loc where p: "bucket_Push ?bt (d_page d) items True '''' b w = (None, b', w')" "bucket_ok ?bt (its @ items) b' w'"
    "map fst (b_indexes b') = map fst (b_indexes b)"
    "\<forall>f. map_of (b_indexes b) f \<noteq> None \<longrightarrow> mset (fork_items ?bt b' f) = mset (fork_items ?bt b f) + mset items"
    "b_dir b' = b_dir b" "b_key b' = b_key b" "\<forall>q. q \<notin> bucket_files b \<longrightarrow> node_at w' q = node_at w q"
    "rec_ok loc" "loc_Len loc \<noteq> 0"
    "\<forall>f\<in>fst ` set (b_indexes b). \<exists>old t. file_at w (idxPath (b_dir b) f) = Some old \<and>
       file_at w' (idxPath (b_dir b) f) = Some (old @ enc_recs [(loc, t)])"
    using idx.Push_all_ok [OF ok it rm, of "''''"] by blast
  have names': "fst ` set (b_indexes b') = fork_names bs" using arg_cong [OF p(3), of set] names by simp
  have ms: "\<forall>f\<in>fork_names bs. mset (fork_items ?bt b' f) = mset (fork_items ?bt b f) + mset items"
    using p(4) names by (auto simp: map_of_eq_None_iff)
  have other: "fork_items ?bt b' f = []" if "f \<notin> fork_names bs" for f
    using that names' by (simp add: no_fork_items)
  note nodes = held_nodes [OF h p(7)]
  have oa: "only_at ?dir w w'" by (rule nodes(3) [OF bucket_okD(1) [OF p(2)]])
  have files: "bucket_files b' = bucket_files b" using p(5) names names' by (intro bucket_files_cong) simp_all
  have mm: "log_mmap (b_log b') \<noteq> []"
  proof -
    have rep: "log_rep (b_log b') (its @ items)" by (rule bucket_okD(2) [OF p(2)])
    then have "log_size (b_log b') \<le> int (length (log_mmap (b_log b')))" by (simp add: log_rep_def wf_log_def)
    moreover have "0 < length (its @ items)" using it(1) by simp
    then have "0 < length (enc_items (its @ items))" using length_enc_items_ge [of "its @ items"] by linarith
    ultimately have "0 < length (log_mmap (b_log b'))" using log_rep_size [OF rep] by linarith
    then show ?thesis by simp
  qed
  have spl: "split_fn (bs_opts bs) (item_Key x) = key" if "x \<in> set (fork_items ?bt b' f)" for x f
  proof (cases "f \<in> fork_names bs")
    case True
    then have "set (fork_items ?bt b' f) = set (fork_items ?bt b f) \<union> set items" using ms by (metis set_mset_mset set_mset_union)
    then show ?thesis using that sp h by (auto simp: held_def)
  qed (use that other in simp)
  have "held d bs w' key b' (its @ items)"
    unfolding held_def files using h p(2,5,6) mm names' spl dir nodes(1,2) by (simp add: held_def)
  moreover have "filed d bs w' key b'"
  proof -
    have "mset (fork_items ?bt b' '''') = mset (fork_items ?bt b '''') + mset items" using ms by (simp add: fork_names_def)
    then have ne: "fork_items ?bt b' '''' \<noteq> []" using it(1) by auto
    have "length (fork_items ?bt b' f) < 2 ^ 63" for f
    proof (cases "f \<in> fork_names bs")
      case True
      then have "length (fork_items ?bt b' f) = length (fork_items ?bt b f) + length items" using ms by (metis size_mset size_union)
      then show ?thesis using len [rule_format, of f] by simp
    qed (simp add: other)
    then have "\<not> bucket_AllEmpty b'" using idx.AllEmpty_items [OF p(2)] ne by blast
    moreover have "\<exists>rs. file_at w' (idxPath ?dir f) = Some (enc_recs rs) \<and> (\<forall>(loc, t) \<in> set rs. rec_ok loc) \<and> 0 < volume rs"
      if f: "f \<in> fork_names bs" for f
    proof -
      obtain ix where ix: "map_of (b_indexes b) f = Some ix" using f names by (metis map_of_eq_None_iff not_None_eq)
      obtain rs where rs: "file_at w (idxPath ?dir f) = Some (enc_recs rs)" "\<forall>(loc, t) \<in> set rs. rec_ok loc"
        using bucket_okD(6) [OF ok ix] dir by (auto simp: fork_ok_def wal_ok_def)
      obtain t where "file_at w' (idxPath ?dir f) = Some (enc_recs rs @ enc_recs [(loc, t)])"
        using p(10) f names rs(1) dir by auto
      then have "file_at w' (idxPath ?dir f) = Some (enc_recs (rs @ [(loc, t)]))" by simp
      moreover have "0 < volume (rs @ [(loc, t)])" using p(9) by (simp add: volume_def unat_gt_0)
      ultimately show ?thesis using rs(2) p(8) by (intro exI [of _ "rs @ [(loc, t)]"]) auto
    qed
    ultimately show ?thesis by (simp add: filed_def)
  qed
  ultimately show ?thesis using that p(1) oa ms by blast
qed

end

end
