(* ===== verification/Buckets_Push.thy ===== *)
theory Buckets_Push
  imports Buckets_Items
begin

text \<open>
  Pushing to the collection: the batch is sorted and cut into the parts of the buckets; each bucket is
  opened, if necessary after closing others, and gets its part. The result is that each fork of the
  queue has the items it had and those of the batch.
\<close>

section \<open>Pushing a batch\<close>

lemma length_enc_items_app: "length (enc_items (xs @ ys)) = length (enc_items xs) + length (enc_items ys)"
  by (simp add: enc_items_def)

lemma only_at_other:
  assumes "only_at (buckPath bs key) w w'" "k \<noteq> key"
  shows "node_at w' (buckPath bs k @ q) = node_at w (buckPath bs k @ q)"
    "contents w' (buckPath bs k @ q) = contents w (buckPath bs k @ q)" "small bs w' k = small bs w k"
proof -
  show n: "node_at w' (buckPath bs k @ q) = node_at w (buckPath bs k @ q)" for q
    using assms(1) buckPath_other [OF assms(2)] unfolding only_at_def by blast
  then show c: "contents w' (buckPath bs k @ q) = contents w (buckPath bs k @ q)" for q
    by (simp add: contents_def file_at_def)
  have "\<exists>q. idxPath (buckPath bs k) f = buckPath bs k @ q" for f by (auto simp: idxPath_def Let_def)
  then have "contents w' (idxPath (buckPath bs k) f) = contents w (idxPath (buckPath bs k) f)" for f using c by metis
  then show "small bs w' k = small bs w k" by (simp add: small_def)
qed

text \<open>Nothing changed but below the directories of buckets.\<close>

definition outside :: "('m, 't) buckets \<Rightarrow> world \<Rightarrow> world \<Rightarrow> bool" where
  "outside bs w w' \<longleftrightarrow> (\<forall>q. (\<forall>key r. q \<noteq> buckPath bs key @ r) \<longrightarrow> node_at w' q = node_at w q)"

lemma outside_refl [simp]: "outside bs w w"
  by (simp add: outside_def)

lemma outside_trans: "outside bs w w1 \<Longrightarrow> outside bs w1 w' \<Longrightarrow> outside bs w w'"
  by (simp add: outside_def)

lemma only_at_outside: "only_at (buckPath bs key) w w' \<Longrightarrow> outside bs w w'"
  by (auto simp: only_at_def outside_def)

lemma outside_conf: "same_conf bs bs' \<Longrightarrow> outside bs' = outside bs"
  by (simp add: outside_def fun_eq_iff held_conf)

context bucket_split
begin

text \<open>Of a sorted batch, the items of the first bucket are those in front.\<close>

lemma first_group:
  assumes "sorted (keys_of items)" "items \<noteq> []"
  defines "P \<equiv> \<lambda>it. f (item_Key it) = f (item_Key (hd items))"
  shows "takeWhile P items = filter P items" "dropWhile P items = filter (\<lambda>it. \<not> P it) items"
proof -
  have "takeWhile P xs = filter P xs \<and> dropWhile P xs = filter (\<lambda>it. \<not> P it) xs"
    if "sorted (keys_of xs)" "\<forall>it\<in>set xs. f (item_Key (hd items)) \<le> f (item_Key it)" for xs
    using that
  proof (induction xs)
    case (Cons x xs)
    show ?case
    proof (cases "P x")
      case False
      then have lt: "f (item_Key (hd items)) < f (item_Key x)" using Cons.prems(2) by (auto simp: P_def)
      have "\<not> P y" if "y \<in> set xs" for y
      proof -
        have "item_Key x \<le> item_Key y" using Cons.prems(1) that by (auto simp: keys_of_def)
        then have "f (item_Key x) \<le> f (item_Key y)" by (rule mono)
        then show ?thesis using lt by (auto simp: P_def)
      qed
      then show ?thesis using False by (auto simp: filter_empty_conv filter_id_conv)
    qed (use Cons in \<open>auto simp: keys_of_def\<close>)
  qed simp
  moreover have "f (item_Key (hd items)) \<le> f (item_Key it)" if "it \<in> set items" for it
    using assms(1,2) that by (cases items) (auto simp: keys_of_def intro: mono)
  ultimately show "takeWhile P items = filter P items" "dropWhile P items = filter (\<lambda>it. \<not> P it) items"
    using assms(1) by blast+
qed

end

text \<open>Room for a batch: the index logs are small, and the value logs can grow by \<open>n\<close> bytes.\<close>

definition has_room :: "('m, 't) deps \<Rightarrow> ('m, 't) buckets \<Rightarrow> world \<Rightarrow> nat \<Rightarrow> Key \<Rightarrow> bool" where
  "has_room d bs w n key \<longleftrightarrow>
     small bs w key \<and> int (length (contents w (buckPath bs key @ [dataLogName]))) + int n + 128 * d_page d < 2 ^ 62"

lemma has_room_other:
  "only_at (buckPath bs key) w w' \<Longrightarrow> k \<noteq> key \<Longrightarrow> has_room d bs w' n k = has_room d bs w n k"
  by (simp add: has_room_def only_at_other)

lemma has_room_conf: "same_conf bs bs' \<Longrightarrow> has_room d bs' = has_room d bs"
  by (simp add: has_room_def fun_eq_iff small_def held_conf)

lemma length_enc_filter: "length (enc_items (filter P its)) \<le> length (enc_items its)"
  by (induction its) auto

context queue_deps
begin

text \<open>One round of the loop: the first part goes to its bucket.\<close>

lemma push_round:
  assumes t: "tracked d bs w C {}" and sp: "bucket_split (split_fn (bs_opts bs))"
    and it: "items \<noteq> []" "sorted (keys_of items)" "\<forall>it\<in>set items. valid_item it" "length items < 2 ^ 32"
    and rm: "has_room d bs w n key" "length (enc_items items) \<le> n" "0 < d_page d"
    and key: "key = split_fn (bs_opts bs) (item_Key (hd items))"
    and len: "\<forall>f. length (c_items d C key f) + length items < 2 ^ 63"
  defines "P \<equiv> \<lambda>it. split_fn (bs_opts bs) (item_Key it) = key"
  obtains bs' w' C' where "pushSorted d items bs w = pushSorted d (filter (\<lambda>it. \<not> P it) items) bs' w'"
    "same_conf bs bs'" "tracked d bs' w' C' {}" "only_at (buckPath bs key) w w'"
    "\<And>k. k \<noteq> key \<Longrightarrow> C' k = C k"
    "\<forall>f\<in>fork_names bs. mset (c_items d C' key f) = mset (c_items d C key f) + mset (filter P items)"
proof -
  let ?part = "filter P items"
  have pg: "128 * d_page d < 2 ^ 62" and sm: "small bs w key" using rm by (auto simp: has_room_def)
  obtain b its bs1 w1 where k: "forKey d key bs w = (Inr b, bs1, w1)" "same_conf bs bs1" "tracked d bs1 w1 C {key}"
    "tree_get d key bs1 = Some (Some b)" "held d bs1 w1 key b its"
    "\<And>f. fork_items (d_index d) b f = c_items d C key f" "only_at (buckPath bs key) w w1"
    "log_size (b_log b) \<le> int (length (contents w (buckPath bs key @ [dataLogName])))"
    using forKey_ok [OF t sm rm(3) pg] by metis
  note conf = held_conf [OF k(2)]
  have part: "?part \<noteq> []" "sorted (keys_of ?part)" "\<forall>it\<in>set ?part. valid_item it" "length ?part < 2 ^ 32"
  proof -
    show "?part \<noteq> []" using it(1) key by (cases items) (auto simp: P_def)
    show "sorted (keys_of ?part)" using it(2) by (simp add: keys_of_def sorted_filter)
    show "length ?part < 2 ^ 32" using it(4) length_filter_le [of P items] by linarith
  qed (use it(3) in simp)
  have "length (enc_items ?part) \<le> n" using length_enc_filter [of P items] rm(2) by linarith
  then have room: "room (d_page d) (b_log b) (length (enc_items ?part))"
    using rm(1,3) k(8) by (simp add: room_def has_room_def)
  have splits: "\<forall>it\<in>set ?part. split_fn (bs_opts bs1) (item_Key it) = key" by (simp add: P_def conf)
  have lens: "\<forall>f. length (fork_items (d_index d) b f) + length ?part < 2 ^ 63"
    using len length_filter_le [of P items] by (metis (no_types, lifting) k(6) add_le_cancel_left le_less_trans)
  obtain b' w' where p: "bucket_Push (d_index d) (d_page d) ?part True '''' b w1 = (None, b', w')"
    "held d bs1 w' key b' (its @ ?part)" "filed d bs1 w' key b'" "only_at (buckPath bs1 key) w1 w'"
    "\<forall>f\<in>fork_names bs1. mset (fork_items (d_index d) b' f) = mset (fork_items (d_index d) b f) + mset ?part"
    by (rule held_Push [OF k(5) part room splits lens])
  define bs2 where "bs2 = put_bucket d key b' bs1"
  have bs2: "bs2 = tree_set d key (Some b') bs1" by (simp add: bs2_def put_bucket_def)
  have conf12: "same_conf bs1 bs2" by (simp add: bs2 same_conf_def tree_set_def)
  have "tracked d bs1 w' C {key}" by (rule tracked_frame [OF k(3) p(4)]) simp
  then have "tracked d bs2 w' C {key}" unfolding bs2 by (rule tracked_set) simp
  then have t2: "tracked d bs2 w' (C(key \<mapsto> (b', its @ ?part))) {}"
    by (rule tracked_done) (use p(2,3) in \<open>simp_all add: bs2 tree_get_set held_conf [OF conf12 [unfolded bs2]]\<close>)
  have grp: "take (binsplit items key (split_fn (bs_opts bs))) items = ?part"
    "drop (binsplit items key (split_fn (bs_opts bs))) items = filter (\<lambda>it. \<not> P it) items"
    using bucket_split.first_group [OF sp it(2,1), folded key] takeWhile_eq_take [of P items] dropWhile_eq_drop [of P items]
    unfolding bucket_split.binsplit_takeWhile [OF sp it(1,2) key [symmetric]] by (simp_all add: P_def)
  have "pushSorted d items bs w = pushSorted d (filter (\<lambda>it. \<not> P it) items) bs2 w'"
    using it(1) key k(1) p(1) grp by (subst pushSorted.simps) (auto simp: Let_def bs2_def split: list.split)
  moreover have "only_at (buckPath bs key) w w'" using only_at_trans k(7) p(4) conf by metis
  moreover have "mset (c_items d (C(key \<mapsto> (b', its @ ?part))) key f) = mset (c_items d C key f) + mset ?part"
    if "f \<in> fork_names bs" for f
    using p(5) that conf k(6) by (simp add: c_items_def)
  ultimately show ?thesis
    using that [of bs2 w' "C(key \<mapsto> (b', its @ ?part))"] t2 same_conf_trans [OF k(2) conf12] by auto
qed

lemma pushSorted_ok:
  assumes "tracked d bs w C {}" "bucket_split (split_fn (bs_opts bs))"
    "sorted (keys_of items)" "\<forall>it\<in>set items. valid_item it" "length items < 2 ^ 32"
    "\<forall>it\<in>set items. has_room d bs w n (split_fn (bs_opts bs) (item_Key it))" "length (enc_items items) \<le> n" "0 < d_page d"
    "\<forall>it\<in>set items. \<forall>f. length (c_items d C (split_fn (bs_opts bs) (item_Key it)) f) + length items < 2 ^ 63"
  shows "\<exists>bs' w' C'. pushSorted d items bs w = (None, bs', w') \<and> same_conf bs bs' \<and> tracked d bs' w' C' {} \<and> outside bs w w' \<and>
    (\<forall>k. \<forall>f\<in>fork_names bs. mset (c_items d C' k f) =
       mset (c_items d C k f) + mset (filter (\<lambda>it. split_fn (bs_opts bs) (item_Key it) = k) items))"
  using assms
proof (induction items arbitrary: bs w C rule: measure_induct_rule [where f = length])
  case (less items)
  show ?case
  proof (cases "items = []")
    case True
    then show ?thesis using less.prems(1) by (subst pushSorted.simps) auto
  next
    case False
    let ?sp = "\<lambda>it. split_fn (bs_opts bs) (item_Key it)"
    define key where "key = ?sp (hd items)"
    let ?rest = "filter (\<lambda>it. ?sp it \<noteq> key) items"
    have hd: "hd items \<in> set items" using False by simp
    note room = less.prems(6) [rule_format, OF hd, folded key_def]
    note len = less.prems(9) [rule_format, OF hd, folded key_def]
    obtain bs1 w1 C1 where r: "pushSorted d items bs w = pushSorted d ?rest bs1 w1" "same_conf bs bs1"
      "tracked d bs1 w1 C1 {}" "only_at (buckPath bs key) w w1" "\<And>k. k \<noteq> key \<Longrightarrow> C1 k = C k"
      "\<forall>f\<in>fork_names bs. mset (c_items d C1 key f) = mset (c_items d C key f) + mset (filter (\<lambda>it. ?sp it = key) items)"
      using push_round [OF less.prems(1,2) False less.prems(3-5) room less.prems(7,8) key_def] len by blast
    note conf = held_conf [OF r(2)]
    have same: "c_items d C1 k = c_items d C k" if "k \<noteq> key" for k using r(5) [OF that] by (simp add: c_items_def fun_eq_iff)
    have "hd items \<notin> set ?rest" by (simp add: key_def)
    then have shorter: "length ?rest < length items" using hd by (metis (mono_tags, lifting) length_filter_less mem_Collect_eq set_filter)
    have "\<exists>bs' w' C'. pushSorted d ?rest bs1 w1 = (None, bs', w') \<and> same_conf bs1 bs' \<and> tracked d bs' w' C' {} \<and> outside bs1 w1 w' \<and>
      (\<forall>k. \<forall>f\<in>fork_names bs1. mset (c_items d C' k f) =
         mset (c_items d C1 k f) + mset (filter (\<lambda>it. split_fn (bs_opts bs1) (item_Key it) = k) ?rest))"
    proof (rule less.IH [OF shorter r(3)])
      show "bucket_split (split_fn (bs_opts bs1))" using less.prems(2) conf by simp
      show "sorted (keys_of ?rest)" using less.prems(3) by (simp add: keys_of_def sorted_filter)
      show "length ?rest < 2 ^ 32" using shorter less.prems(5) by linarith
      show "\<forall>it\<in>set ?rest. has_room d bs1 w1 n (split_fn (bs_opts bs1) (item_Key it))"
        using less.prems(6) has_room_other [OF r(4)] by (simp add: conf has_room_conf [OF r(2)])
      show "length (enc_items ?rest) \<le> n" using length_enc_filter le_trans less.prems(7) by blast
      show "\<forall>it\<in>set ?rest. \<forall>f. length (c_items d C1 (split_fn (bs_opts bs1) (item_Key it)) f) + length ?rest < 2 ^ 63"
      proof (intro ballI allI)
        fix it f
        assume it: "it \<in> set ?rest"
        then have "length (c_items d C (?sp it) f) + length items < 2 ^ 63" using less.prems(9) by auto
        then show "length (c_items d C1 (split_fn (bs_opts bs1) (item_Key it)) f) + length ?rest < 2 ^ 63"
          using it shorter by (simp add: conf same)
      qed
    qed (use less.prems(4,8) in auto)
    then obtain bs' w' C' where f: "pushSorted d ?rest bs1 w1 = (None, bs', w')" "same_conf bs1 bs'" "tracked d bs' w' C' {}"
      "\<forall>k. \<forall>f\<in>fork_names bs. mset (c_items d C' k f) = mset (c_items d C1 k f) + mset (filter (\<lambda>it. ?sp it = k) ?rest)"
      "outside bs1 w1 w'"
      using conf by auto
    have "outside bs w w'" using outside_trans [OF only_at_outside [OF r(4)]] f(5) outside_conf [OF r(2)] by metis
    moreover
    have "mset (c_items d C' k f) = mset (c_items d C k f) + mset (filter (\<lambda>it. ?sp it = k) items)" if "f \<in> fork_names bs" for k f
    proof (cases "k = key")
      case True
      have "filter (\<lambda>it. ?sp it = key) ?rest = []" by (simp add: filter_empty_conv)
      then show ?thesis using f(4) r(6) that True by (simp del: filter_filter)
    next
      case False
      then have "filter (\<lambda>it. ?sp it = k) ?rest = filter (\<lambda>it. ?sp it = k) items" by (auto intro: filter_cong)
      then show ?thesis using f(4) that same [OF False] by (simp del: filter_filter mset_filter)
    qed
    ultimately show ?thesis using r(1) f(1,3) same_conf_trans [OF r(2) f(2)]
      by (intro exI [of _ bs'] exI [of _ w'] exI [of _ C']) (simp del: mset_filter)
  qed
qed

end

section \<open>The abstract view of a collection in order\<close>

context index_btree
begin

text \<open>Loading the index log of a fork gives the index that is in memory.\<close>

lemma Index_Load_fork:
  assumes ok: "bucket_ok bt its b w" and idx: "map_of (b_indexes b) f = Some idx"
  obtains i where "Index_Load bt (idxPath (b_dir b) f) w = (Ret (None, i), w)" "same_index bt b f (idx\<lparr>bi_Mem := i\<rparr>)"
proof -
  note k = bucket_okD [OF ok]
  have fk: "fork_ok bt b w f idx" by (rule bucket_okD(6) [OF ok idx])
  obtain rs where rs: "file_at w (idxPath (b_dir b) f) = Some (enc_recs rs)" "\<forall>(loc, t) \<in> set rs. rec_ok loc"
    "locs_at bt (bi_Mem idx) = fold apply_rec (map fst rs) (\<lambda>_. [])"
    using fk by (auto simp: fork_ok_def wal_ok_def)
  obtain i where i: "Load_loop bt (enc_recs rs) (Index_zero bt) = Ret (i, None)" "wf_index bt i"
    "locs_at bt i = fold apply_rec (map fst rs) (\<lambda>_. [])"
    by (rule Load_all [OF rs(2)])
  have "Index_Load bt (idxPath (b_dir b) f) w = (Ret (None, i), w)"
    using OpenCreate_exists [OF k(1) rs(1)] i(1) by (simp add: Index_Load_def)
  moreover have "same_index bt b f (idx\<lparr>bi_Mem := i\<rparr>)"
    using idx i(2,3) rs(3) fk by (simp add: same_index_def fork_ok_def)
  ultimately show ?thesis using that by blast
qed

end

context queue_deps
begin

lemma disk_items_ok:
  assumes h: "held d bs w key b its" and f: "f \<in> fork_names bs"
  shows "disk_items d (buckPath bs key) f w = fork_items (d_index d) b f"
proof -
  let ?bt = "d_index d"
  have ok: "bucket_ok ?bt its b w" and mm: "log_mmap (b_log b) \<noteq> []" and dir: "b_dir b = buckPath bs key"
    and names: "fst ` set (b_indexes b) = fork_names bs"
    using h by (auto simp: held_def)
  note k = bucket_okD [OF ok]
  obtain idx where idx: "map_of (b_indexes b) f = Some idx" using f names by (metis map_of_eq_None_iff not_None_eq)
  have op: "vlog_Open (d_page d) (buckPath bs key @ [dataLogName]) False w = (Inr (reflag (b_log b) False False), w)"
    using vlog_Open_existing [OF k(2,3) mm k(1)] k(4) dir by simp
  obtain i where i: "Index_Load ?bt (idxPath (b_dir b) f) w = (Ret (None, i), w)" "same_index ?bt b f (idx\<lparr>bi_Mem := i\<rparr>)"
    by (rule idx.Index_Load_fork [OF ok idx])
  note si = idx.same_index_items [OF ok i(2), simplified]
  show ?thesis using op i(1) dir si(1) reflag_index(1) [OF si(2)] by (simp add: disk_items_def)
qed

lemma items_at_c:
  assumes "tracked d bs w C {}" "f \<in> fork_names bs"
  shows "items_at d bs w key f = c_items d C key f"
proof -
  have e: "entry_ok d bs w key (C key) (tree_get d key bs)" using assms(1) by (simp add: tracked_def)
  show ?thesis
  proof (cases "C key")
    case (Some p)
    then obtain b its where C: "C key = Some (b, its)" by (cases p) auto
    then have "held d bs w key b its" "tree_get d key bs = Some None \<or> tree_get d key bs = Some (Some b)" using e by auto
    then show ?thesis using disk_items_ok [OF _ assms(2)] C by (auto simp: items_at_def c_items_def)
  qed (use e in \<open>simp add: items_at_def c_items_def\<close>)
qed

lemma keys_dom: "tracked d bs w C {} \<Longrightarrow> set (tree_keys d bs) = dom C"
proof (intro set_eqI)
  fix key
  assume "tracked d bs w C {}"
  then have "entry_ok d bs w key (C key) (tree_get d key bs)" by (simp add: tracked_def)
  then show "key \<in> set (tree_keys d bs) \<longleftrightarrow> key \<in> dom C"
    unfolding tree_get_keys [symmetric] by (cases "C key") auto
qed

lemma mset_queue_items:
  assumes t: "tracked d bs w C {}" and f: "f \<in> fork_names bs" and S: "finite S" "dom C \<subseteq> S"
  shows "mset (queue_items d f bs w) = (\<Sum>key\<in>S. mset (c_items d C key f))"
proof -
  have dist: "distinct (tree_keys d bs)" using view_sorted(2) by (simp add: tree_keys_def)
  have "mset (queue_items d f bs w) = (\<Sum>key\<leftarrow>tree_keys d bs. mset (c_items d C key f))"
    unfolding queue_items_def items_at_c [OF t f] by (simp add: mset_concat comp_def)
  also have "\<dots> = (\<Sum>key\<in>dom C. mset (c_items d C key f))"
    using sum_list_distinct_conv_sum_set [OF dist] keys_dom [OF t] by simp
  also have "\<dots> = (\<Sum>key\<in>S. mset (c_items d C key f))"
    using S by (intro sum.mono_neutral_left) (auto simp: c_items_def split: option.splits)
  finally show ?thesis .
qed

lemma finite_tracked: "tracked d bs w C {} \<Longrightarrow> finite (dom C)"
  using keys_dom [of bs w C] by (metis finite_set)

lemma c_items_le:
  assumes "tracked d bs w C {}" "f \<in> fork_names bs"
  shows "length (c_items d C key f) \<le> length (queue_items d f bs w)"
proof -
  have "mset (c_items d C key f) \<subseteq># mset (queue_items d f bs w)"
    unfolding mset_queue_items [OF assms finite.insertI [OF finite_tracked [OF assms(1)]] subset_insertI, of key]
    using finite_tracked [OF assms(1)] by (subst sum.insert_remove) auto
  then show ?thesis by (metis size_mset size_mset_mono)
qed

lemma no_c_items:
  assumes "tracked d bs w C {}" "f \<notin> fork_names bs"
  shows "c_items d C key f = []"
proof (cases "C key")
  case (Some p)
  then have "held d bs w key (fst p) (snd p)" using assms(1) by (cases p) (auto simp: tracked_def dest: spec [of _ key])
  then have "f \<notin> fst ` set (b_indexes (fst p))" using assms(2) by (simp add: held_def)
  then show ?thesis using Some no_fork_items by (simp add: c_items_def split_def)
qed (simp add: c_items_def)

end

lemma sum_groups:
  assumes "finite S" "\<forall>x\<in>set xs. g x \<in> S"
  shows "(\<Sum>k\<in>S. mset (filter (\<lambda>x. g x = k) xs)) = mset xs"
  using assms(2)
proof (induction xs)
  case (Cons x xs)
  have "(\<Sum>k\<in>S. mset (filter (\<lambda>x. g x = k) (x # xs))) =
      (\<Sum>k\<in>S. (if g x = k then {#x#} else {#}) + mset (filter (\<lambda>x. g x = k) xs))"
    by (intro sum.cong) auto
  also have "\<dots> = {#x#} + mset xs" using Cons assms(1) by (simp add: sum.distrib)
  finally show ?case by simp
qed simp

section \<open>The effect of a push\<close>

context queue_deps
begin

lemma Push_all:
  assumes t: "tracked d bs w C {}" and sp: "bucket_split (split_fn (bs_opts bs))" and pg: "0 < d_page d"
    and it: "\<forall>it\<in>set items. valid_item it" "length items < 2 ^ 32"
    "\<forall>a\<in>set items. \<forall>b\<in>set items. \<bar>key_int (item_Key a) - key_int (item_Key b)\<bar> < 2 ^ 63"
    and rm: "\<forall>it\<in>set items. has_room d bs w (length (enc_items items)) (split_fn (bs_opts bs) (item_Key it))"
    and len: "\<forall>f\<in>fork_names bs. length (queue_items d f bs w) + length items < 2 ^ 63"
  obtains bs' w' C' where "buckets_Push d items bs w = (None, bs', w')" "same_conf bs bs'" "tracked d bs' w' C' {}"
    "\<forall>f\<in>fork_names bs. mset (queue_items d f bs' w') = mset (queue_items d f bs w) + mset items" "outside bs w w'"
proof (cases "items = []")
  case True
  then show ?thesis using that [of bs w C] t by (simp add: buckets_Push_def)
next
  case False
  define xs where "xs = d_SortFunc d key_cmp items"
  let ?sp = "\<lambda>it. split_fn (bs_opts bs) (item_Key it)"
  have ms: "mset xs = mset items" by (simp add: xs_def SortFunc_mset)
  then have set: "set xs = set items" and lx: "length xs = length items" by (metis mset_eq_setD) (metis ms mset_eq_length)
  have enc: "length (enc_items xs) = length (enc_items items)"
  proof -
    have "length (enc_items ys) = (\<Sum>it\<in>#mset ys. length (enc_item it))" for ys by (induction ys) auto
    then show ?thesis using ms by simp
  qed
  have small: "length (c_items d C (?sp it) f) + length xs < 2 ^ 63" for it f
  proof (cases "f \<in> fork_names bs")
    case True
    then show ?thesis using c_items_le [OF t True, of "?sp it"] len lx by fastforce
  next
    case False
    then show ?thesis using no_c_items [OF t False] lx it(2) by simp
  qed
  have "\<exists>bs' w' C'. pushSorted d xs bs w = (None, bs', w') \<and> same_conf bs bs' \<and> tracked d bs' w' C' {} \<and> outside bs w w' \<and>
    (\<forall>k. \<forall>f\<in>fork_names bs. mset (c_items d C' k f) = mset (c_items d C k f) + mset (filter (\<lambda>it. ?sp it = k) xs))"
  proof (rule pushSorted_ok [OF t sp, where n = "length (enc_items items)"])
    show "\<forall>it\<in>set xs. \<forall>f. length (c_items d C (?sp it) f) + length xs < 2 ^ 63" using small by blast
    show "sorted (keys_of xs)" unfolding xs_def by (rule SortFunc_keys [OF it(3)])
  qed (use it rm pg in \<open>simp_all add: set lx enc\<close>)
  then obtain bs' w' C' where p: "pushSorted d xs bs w = (None, bs', w')" "same_conf bs bs'" "tracked d bs' w' C' {}"
    "\<forall>k. \<forall>f\<in>fork_names bs. mset (c_items d C' k f) = mset (c_items d C k f) + mset (filter (\<lambda>it. ?sp it = k) xs)"
    "outside bs w w'"
    by blast
  define S where "S = dom C \<union> dom C' \<union> ?sp ` set xs"
  have S: "finite S" "dom C \<subseteq> S" "dom C' \<subseteq> S" using finite_tracked [OF t] finite_tracked [OF p(3)] by (auto simp: S_def)
  have "mset (queue_items d f bs' w') = mset (queue_items d f bs w) + mset items" if f: "f \<in> fork_names bs" for f
  proof -
    have f': "f \<in> fork_names bs'" using f held_conf(4) [OF p(2)] by simp
    have "mset (queue_items d f bs' w') = (\<Sum>k\<in>S. mset (c_items d C k f) + mset (filter (\<lambda>it. ?sp it = k) xs))"
      unfolding mset_queue_items [OF p(3) f' S(1,3)] using p(4) f by (intro sum.cong) blast+
    then show ?thesis
      using mset_queue_items [OF t f S(1,2)] sum_groups [OF S(1), of xs ?sp] ms by (simp add: sum.distrib S_def del: mset_filter)
  qed
  then show ?thesis using that [of bs' w' C'] p(1-3,5) False by (simp add: buckets_Push_def xs_def)
qed

end


text \<open>An empty collection in an otherwise empty directory\<close>

definition demo_queue :: "((Key \<times> Location list) list, (Key \<times> (Key \<times> Location list) list bucket option) list) buckets" where
  "demo_queue =
     \<lparr>bs_dir = [''q''], bs_tree = [], bs_trailers = [], bs_opts = DefaultOptions, bs_forks = [], bs_closed = []\<rparr>"

definition demo_dir :: world where
  "demo_dir = \<lparr>w_fs = [([], Dir), ([''q''], Dir)], w_faults = []\<rparr>"

definition demo_items :: Items where
  "demo_items = [\<lparr>item_Key = key_of_int 3, item_Blob = [7]\<rparr>, \<lparr>item_Key = key_of_int (2 ^ 40), item_Blob = []\<rparr>,
     \<lparr>item_Key = key_of_int 1, item_Blob = [8, 9]\<rparr>]"

lemma demo_queue_ok:
  "buckets_ok demo_deps demo_queue demo_dir" "queue_items demo_deps f demo_queue demo_dir = []"
  "fork_names demo_queue = {''''}" "bucket_split (split_fn (bs_opts demo_queue))"
proof -
  have t: "tree_get demo_deps key demo_queue = None" for key
    by (simp add: tree_get_def demo_queue_def demo_deps_def alist_btree_def)
  have "tracked demo_deps demo_queue demo_dir (\<lambda>_. None) {}"
    by (simp add: tracked_def t [unfolded demo_queue_def] demo_dir_def ancestors_def demo_queue_def buckPath_def node_at_def)
  then show "buckets_ok demo_deps demo_queue demo_dir" unfolding buckets_ok_def by blast
  show "queue_items demo_deps f demo_queue demo_dir = []"
    by (simp add: queue_items_def tree_keys_def demo_queue_def demo_deps_def alist_btree_def)
  show "fork_names demo_queue = {''''}" by (simp add: fork_names_def demo_queue_def)
  show "bucket_split (split_fn (bs_opts demo_queue))"
    using shift.bucket_split_axioms [of 37]
    by (simp add: demo_queue_def DefaultOptions_def DefaultBucketSplitConf_def split_fn_def)
qed

lemma demo_room: "n < 2 ^ 40 \<Longrightarrow> has_room demo_deps demo_queue demo_dir n key"
  by (auto simp: has_room_def small_def contents_def file_at_def node_at_def demo_dir_def demo_queue_def buckPath_def
      idxPath_def Let_def demo_deps_def)


end
