(* ===== verification/Buckets_Read.thy ===== *)
theory Buckets_Read
  imports Buckets_Push Api
begin

text \<open>
  Popping from the collection and clearing it. The buckets are visited in the order of their keys;
  each is opened, if necessary after closing others, gives its smallest items, and is removed with its
  directory once no fork has items in it.
\<close>

section \<open>Removing a bucket\<close>

lemma del_node_simps: "w_faults (del_node p w) = w_faults w" "node_at (del_node p w) = (node_at w)(p := None)"
  by (simp_all add: fun_eq_iff)

lemma Remove_file:
  assumes "w_faults w = []" "node_at w p \<noteq> Some Dir"
  shows "\<exists>e w'. Remove p w = (e, w') \<and> filterIsNotExist e = None \<and> w_faults w' = [] \<and> node_at w' = (node_at w)(p := None)"
proof (cases "node_at w p")
  case None
  then have "node_at w = (node_at w)(p := None)" by (simp add: fun_eq_iff)
  then show ?thesis using None assms(1) by (simp add: Remove_def filterIsNotExist_def)
next
  case (Some n)
  then have "Remove p w = (None, del_node p w)" using assms by (cases n) (simp_all add: Remove_def)
  then show ?thesis using assms(1) by (simp add: filterIsNotExist_def del_node_simps del: node_at_del)
qed

lemma remove_indexes_ok:
  assumes "w_faults w = []" "\<forall>f\<in>set forks. node_at w (idxPath dir f) \<noteq> Some Dir"
  shows "\<exists>w'. remove_indexes dir forks None w = (None, w') \<and> w_faults w' = [] \<and>
    node_at w' = (\<lambda>q. if q \<in> idxPath dir ` set forks then None else node_at w q)"
  using assms
proof (induction forks arbitrary: w)
  case (Cons f forks)
  obtain e w1 where r: "Remove (idxPath dir f) w = (e, w1)" "filterIsNotExist e = None" "w_faults w1 = []"
    "node_at w1 = (node_at w)(idxPath dir f := None)"
    using Remove_file [of w "idxPath dir f"] Cons.prems by auto
  obtain w' where "remove_indexes dir forks None w1 = (None, w')" "w_faults w' = []"
    "node_at w' = (\<lambda>q. if q \<in> idxPath dir ` set forks then None else node_at w1 q)"
  proof -
    have "\<forall>g\<in>set forks. node_at w1 (idxPath dir g) \<noteq> Some Dir" using Cons.prems(2) r(4) by simp
    then show ?thesis using Cons.IH [OF r(3)] that by blast
  qed
  then show ?case using r by (auto simp: join_err_def fun_eq_iff)
qed simp

lemma children_empty: "(\<And>name. node_at w (dir @ [name]) = None) \<Longrightarrow> children w dir = []"
proof -
  assume none: "\<And>name. node_at w (dir @ [name]) = None"
  have "node_at w p \<noteq> None" if "p \<in> set (map fst (w_fs w))" for p
    using that by (simp add: node_at_def map_of_eq_None_iff)
  then have "\<not> (p \<noteq> [] \<and> butlast p = dir)" if "p \<in> set (map fst (w_fs w))" for p
    using none that by (metis append_butlast_last_id)
  then show ?thesis unfolding children_def by (auto simp: filter_empty_conv)
qed

lemma removeBucketDir_held:
  assumes h: "held d bs w key b its"
  shows "\<exists>w'. removeBucketDir (buckPath bs key) (bs_forks bs) w = (None, w') \<and>
    (\<forall>q. node_at w' (buckPath bs key @ q) = None) \<and> only_at (buckPath bs key) w w'"
proof -
  let ?dir = "buckPath bs key"
  have dir: "node_at w ?dir = Some Dir" and ok: "bucket_ok (d_index d) its b w" and bd: "b_dir b = ?dir"
    and names: "fst ` set (b_indexes b) = fork_names bs"
    using h by (simp_all add: held_def)
  have all: "\<forall>q. node_at w (?dir @ q) \<noteq> None \<longrightarrow> q = [] \<or> ?dir @ q \<in> bucket_files b"
    using h unfolding held_def by blast
  note k = bucket_okD [OF ok]
  have idx: "node_at w (idxPath ?dir f) \<noteq> Some Dir" if "f \<in> fork_names bs" for f
  proof -
    have "map_of (b_indexes b) f \<noteq> None" using that names by (simp add: map_of_eq_None_iff)
    then obtain ix where "map_of (b_indexes b) f = Some ix" by blast
    then show ?thesis using k(6) [of f ix] bd by (auto simp: fork_ok_def wal_ok_def node_at_file)
  qed
  have dat: "node_at w (?dir @ [''dat.log'']) \<noteq> Some Dir"
    using k(3,4) bd by (simp add: log_on_disk_def node_at_file dataLogName_def)
  have def: "idxPath ?dir '''' = ?dir @ [''idx.log'']" by (simp add: idxPath_def)
  obtain w0 where 0: "remove_indexes ?dir (bs_forks bs) None w = (None, w0)" "w_faults w0 = []"
    "node_at w0 = (\<lambda>q. if q \<in> idxPath ?dir ` set (bs_forks bs) then None else node_at w q)"
    using remove_indexes_ok [of w "bs_forks bs" ?dir] k(1) idx by (auto simp: fork_names_def)
  obtain e1 w1 where 1: "Remove (?dir @ [''dat.log'']) w0 = (e1, w1)" "filterIsNotExist e1 = None" "w_faults w1 = []"
    "node_at w1 = (node_at w0)(?dir @ [''dat.log''] := None)"
  proof -
    have "node_at w0 (?dir @ [''dat.log'']) \<noteq> Some Dir" using 0(3) dat by simp
    from Remove_file [OF 0(2) this] show ?thesis using that by blast
  qed
  obtain e2 w2 where 2: "Remove (?dir @ [''idx.log'']) w1 = (e2, w2)" "filterIsNotExist e2 = None" "w_faults w2 = []"
    "node_at w2 = (node_at w1)(?dir @ [''idx.log''] := None)"
  proof -
    have "node_at w1 (?dir @ [''idx.log'']) \<noteq> Some Dir" using 0(3) 1(4) idx [of "''''"] def by (simp add: fork_names_def)
    from Remove_file [OF 1(3) this] show ?thesis using that by blast
  qed
  have n2: "node_at w2 q = (if q \<in> bucket_files b then None else node_at w q)" for q
    using 0(3) 1(4) 2(4) def bd names by (auto simp: bucket_files_def fork_names_def dataLogName_def)
  have none: "node_at w2 (?dir @ q) = None" if "q \<noteq> []" for q using n2 all that by auto
  have d2: "node_at w2 ?dir = Some Dir" using n2 dir bd by (auto simp: bucket_files_def)
  have "children w2 ?dir = []" by (rule children_empty) (use none in simp)
  then have 3: "Remove ?dir w2 = (None, del_node ?dir w2)" using 2(3) d2 by (simp add: Remove_def)
  define w' where "w' = del_node ?dir w2"
  have "removeBucketDir ?dir (bs_forks bs) w = (None, w')"
    using 0(1) 1(1,2) 2(1,2) 3 by (simp add: removeBucketDir_def join_err_def filterIsNotExist_def w'_def)
  moreover have "node_at w' (?dir @ q) = None" for q using none [of q] by (cases "q = []") (simp_all add: w'_def)
  moreover have "only_at ?dir w w'"
    unfolding only_at_def
  proof (intro conjI allI impI)
    show "w_faults w' = []" using 2(3) by (simp add: w'_def)
    fix q
    assume q: "\<forall>r. q \<noteq> ?dir @ r"
    then have "q \<noteq> ?dir" by (metis append_Nil2)
    moreover have "q \<notin> bucket_files b" using q below_files [OF bd] by blast
    ultimately show "node_at w' q = node_at w q" using n2 by (simp add: w'_def)
  qed
  ultimately show ?thesis by blast
qed

lemma tracked_conf:
  assumes "tracked d bs w C X" "same_conf bs bs'" "\<And>k. k \<notin> X \<Longrightarrow> tree_get d k bs' = tree_get d k bs"
  shows "tracked d bs' w C X"
  using assms(1,3) entry_ok_conf [OF assms(2)] assms(2) by (auto simp: tracked_def same_conf_def)

context queue_deps
begin

lemma tree_get_delete:
  "tree_get d k (bs\<lparr>bs_tree := bt_delete (d_tree d) (bs_tree bs) key\<rparr>) = (if k = key then None else tree_get d k bs)"
  by (simp add: tree_get_def)

lemma delete_in:
  assumes t: "tracked d bs w C X" "key \<in> X" and get: "tree_get d key bs = Some v" "v = None \<or> v = Some b"
    and h: "held d bs w key b its"
  obtains bs' w' where "buckets_delete d key bs w = (None, bs', w')" "same_conf bs bs'"
    "tracked d bs' w' (C(key := None)) (X - {key})" "only_at (buckPath bs key) w w'"
    "\<And>k. tree_get d k bs' = (if k = key then None else tree_get d k bs)"
proof -
  have nf: "w_faults w = []" using t by (simp add: tracked_def)
  have dir: "b_dir b = buckPath bs key" using h by (simp add: held_def)
  obtain w' where r: "removeBucketDir (buckPath bs key) (bs_forks bs) w = (None, w')"
    "\<forall>q. node_at w' (buckPath bs key @ q) = None" "only_at (buckPath bs key) w w'"
    using removeBucketDir_held [OF h] by blast
  define bs' where "bs' = bs\<lparr>bs_trailers := filter (\<lambda>((k, _), _). k \<noteq> key) (bs_trailers bs),
    bs_closed := bs_closed bs @ (case v of None \<Rightarrow> [] | Some b \<Rightarrow> [(key, b)]),
    bs_tree := bt_delete (d_tree d) (bs_tree bs) key\<rparr>"
  have "buckets_delete d key bs w = (None, bs', w')"
    using get dir r(1) bucket_Close_ok [OF nf, of b]
    by (auto simp: buckets_delete_def Let_def buckPath_def bs'_def join_err_def)
  moreover have conf: "same_conf bs bs'" by (simp add: bs'_def same_conf_def)
  moreover have g: "tree_get d k bs' = (if k = key then None else tree_get d k bs)" for k
    by (simp add: bs'_def tree_get_def)
  moreover have "tracked d bs' w' (C(key := None)) (X - {key})"
  proof -
    have "tracked d bs' w' C X"
      by (rule tracked_conf [OF tracked_frame [OF t(1) r(3) t(2)] conf]) (use t(2) in \<open>auto simp: g\<close>)
    then show ?thesis using g r(2) held_conf(3) [OF conf] by (auto simp: tracked_def)
  qed
  ultimately show ?thesis using that r(3) by blast
qed

lemma delete_ok:
  assumes t: "tracked d bs w C {key}" and get: "tree_get d key bs = Some v" "v = None \<or> v = Some b"
    and h: "held d bs w key b its"
  obtains bs' w' where "buckets_delete d key bs w = (None, bs', w')" "same_conf bs bs'"
    "tracked d bs' w' (C(key := None)) {}" "only_at (buckPath bs key) w w'"
proof (rule delete_in [OF t singletonI get h])
  fix bs' w'
  assume "buckets_delete d key bs w = (None, bs', w')" "same_conf bs bs'"
    "tracked d bs' w' (C(key := None)) ({key} - {key})" "only_at (buckPath bs key) w w'"
  then show ?thesis using that by simp
qed

end

section \<open>Clearing\<close>

context queue_deps
begin

lemma clear_loop_ok:
  assumes "tracked d bs w C {}" "distinct ks" "set ks \<subseteq> dom C"
  shows "\<exists>bs' w'. clear_loop d ks bs w = (None, bs', w') \<and> same_conf bs bs' \<and> tracked d bs' w' (C |` (- set ks)) {} \<and> outside bs w w'"
  using assms
proof (induction ks arbitrary: bs w C)
  case (Cons key ks)
  have t: "tracked d bs w C {key}" using Cons.prems(1) by (simp add: tracked_def)
  obtain b its where C: "C key = Some (b, its)" using Cons.prems(3) by auto
  have e: "entry_ok d bs w key (Some (b, its)) (tree_get d key bs)" using Cons.prems(1) C by (metis tracked_def empty_iff)
  then obtain v where v: "tree_get d key bs = Some v" "v = None \<or> v = Some b" and h: "held d bs w key b its" by auto
  obtain bs1 w1 where 1: "buckets_delete d key bs w = (None, bs1, w1)" "same_conf bs bs1" "tracked d bs1 w1 (C(key := None)) {}"
    "only_at (buckPath bs key) w w1"
    using delete_ok [OF t v h] by metis
  obtain bs' w' where "clear_loop d ks bs1 w1 = (None, bs', w')" "same_conf bs1 bs'"
    "tracked d bs' w' ((C(key := None)) |` (- set ks)) {}" "outside bs1 w1 w'"
  proof -
    have "distinct ks" "set ks \<subseteq> dom (C(key := None))" using Cons.prems(2,3) by auto
    from Cons.IH [OF 1(3) this] show ?thesis using that by blast
  qed
  moreover have "(C(key := None)) |` (- set ks) = C |` (- set (key # ks))" by (auto simp: restrict_map_def)
  moreover have "outside bs w w'" if "outside bs1 w1 w'"
    using outside_trans [OF only_at_outside [OF 1(4)]] outside_conf [OF 1(2)] that by simp
  ultimately show ?case using 1(1) same_conf_trans [OF 1(2)] by auto
qed (simp add: restrict_map_def)

lemma Clear_all:
  assumes "tracked d bs w C {}"
  obtains bs' w' where "buckets_Clear d bs w = (None, bs', w')" "same_conf bs bs'" "tracked d bs' w' Map.empty {}" "outside bs w w'"
proof -
  have "distinct (tree_keys d bs)" using view_sorted(2) by (simp add: tree_keys_def)
  moreover have "C |` (- set (tree_keys d bs)) = Map.empty" using keys_dom [OF assms] by (auto simp: restrict_map_def)
  ultimately show ?thesis
    using clear_loop_ok [OF assms] keys_dom [OF assms] that by (metis buckets_Clear_def buckets_clear_def order_refl)
qed

lemma tracked_empty:
  assumes "tracked d bs w Map.empty {}"
  shows "tree_keys d bs = []" "queue_items d f bs w = []" "node_at w (buckPath bs key @ q) = None"
proof -
  show k: "tree_keys d bs = []" using keys_dom [OF assms] by simp
  show "queue_items d f bs w = []" by (simp add: queue_items_def k)
  have "entry_ok d bs w key None (tree_get d key bs)" using assms by (simp add: tracked_def)
  then show "node_at w (buckPath bs key @ q) = None" by simp
qed

end

text \<open>
  C14 (clear): clearing a collection in order succeeds; afterwards no fork has an item, no bucket is
  known, none of the bucket directories exists any more, and the collection is in order.
\<close>

theorem buckets_Clear_empty:
  assumes "queue_deps d" "buckets_ok d bs w"
  shows "\<exists>bs' w'. buckets_Clear d bs w = (None, bs', w') \<and> buckets_ok d bs' w' \<and> tree_keys d bs' = [] \<and>
    (\<forall>f. queue_items d f bs' w' = []) \<and> (\<forall>key q. node_at w' (buckPath bs key @ q) = None) \<and> buckets_Forks bs' = buckets_Forks bs"
proof -
  obtain C where "tracked d bs w C {}" using assms(2) by (auto simp: buckets_ok_def)
  then obtain bs' w' where p: "buckets_Clear d bs w = (None, bs', w')" "same_conf bs bs'" "tracked d bs' w' Map.empty {}"
    by (rule queue_deps.Clear_all [OF assms(1)])
  note e = queue_deps.tracked_empty [OF assms(1) p(3)]
  show ?thesis using p e held_conf(3) [OF p(2)]
    by (intro exI [of _ bs'] exI [of _ w']) (auto simp: buckets_ok_def buckets_Forks_def same_conf_def)
qed

section \<open>Popping from one bucket\<close>

lemma volume_append: "volume (rs @ rs') = volume rs + volume rs'"
  by (simp add: volume_def)

context queue_deps
begin

text \<open>A logged step of one index keeps the bucket in order, if it adds no items.\<close>

lemma held_logged:
  assumes h: "held d bs w key b its" and fl: "filed d bs w key b" and f: "map_of (b_indexes b) fork = Some idx"
    and lg: "logged (d_index d) locs idx w idx' w'" "\<forall>loc\<in>set locs. rec_ok loc"
    and b': "b' = put_index fork idx' b" and ok': "bucket_ok (d_index d) its b' w'"
    and sub: "set (fork_items (d_index d) b' fork) \<subseteq> set (fork_items (d_index d) b fork)"
  shows "held d bs w' key b' its" "\<not> bucket_AllEmpty b' \<Longrightarrow> filed d bs w' key b'" "only_at (buckPath bs key) w w'"
    "\<And>g. g \<noteq> fork \<Longrightarrow> fork_items (d_index d) b' g = fork_items (d_index d) b g"
proof -
  let ?bt = "d_index d" and ?dir = "buckPath bs key"
  have ok: "bucket_ok ?bt its b w" and dir: "b_dir b = ?dir" and names: "fst ` set (b_indexes b) = fork_names bs"
    and mm: "log_mmap (b_log b) \<noteq> []" and bk: "b_key b = key"
    using h by (simp_all add: held_def)
  have split: "\<forall>fork. \<forall>it\<in>set (fork_items ?bt b fork). split_fn (bs_opts bs) (item_Key it) = key"
    using h unfolding held_def by blast
  have m: "map_of (b_indexes b') = (map_of (b_indexes b))(fork \<mapsto> idx')" by (simp add: b' put_index_def update_conv')
  have p: "wr_path (bi_Log idx) = idxPath ?dir fork" using bucket_okD(6) [OF ok f] dir by (simp add: fork_ok_def)
  have fin: "fork \<in> fst ` set (b_indexes b)" using f by (metis map_of_eq_None_iff option.distinct(1))
  have names': "fst ` set (b_indexes b') = fork_names bs"
    using arg_cong [OF m, of dom] names fin by (simp add: dom_map_of_conv_image_fst insert_absorb)
  note l = loggedD [OF lg(1)]
  show other: "fork_items ?bt b' g = fork_items ?bt b g" if "g \<noteq> fork" for g
    using that m by (simp add: fork_items_def b' put_index_def split: option.split)
  have nodes: "\<forall>q. q \<notin> bucket_files b \<longrightarrow> node_at w' q = node_at w q"
    using l(6) p fin dir by (auto simp: bucket_files_def)
  note n = held_nodes [OF h nodes]
  show "only_at ?dir w w'" by (rule n(3) [OF l(3)])
  have files: "bucket_files b' = bucket_files b" using names names' by (intro bucket_files_cong) (simp_all add: b' put_index_def)
  have split': "\<forall>g. \<forall>it\<in>set (fork_items ?bt b' g). split_fn (bs_opts bs) (item_Key it) = key"
    using split sub other by (metis subsetD)
  show "held d bs w' key b' its"
    unfolding held_def files using ok' mm names' dir bk n(1,2) split' by (simp add: b' put_index_def)
  obtain rs old where rs: "map fst rs = locs" "file_at w (idxPath ?dir fork) = Some old"
    "wrote w (idxPath ?dir fork) (old @ enc_recs rs) w'" using lg(1) p by (auto simp: logged_def)
  have ro: "\<forall>(loc, t) \<in> set rs. rec_ok loc" using lg(2) rs(1) by (metis (no_types, lifting) case_prodI2 fst_conv image_eqI list.set_map)
  assume ne: "\<not> bucket_AllEmpty b'"
  have "\<exists>rs. file_at w' (idxPath ?dir g) = Some (enc_recs rs) \<and> (\<forall>(loc, t) \<in> set rs. rec_ok loc) \<and> 0 < volume rs"
    if g: "g \<in> fork_names bs" for g
  proof -
    obtain rs0 where rs0: "file_at w (idxPath ?dir g) = Some (enc_recs rs0)" "\<forall>(loc, t) \<in> set rs0. rec_ok loc" "0 < volume rs0"
      using fl g unfolding filed_def by blast
    show ?thesis
    proof (cases "g = fork")
      case True
      then have "file_at w' (idxPath ?dir g) = Some (enc_recs (rs0 @ rs))" using rs rs0(1) by (simp add: wrote_file_at)
      then show ?thesis using rs0(2,3) ro by (intro exI [of _ "rs0 @ rs"]) (auto simp: volume_append)
    next
      case False
      then show ?thesis using rs0 rs(3) by (intro exI [of _ rs0]) (simp add: wrote_file_at)
    qed
  qed
  then show "filed d bs w' key b'" using ne by (simp add: filed_def)
qed

text \<open>A callback that collects what it gets and asks to pop, as that of \<^verbatim>\<open>PopCopy\<close>\<close>

lemma Read_tx_pop:
  assumes h: "held d bs w key b its" and fl: "filed d bs w key b" and get: "tree_get d key bs = Some (Some b)"
    and f: "f \<in> fork_names bs" and n: "0 < n" and fn: "\<And>x items. fn x items = TxReturn (x @ items) ReadOpPop None"
  obtains out b' bs' w' where "bucket_Read_tx d key n f fn x b bs w = (Ret None, x @ out, b', bs', w')"
    "bs' = bs \<or> bs' = put_bucket d key b' bs" "tree_get d key bs' = Some (Some b')" "held d bs w' key b' its"
    "\<not> bucket_AllEmpty b' \<Longrightarrow> filed d bs w' key b'" "only_at (buckPath bs key) w w'" "bs_closed bs' = bs_closed bs"
    "sorted (keys_of out)" "length out = min (nat n) (length (fork_items (d_index d) b f))"
    "mset (fork_items (d_index d) b f) = mset out + mset (fork_items (d_index d) b' f)"
    "\<forall>x\<in>set out. \<forall>y\<in>set (fork_items (d_index d) b' f). item_Key x \<le> item_Key y"
    "\<And>g. g \<noteq> f \<Longrightarrow> fork_items (d_index d) b' g = fork_items (d_index d) b g"
proof -
  let ?bt = "d_index d"
  have ok: "bucket_ok ?bt its b w" and names: "fst ` set (b_indexes b) = fork_names bs" using h by (simp_all add: held_def)
  have nf: "w_faults w = []" by (rule bucket_okD(1) [OF ok])
  obtain idx where idx: "map_of (b_indexes b) f = Some idx" using f names by (metis map_of_eq_None_iff not_None_eq)
  have deref: "deref d key (length (bs_closed bs)) b bs = (False, b)" using get by (simp add: deref_def)
  show ?thesis
  proof (rule idx.Read_parts [OF ok idx n])
    fix it out
    assume p: "bucket_peek ?bt b n [] (bi_Mem idx) = (it, out, int (length out), None)"
      "length out = min (nat n) (length (fork_items ?bt b f))" "sorted (keys_of out)" "it \<noteq> Some []"
      "it = None \<Longrightarrow> out = [] \<and> fork_items ?bt b f = []"
      "\<And>iters. it = Some iters \<Longrightarrow> \<exists>idx' w'. popSync ?bt iters idx w = (Ret None, idx', w') \<and>
         (\<exists>locs. logged ?bt locs idx w idx' w' \<and> (\<forall>loc\<in>set locs. rec_ok loc)) \<and>
         bucket_ok ?bt its (put_index f idx' b) w' \<and>
         mset (fork_items ?bt b f) = mset out + mset (fork_items ?bt (put_index f idx' b) f) \<and>
         (\<forall>x\<in>set out. \<forall>y\<in>set (fork_items ?bt (put_index f idx' b) f). item_Key x \<le> item_Key y)"
    have read: "bucket_Read_tx d key n f fn x b bs w =
        (case read_pop d key f it (False, b) bs w of (r, b, bs, w) \<Rightarrow> (r, x @ out, b, bs, w))"
      using n idx p(1) fn deref by (auto simp: bucket_Read_tx_def idxForFork_def split: prod.split)
    show ?thesis
    proof (cases it)
      case None
      then have "bucket_Read_tx d key n f fn x b bs w = (Ret None, x @ out, b, bs, w)" using read by (simp add: read_pop_def)
      then show ?thesis using that [of out b bs w] p(2,3) p(5) [OF None] get h fl nf by (simp add: only_at_def)
    next
      case (Some iters)
      obtain idx' w' locs where q: "popSync ?bt iters idx w = (Ret None, idx', w')"
        "logged ?bt locs idx w idx' w'" "\<forall>loc\<in>set locs. rec_ok loc" "bucket_ok ?bt its (put_index f idx' b) w'"
        "mset (fork_items ?bt b f) = mset out + mset (fork_items ?bt (put_index f idx' b) f)"
        "\<forall>x\<in>set out. \<forall>y\<in>set (fork_items ?bt (put_index f idx' b) f). item_Key x \<le> item_Key y"
        using p(6) [OF Some] by blast
      define b' where "b' = put_index f idx' b"
      have sub: "set (fork_items ?bt b' f) \<subseteq> set (fork_items ?bt b f)"
        using q(5) unfolding b'_def by (metis mset_subset_eq_add_right set_mset_mono set_mset_mset)
      note hl = held_logged [OF h fl idx q(2,3) b'_def q(4) [folded b'_def] sub]
      have "bucket_Read_tx d key n f fn x b bs w = (Ret None, x @ out, b', put_bucket d key b' bs, w')"
        using read Some p(4) idx q(1) by (simp add: read_pop_def idxForFork_def b'_def Let_def)
      moreover have "tree_get d key (put_bucket d key b' bs) = Some (Some b')" by (simp add: put_bucket_def)
      moreover have "bs_closed (put_bucket d key b' bs) = bs_closed bs" by (simp add: put_bucket_def tree_set_def)
      ultimately show ?thesis
        using that [of out b' "put_bucket d key b' bs" w'] hl p(2,3) q(5,6) unfolding b'_def [symmetric] by blast
    qed
  qed
qed

end

section \<open>Popping from all buckets\<close>

context queue_deps
begin

text \<open>The callback of \<^verbatim>\<open>iter\<close> on one bucket\<close>

lemma read_bucket_pop:
  assumes t: "tracked d bs w C {key}" and get: "tree_get d key bs = Some (Some b)"
    and h: "held d bs w key b its" and fl: "filed d bs w key b" and f: "f \<in> fork_names bs"
    and n: "0 \<le> n" "n < 2 ^ 63" and fn: "\<And>x items. fn x items = TxReturn (x @ items) ReadOpPop None"
    and len: "\<forall>g. length (fork_items (d_index d) b g) < 2 ^ 63"
  obtains out bs' w' C' where
    "read_bucket d f fn key (Some b) (n, x) bs w =
       (Ret (if n \<le> int (length out) then Some ErrIterStop else None), (n - int (length out), x @ out), bs', w')"
    "same_conf bs bs'" "tracked d bs' w' C' {}" "only_at (buckPath bs key) w w'" "\<And>k. k \<noteq> key \<Longrightarrow> C' k = C k"
    "sorted (keys_of out)" "length out = min (nat n) (length (fork_items (d_index d) b f))"
    "mset (fork_items (d_index d) b f) = mset out + mset (c_items d C' key f)"
    "\<forall>x\<in>set out. \<forall>y\<in>set (c_items d C' key f). item_Key x \<le> item_Key y"
    "\<And>g. g \<noteq> f \<Longrightarrow> c_items d C' key g = fork_items (d_index d) b g"
proof -
  let ?bt = "d_index d"
  have ok: "bucket_ok ?bt its b w" and names: "fst ` set (b_indexes b) = fork_names bs" using h by (simp_all add: held_def)
  have nf: "w_faults w = []" by (rule bucket_okD(1) [OF ok])
  have known: "map_of (b_indexes b) f \<noteq> None" using f names by (simp add: map_of_eq_None_iff)
  have lenB: "bucket_Len b f = int (length (fork_items ?bt b f))"
    using idx.bucket_Len_items [OF ok known] len by blast
  show ?thesis
  proof (cases "n = 0")
    case True
    have ne: "\<not> bucket_AllEmpty b" using fl by (simp add: filed_def)
    have "tracked d bs w (C(key \<mapsto> (b, its))) {}" by (rule tracked_done [OF t get h fl])
    moreover have "read_bucket d f fn key (Some b) (n, x) bs w = (Ret (Some ErrIterStop), (0, x), bs, w)"
      using True ne by (simp add: read_bucket_def bucket_Read_tx_def Let_def wrap64_id)
    ultimately show ?thesis using that [of "[]" bs w "C(key \<mapsto> (b, its))"] True nf
      by (simp add: only_at_def c_items_def keys_of_def)
  next
    case False
    then have pos: "0 < n" using n(1) by simp
    obtain out b' bs1 w1 where r: "bucket_Read_tx d key n f fn x b bs w = (Ret None, x @ out, b', bs1, w1)"
      "bs1 = bs \<or> bs1 = put_bucket d key b' bs" "tree_get d key bs1 = Some (Some b')" "held d bs w1 key b' its"
      "\<not> bucket_AllEmpty b' \<Longrightarrow> filed d bs w1 key b'" "only_at (buckPath bs key) w w1"
      "sorted (keys_of out)" "length out = min (nat n) (length (fork_items ?bt b f))"
      "mset (fork_items ?bt b f) = mset out + mset (fork_items ?bt b' f)"
      "\<forall>x\<in>set out. \<forall>y\<in>set (fork_items ?bt b' f). item_Key x \<le> item_Key y"
      "\<And>g. g \<noteq> f \<Longrightarrow> fork_items ?bt b' g = fork_items ?bt b g"
      by (rule Read_tx_pop [OF h fl get f pos fn]) blast
    have conf: "same_conf bs bs1" using r(2) by (auto simp: same_conf_def put_bucket_def tree_set_def)
    have h1: "held d bs1 w1 key b' its" using r(4) held_conf(1) [OF conf] by simp
    have t1: "tracked d bs1 w1 C {key}"
      by (rule tracked_conf [OF tracked_frame [OF t r(6)] conf]) (use r(2) in \<open>auto simp: put_bucket_def\<close>)
    have ok1: "bucket_ok ?bt its b' w1" and names1: "fst ` set (b_indexes b') = fork_names bs" using r(4) by (simp_all add: held_def)
    have lf: "length (fork_items ?bt b f) = length out + length (fork_items ?bt b' f)"
      using r(9) by (metis size_mset size_union)
    have len1: "\<forall>g. length (fork_items ?bt b' g) < 2 ^ 63"
    proof
      fix g
      have "length (fork_items ?bt b' g) \<le> length (fork_items ?bt b g)" using lf r(11) by (cases "g = f") simp_all
      then show "length (fork_items ?bt b' g) < 2 ^ 63" using len [rule_format, of g] by (rule le_less_trans)
    qed
    have known1: "map_of (b_indexes b') f \<noteq> None" using f names1 by (simp add: map_of_eq_None_iff)
    have "bucket_Len b' f = int (length (fork_items ?bt b' f))" using idx.bucket_Len_items [OF ok1 known1] len1 by blast
    then have diff: "bucket_Len b f - bucket_Len b' f = int (length out)" using lenB lf by simp
    have lo: "int (length out) \<le> n" using r(8) pos by simp
    then have wr: "wrap64 (bucket_Len b f - bucket_Len b' f) = int (length out)" "wrap64 (n - int (length out)) = n - int (length out)"
      unfolding diff using n pos by (simp_all add: wrap64_id)
    define C1 where "C1 = (if bucket_AllEmpty b' then C(key := None) else C(key \<mapsto> (b', its)))"
    have items: "c_items d C1 key g = fork_items ?bt b' g" for g
      using idx.AllEmpty_items [OF ok1 len1] by (simp add: C1_def c_items_def)
    have "\<exists>bs2 w2. (if bucket_AllEmpty b' then buckets_delete d key bs1 w1 else (None, bs1, w1)) = (None, bs2, w2) \<and>
        same_conf bs1 bs2 \<and> tracked d bs2 w2 C1 {} \<and> only_at (buckPath bs key) w1 w2"
    proof (cases "bucket_AllEmpty b'")
      case True
      obtain bs2 w2 where "buckets_delete d key bs1 w1 = (None, bs2, w2)" "same_conf bs1 bs2"
        "tracked d bs2 w2 (C(key := None)) {}" "only_at (buckPath bs1 key) w1 w2"
        by (rule delete_ok [OF t1 r(3) disjI2 [OF HOL.refl] h1])
      then show ?thesis using True held_conf(3) [OF conf] by (simp add: C1_def)
    next
      case False
      have "filed d bs1 w1 key b'" using r(5) [OF False] held_conf(2) [OF conf] by simp
      then have "tracked d bs1 w1 (C(key \<mapsto> (b', its))) {}" by (rule tracked_done [OF t1 r(3) h1])
      then show ?thesis using False bucket_okD(1) [OF ok1] by (simp add: C1_def only_at_def)
    qed
    then obtain bs2 w2 where e: "(if bucket_AllEmpty b' then buckets_delete d key bs1 w1 else (None, bs1, w1)) = (None, bs2, w2)"
      "same_conf bs1 bs2" "tracked d bs2 w2 C1 {}" "only_at (buckPath bs key) w1 w2" by blast
    have "read_bucket d f fn key (Some b) (n, x) bs w =
       (Ret (if n \<le> int (length out) then Some ErrIterStop else None), (n - int (length out), x @ out), bs2, w2)"
      using r(1) e(1) wr by (simp add: read_bucket_def Let_def)
    then show ?thesis
      using that [of out bs2 w2 C1] same_conf_trans [OF conf e(2)] e(3) only_at_trans [OF r(6) e(4)] r(7-11)
      by (simp add: items) (simp add: C1_def)
  qed
qed

end

text \<open>The items of some buckets\<close>

definition all_at :: "('m, 't) deps \<Rightarrow> (Key \<rightharpoonup> 'm bucket \<times> Items) \<Rightarrow> ForkName \<Rightarrow> Key list \<Rightarrow> Items" where
  "all_at d C f ks = concat (map (\<lambda>k. c_items d C k f) ks)"

lemma all_at_simps [simp]: "all_at d C f [] = []" "all_at d C f (k # ks) = c_items d C k f @ all_at d C f ks"
  by (simp_all add: all_at_def)

lemma all_at_cong: "(\<And>k. k \<in> set ks \<Longrightarrow> C' k = C k) \<Longrightarrow> all_at d C' f ks = all_at d C f ks"
  by (simp add: all_at_def c_items_def cong: map_cong)

lemma iter_fetch_load:
  "tree_get d key bs = Some v \<Longrightarrow> forKey d key bs w = (Inr b, bs', w') \<Longrightarrow>
     iter_fetch d load key v bs w = (Some (Inr (Some b)), bs', w')"
  by (cases v) (auto simp: iter_fetch_def forKey_def)

lemma sorted_keys_of_append:
  "sorted (keys_of (xs @ ys)) \<longleftrightarrow> sorted (keys_of xs) \<and> sorted (keys_of ys) \<and> (\<forall>x\<in>set xs. \<forall>y\<in>set ys. item_Key x \<le> item_Key y)"
  by (auto simp: keys_of_def sorted_append)

context queue_deps
begin

lemma c_items_split:
  assumes "tracked d bs w C {}" "it \<in> set (c_items d C k f)"
  shows "split_fn (bs_opts bs) (item_Key it) = k"
proof -
  obtain b its where C: "C k = Some (b, its)" using assms(2) by (cases "C k") (auto simp: c_items_def)
  have "entry_ok d bs w k (C k) (tree_get d k bs)" using assms(1) by (simp add: tracked_def)
  then have "held d bs w k b its" using C by simp
  then have "\<forall>fork. \<forall>it\<in>set (fork_items (d_index d) b fork). split_fn (bs_opts bs) (item_Key it) = k"
    unfolding held_def by blast
  then show ?thesis using assms(2) C by (simp add: c_items_def)
qed

text \<open>The items of a bucket have smaller keys than those of later buckets.\<close>

lemma bucket_order:
  assumes "bucket_split (split_fn (bs_opts bs))" "tracked d bs w C {}" "tracked d bs' w' C' {}" "same_conf bs bs'"
    "\<forall>k'\<in>set ks. k < k'" "x \<in> set (c_items d C k f)" "y \<in> set (all_at d C' f ks)"
  shows "item_Key x \<le> item_Key y"
proof -
  obtain k' where k': "k' \<in> set ks" "y \<in> set (c_items d C' k' f)" using assms(7) by (auto simp: all_at_def)
  have "split_fn (bs_opts bs) (item_Key y) = k'" using c_items_split [OF assms(3) k'(2)] assms(4) by (simp add: same_conf_def)
  moreover have "split_fn (bs_opts bs) (item_Key x) = k" by (rule c_items_split [OF assms(2,6)])
  ultimately show ?thesis using bucket_split.separated [OF assms(1), of "item_Key x" "item_Key y"] assms(5) k'(1) by simp
qed

text \<open>
  The whole iteration over the buckets \<open>ks\<close>: what it pops are their smallest items in order; what it
  leaves comes after them.
\<close>

definition popped :: "ForkName \<Rightarrow> int \<Rightarrow> Key list \<Rightarrow> (Key \<rightharpoonup> 'm bucket \<times> Items) \<Rightarrow> Items \<Rightarrow> (Key \<rightharpoonup> 'm bucket \<times> Items) \<Rightarrow> bool" where
  "popped f n ks C out C' \<longleftrightarrow>
     sorted (keys_of out) \<and> length out = min (nat n) (length (all_at d C f ks)) \<and>
     mset (all_at d C f ks) = mset out + mset (all_at d C' f ks) \<and>
     (\<forall>x\<in>set out. \<forall>y\<in>set (all_at d C' f ks). item_Key x \<le> item_Key y) \<and>
     (\<forall>k. k \<notin> set ks \<longrightarrow> C' k = C k) \<and> (\<forall>k g. g \<noteq> f \<longrightarrow> c_items d C' k g = c_items d C k g)"

lemma popped_Nil: "popped f n [] C [] C"
  by (simp add: popped_def keys_of_def)

text \<open>One bucket gave enough.\<close>

lemma popped_stop:
  assumes "popped f n [k] C out C1" "n \<le> int (length out)" "k \<notin> set ks"
    "\<And>x y. x \<in> set (c_items d C k f) \<Longrightarrow> y \<in> set (all_at d C1 f ks) \<Longrightarrow> item_Key x \<le> item_Key y"
  shows "popped f n (k # ks) C out C1"
proof -
  have same: "all_at d C1 f ks = all_at d C f ks" using assms(1,3) by (intro all_at_cong) (auto simp: popped_def)
  have "mset (c_items d C k f) = mset out + mset (c_items d C1 k f)" using assms(1) by (simp add: popped_def)
  then have "set out \<subseteq> set (c_items d C k f)" by (metis mset_subset_eq_add_left set_mset_mono set_mset_mset)
  then show ?thesis using assms same by (auto simp: popped_def)
qed

text \<open>One bucket is drained, the next ones give the rest.\<close>

lemma popped_Cons:
  assumes 1: "popped f n [k] C out1 C1" and more: "int (length out1) < n"
    and 2: "popped f (n - int (length out1)) ks C1 out2 C'" and k: "k \<notin> set ks"
    and ord: "\<And>x y. x \<in> set (c_items d C k f) \<Longrightarrow> y \<in> set (all_at d C1 f ks) \<Longrightarrow> item_Key x \<le> item_Key y"
  shows "popped f n (k # ks) C (out1 @ out2) C'"
proof -
  have m1: "mset (c_items d C k f) = mset out1 + mset (c_items d C1 k f)" and l1: "length out1 = min (nat n) (length (c_items d C k f))"
    using 1 by (simp_all add: popped_def)
  have all1: "length out1 = length (c_items d C k f)" using l1 more by simp
  have "length (c_items d C k f) = length out1 + length (c_items d C1 k f)" using m1 by (metis size_mset size_union)
  then have drained: "c_items d C1 k f = []" using all1 by simp
  have C': "C' k = C1 k" using 2 k by (simp add: popped_def)
  then have drained': "c_items d C' k f = []" using drained by (simp add: c_items_def)
  have same: "all_at d C1 f ks = all_at d C f ks" using 1 k by (intro all_at_cong) (auto simp: popped_def)
  have m2: "mset (all_at d C1 f ks) = mset out2 + mset (all_at d C' f ks)" using 2 by (simp add: popped_def)
  have s1: "set out1 = set (c_items d C k f)" using m1 drained by (metis add.right_neutral mset.simps(1) set_mset_mset)
  have s2: "set out2 \<subseteq> set (all_at d C1 f ks)" "set (all_at d C' f ks) \<subseteq> set (all_at d C1 f ks)"
    using m2 by (metis mset_subset_eq_add_left set_mset_mono set_mset_mset) (metis m2 mset_subset_eq_add_right set_mset_mono set_mset_mset)
  have "sorted (keys_of (out1 @ out2))"
    unfolding sorted_keys_of_append using 1 2 s1 s2(1) ord by (auto simp: popped_def)
  moreover have "length (out1 @ out2) = min (nat n) (length (all_at d C f (k # ks)))"
    using 2 all1 same more by (auto simp: popped_def min_def nat_diff_distrib)
  moreover have "\<forall>x\<in>set (out1 @ out2). \<forall>y\<in>set (all_at d C' f (k # ks)). item_Key x \<le> item_Key y"
    using 2 s1 s2(2) ord drained' by (auto simp: popped_def)
  ultimately show ?thesis
    using 1 2 m1 m2 drained drained' same by (auto simp: popped_def)
qed

end

context queue_deps
begin

lemma pop_loop:
  assumes "tracked d bs w C {}" "bucket_split (split_fn (bs_opts bs))" "sorted_wrt (<) ks" "set ks \<subseteq> dom C"
    "f \<in> fork_names bs" "0 \<le> n" "n < 2 ^ 63" "\<And>x items. fn x items = TxReturn (x @ items) ReadOpPop None"
    "\<forall>k\<in>set ks. small bs w k" "0 < d_page d" "128 * d_page d < 2 ^ 62" "\<forall>k g. length (c_items d C k g) < 2 ^ 63"
  shows "\<exists>out m bs' w' C'. iter_loop d load (read_bucket d f fn) ks (n, x) bs w = (Ret None, (m, x @ out), bs', w') \<and>
    same_conf bs bs' \<and> tracked d bs' w' C' {} \<and> popped f n ks C out C' \<and> outside bs w w'"
  using assms(1-7,9-12)
proof (induction ks arbitrary: bs w C n x)
  case Nil
  then show ?case using popped_Nil by (intro exI [of _ "[]"] exI [of _ n] exI [of _ bs] exI [of _ w] exI [of _ C]) simp
next
  case (Cons key ks)
  have later: "\<forall>k'\<in>set ks. key < k'" using Cons.prems(3) by simp
  then have notin: "key \<notin> set ks" by auto
  have Ck: "C key \<noteq> None" using Cons.prems(4) by auto
  have sm: "small bs w key" using Cons.prems(8) by simp
  obtain b its bs1 w1 where k: "forKey d key bs w = (Inr b, bs1, w1)" "same_conf bs bs1" "tracked d bs1 w1 C {key}"
    "tree_get d key bs1 = Some (Some b)" "held d bs1 w1 key b its" "\<And>g. fork_items (d_index d) b g = c_items d C key g"
    "filed d bs1 w1 key b" "only_at (buckPath bs key) w w1"
    using forKey_ok [OF Cons.prems(1) sm Cons.prems(9,10)] Ck by metis
  obtain v where v: "tree_get d key bs = Some v"
    using Cons.prems(1,4) keys_dom [OF Cons.prems(1)] tree_get_keys [of key bs] by auto
  have f1: "f \<in> fork_names bs1" using Cons.prems(5) held_conf(4) [OF k(2)] by simp
  have len: "\<forall>g. length (fork_items (d_index d) b g) < 2 ^ 63" unfolding k(6) using Cons.prems(11) by blast
  obtain out bs2 w2 C1 where r: "read_bucket d f fn key (Some b) (n, x) bs1 w1 =
       (Ret (if n \<le> int (length out) then Some ErrIterStop else None), (n - int (length out), x @ out), bs2, w2)"
    "same_conf bs1 bs2" "tracked d bs2 w2 C1 {}" "only_at (buckPath bs1 key) w1 w2" "\<And>k. k \<noteq> key \<Longrightarrow> C1 k = C k"
    "sorted (keys_of out)" "length out = min (nat n) (length (fork_items (d_index d) b f))"
    "mset (fork_items (d_index d) b f) = mset out + mset (c_items d C1 key f)"
    "\<forall>x\<in>set out. \<forall>y\<in>set (c_items d C1 key f). item_Key x \<le> item_Key y"
    "\<And>g. g \<noteq> f \<Longrightarrow> c_items d C1 key g = fork_items (d_index d) b g"
    using read_bucket_pop [OF k(3,4,5,7) f1 Cons.prems(6,7) assms(8) len] by blast
  have conf: "same_conf bs bs2" by (rule same_conf_trans [OF k(2) r(2)])
  have oa: "only_at (buckPath bs key) w w2" using only_at_trans [OF k(8)] r(4) held_conf(3) [OF k(2)] by simp
  have others: "c_items d C1 k g = c_items d C k g" if "g \<noteq> f" for k g
    using r(5,10) k(6) that by (cases "k = key") (simp_all add: c_items_def)
  have p1: "popped f n [key] C out C1" using r(5-9) others unfolding popped_def k(6) by simp
  have ord: "item_Key x \<le> item_Key y" if "x \<in> set (c_items d C key f)" "y \<in> set (all_at d C1 f ks)" for x y
    by (rule bucket_order [OF Cons.prems(2,1) r(3) conf later that])
  have step: "iter_loop d load (read_bucket d f fn) (key # ks) (n, x) bs w =
      (if n \<le> int (length out) then (Ret None, (n - int (length out), x @ out), bs2, w2)
       else iter_loop d load (read_bucket d f fn) ks (n - int (length out), x @ out) bs2 w2)"
    using v iter_fetch_load [OF v k(1)] r(1) by simp
  show ?case
  proof (cases "n \<le> int (length out)")
    case True
    then show ?thesis using step conf r(3) popped_stop [OF p1 True notin ord] only_at_outside [OF oa]
      by (intro exI [of _ out] exI [of _ "n - int (length out)"] exI [of _ bs2] exI [of _ w2] exI [of _ C1]) simp
  next
    case False
    have "\<exists>out2 m bs' w' C'. iter_loop d load (read_bucket d f fn) ks (n - int (length out), x @ out) bs2 w2 =
        (Ret None, (m, (x @ out) @ out2), bs', w') \<and>
      same_conf bs2 bs' \<and> tracked d bs' w' C' {} \<and> popped f (n - int (length out)) ks C1 out2 C' \<and> outside bs2 w2 w'"
    proof (rule Cons.IH [OF r(3)])
      show "bucket_split (split_fn (bs_opts bs2))" "f \<in> fork_names bs2"
        using Cons.prems(2,5) held_conf(4,5) [OF conf] by simp_all
      show "set ks \<subseteq> dom C1"
      proof
        fix k'
        assume "k' \<in> set ks"
        then have "k' \<in> dom C" "k' \<noteq> key" using Cons.prems(4) notin by auto
        then show "k' \<in> dom C1" using r(5) [of k'] by (simp add: domIff)
      qed
      show "\<forall>k\<in>set ks. small bs2 w2 k"
      proof
        fix k'
        assume "k' \<in> set ks"
        then have "small bs w2 k'" using Cons.prems(8) only_at_other(3) [OF oa, of k'] notin by auto
        then show "small bs2 w2 k'" by (simp add: small_def held_conf [OF conf])
      qed
      show "\<forall>k g. length (c_items d C1 k g) < 2 ^ 63"
      proof (intro allI)
        fix k g
        have "length (c_items d C1 k g) \<le> length (c_items d C k g)"
        proof (cases "k = key \<and> g = f")
          case True
          then show ?thesis using r(8) k(6) by (metis le_add2 size_mset size_union)
        next
          case False
          then show ?thesis using others r(5) by (cases "g = f") (simp_all add: c_items_def)
        qed
        then show "length (c_items d C1 k g) < 2 ^ 63" using Cons.prems(11) by (meson le_less_trans)
      qed
    qed (use Cons.prems(3,6,7,9,10) False in simp_all)
    then obtain out2 m bs' w' C' where i: "iter_loop d load (read_bucket d f fn) ks (n - int (length out), x @ out) bs2 w2 =
        (Ret None, (m, (x @ out) @ out2), bs', w')"
      "same_conf bs2 bs'" "tracked d bs' w' C' {}" "popped f (n - int (length out)) ks C1 out2 C'" "outside bs2 w2 w'" by blast
    have "outside bs w w'" using outside_trans [OF only_at_outside [OF oa]] i(5) outside_conf [OF conf] by metis
    moreover
    have "popped f n (key # ks) C (out @ out2) C'" by (rule popped_Cons [OF p1 _ i(4) notin ord]) (use False in simp)
    ultimately show ?thesis using step False i same_conf_trans [OF conf i(2)]
      by (intro exI [of _ "out @ out2"] exI [of _ m] exI [of _ bs'] exI [of _ w'] exI [of _ C']) simp
  qed
qed

end

context queue_deps
begin

lemma all_at_queue:
  assumes "tracked d bs w C {}" "f \<in> fork_names bs"
  shows "all_at d C f (tree_keys d bs) = queue_items d f bs w"
  by (simp add: all_at_def queue_items_def items_at_c [OF assms])

lemma mset_all_at: "distinct ks \<Longrightarrow> mset (all_at d C f ks) = (\<Sum>k\<in>set ks. mset (c_items d C k f))"
  by (simp add: all_at_def mset_concat comp_def sum_list_distinct_conv_sum_set)

lemma Read_pops:
  assumes t: "tracked d bs w C {}" and sp: "bucket_split (split_fn (bs_opts bs))"
    and f: "f \<in> fork_names bs" and n: "n < 2 ^ 63" and fn: "\<And>x items. fn x items = TxReturn (x @ items) ReadOpPop None"
    and sm: "\<forall>k\<in>set (tree_keys d bs). small bs w k" and pg: "0 < d_page d" "128 * d_page d < 2 ^ 62"
    and len: "\<forall>g\<in>fork_names bs. length (queue_items d g bs w) < 2 ^ 63"
  obtains out bs' w' C' where "buckets_Read d n f fn x bs w = (Ret None, x @ out, bs', w')" "same_conf bs bs'"
    "tracked d bs' w' C' {}" "sorted (keys_of out)"
    "length out = (if n < 0 then length (queue_items d f bs w) else min (nat n) (length (queue_items d f bs w)))"
    "mset (queue_items d f bs w) = mset out + mset (queue_items d f bs' w')"
    "\<forall>x\<in>set out. \<forall>y\<in>set (queue_items d f bs' w'). item_Key x \<le> item_Key y"
    "\<forall>g\<in>fork_names bs. g \<noteq> f \<longrightarrow> mset (queue_items d g bs' w') = mset (queue_items d g bs w)" "outside bs w w'"
proof -
  define m where "m = (if n < 0 then 2 ^ 63 - 1 else n)"
  let ?ks = "tree_keys d bs"
  have m: "0 \<le> m" "m < 2 ^ 63" using n by (auto simp: m_def)
  have ks: "sorted_wrt (<) ?ks" "distinct ?ks" using view_sorted by (simp_all add: tree_keys_def)
  have dom: "set ?ks = dom C" by (rule keys_dom [OF t])
  have lens: "\<forall>k g. length (c_items d C k g) < 2 ^ 63"
  proof (intro allI)
    fix k g
    show "length (c_items d C k g) < 2 ^ 63"
    proof (cases "g \<in> fork_names bs")
      case True
      then show ?thesis using c_items_le [OF t True, of k] len by (meson le_less_trans)
    qed (simp add: no_c_items [OF t])
  qed
  obtain out l bs' w' C' where p: "iter_loop d load (read_bucket d f fn) ?ks (m, x) bs w = (Ret None, (l, x @ out), bs', w')"
    "same_conf bs bs'" "tracked d bs' w' C' {}" "popped f m ?ks C out C'" "outside bs w w'"
    using pop_loop [OF t sp ks(1) equalityD1 [OF dom] f m fn sm pg lens] by blast
  have sub: "dom C' \<subseteq> set ?ks"
  proof
    fix k
    assume "k \<in> dom C'"
    then show "k \<in> set ?ks" using p(4) dom by (cases "k \<in> set ?ks") (auto simp: popped_def)
  qed
  have after: "mset (queue_items d g bs' w') = mset (all_at d C' g ?ks)" if "g \<in> fork_names bs" for g
    using mset_queue_items [OF p(3) _ _ sub] that held_conf(4) [OF p(2)] mset_all_at [OF ks(2)] by simp
  have set: "set (queue_items d f bs' w') = set (all_at d C' f ?ks)" using after [OF f] by (rule mset_eq_setD)
  note before = all_at_queue [OF t]
  have "buckets_Read d n f fn x bs w = (Ret None, x @ out, bs', w')"
    using p(1) by (simp add: buckets_Read_def buckets_iter_def m_def)
  moreover have "length out = (if n < 0 then length (queue_items d f bs w) else min (nat n) (length (queue_items d f bs w)))"
  proof -
    have "length out = min (nat m) (length (queue_items d f bs w))" using p(4) before [OF f] by (simp add: popped_def)
    moreover have "int (length (queue_items d f bs w)) \<le> 2 ^ 63 - 1" using len f by force
    ultimately show ?thesis by (auto simp: m_def)
  qed
  moreover have "mset (queue_items d g bs' w') = mset (queue_items d g bs w)" if "g \<in> fork_names bs" "g \<noteq> f" for g
  proof -
    have "all_at d C' g ?ks = all_at d C g ?ks" using p(4) that(2) by (simp add: popped_def all_at_def)
    then show ?thesis using after [OF that(1)] before [OF that(1)] by simp
  qed
  ultimately show ?thesis using that p(2-5) after [OF f] set before [OF f] by (simp add: popped_def)
qed

end

text \<open>The fork that a consumer reads from\<close>

definition consumes :: "Consumer \<Rightarrow> ForkName \<Rightarrow> bool" where
  "consumes c f \<longleftrightarrow> (case c of QueueConsumer \<Rightarrow> f = '''' | ForkConsumer fk \<Rightarrow> fork_live fk \<and> fork_name fk = f)"

lemma copy_items_eq: "copy_items op x items = TxReturn (x @ items) op None"
  by (simp add: copy_items_def Items_Copy_def fold_add_sum_list Items_Copy_loop_id)

lemma PopCopy_Read:
  "consumes c f \<Longrightarrow> PopCopy d c n q w =
     (case buckets_Read d n f (copy_items ReadOpPop) [] (q_buckets q) w of
        (r, items, bs, w) \<Rightarrow> (go_bind r (\<lambda>e. Ret (items, e)), q\<lparr>q_buckets := bs\<rparr>, w))"
  by (auto simp: PopCopy_def Consumer_Read_def Queue_Read_def Fork_Read_def consumes_def split: Consumer.splits prod.splits)


section \<open>A concrete queue\<close>

text \<open>A queue with one item in a bucket that is not loaded\<close>

definition re_queue :: "((Key \<times> Location list) list, (Key \<times> (Key \<times> Location list) list bucket option) list) Queue" where
  "re_queue = \<lparr>q_buckets =
     \<lparr>bs_dir = [], bs_tree = [(key_of_int 0, None)], bs_trailers = [], bs_opts = DefaultOptions, bs_forks = [], bs_closed = []\<rparr>\<rparr>"

lemma re_path: "buckPath (q_buckets re_queue) key = [Key_String key]" "buckPath (q_buckets re_queue) (key_of_int 0) = re_dir"
  by (simp_all add: buckPath_def re_queue_def re_dir_def)

lemma re_items: "fork_items alist_btree re_bucket f = (if f = '''' then [wit_item 3] else [])"
  using wit_all_locs re_good(2) by (auto simp: fork_items_def re_bucket_def index_items_def)

lemma re_nodes: "node_at re_world (Key_String key # q) \<noteq> None \<Longrightarrow> key = key_of_int 0 \<and> q \<in> {[], [''dat.log''], [''idx.log'']}"
  by (auto simp: re_world_def re_dir_def node_at_def split: if_splits)

lemma re_names: "fork_names (q_buckets re_queue) = {''''}" "split_fn (bs_opts (q_buckets re_queue)) = ShiftFunc 37"
  by (simp_all add: fork_names_def re_queue_def split_fn_def DefaultOptions_def DefaultBucketSplitConf_def)

lemma demo_index: "d_index demo_deps = alist_btree"
  by (simp add: demo_deps_def)

lemma re_held: "held demo_deps (q_buckets re_queue) re_world (key_of_int 0) re_bucket [wit_item 3]"
proof -
  have "key_int (ShiftFunc 37 (item_Key (wit_item 3))) = key_int (key_of_int 0)"
    by (simp add: wit_item_def key_int_ShiftFunc)
  then have "ShiftFunc 37 (item_Key (wit_item 3)) = key_of_int 0" by (simp only: key_int_inject)
  then have "\<forall>fork. \<forall>it\<in>set (fork_items (d_index demo_deps) re_bucket fork). ShiftFunc 37 (item_Key it) = key_of_int 0"
    by (simp add: re_items demo_index)
  moreover have "\<forall>q. node_at re_world (re_dir @ q) \<noteq> None \<longrightarrow> q = [] \<or> re_dir @ q \<in> bucket_files re_bucket"
    using re_nodes [of "key_of_int 0"]
    by (auto simp: re_dir_def bucket_files_def re_bucket_def idxPath_def dataLogName_def)
  ultimately show ?thesis
    unfolding held_def re_path(2) re_names using re_bucket_ok wit_facts(3)
    by (simp add: demo_index) (simp add: re_bucket_def wit_bucket_def re_world_def re_dir_def node_at_def)
qed

lemma re_filed: "filed demo_deps (q_buckets re_queue) re_world (key_of_int 0) re_bucket"
proof -
  have "\<not> bucket_AllEmpty re_bucket"
    by (simp add: bucket_AllEmpty_iff re_bucket_def wit_idx_def Index_Set_def Index_zero_def Let_def wit_loc_def)
  moreover have "file_at re_world (idxPath re_dir '''') = Some (enc_recs [(wit_loc, 1)])"
    by (simp add: re_world_def re_dir_def file_at_def node_at_def idxPath_def)
  moreover have "rec_ok wit_loc" "0 < volume [(wit_loc, 1)]" by (simp_all add: rec_ok_def wit_loc_def volume_def)
  ultimately show ?thesis
    unfolding filed_def re_path(2) re_names by (auto intro!: exI [of _ "[(wit_loc, 1)]"])
qed

lemma re_tracked: "tracked demo_deps (q_buckets re_queue) re_world [key_of_int 0 \<mapsto> (re_bucket, [wit_item 3])] {}"
proof -
  have "entry_ok demo_deps (q_buckets re_queue) re_world key ([key_of_int 0 \<mapsto> (re_bucket, [wit_item 3])] key)
      (tree_get demo_deps key (q_buckets re_queue))" for key
  proof (cases "key = key_of_int 0")
    case True
    then show ?thesis using re_held re_filed by (simp add: tree_get_def re_queue_def demo_deps_def alist_btree_def)
  next
    case False
    then have "node_at re_world (Key_String key # q) = None" for q using re_nodes [of key q] by blast
    then show ?thesis using False by (simp add: re_path) (simp add: tree_get_def re_queue_def demo_deps_def alist_btree_def)
  qed
  then show ?thesis
    unfolding tracked_def by (simp add: re_world_def) (simp add: re_queue_def ancestors_def node_at_def)
qed

lemma re_queue_ok: "buckets_ok demo_deps (q_buckets re_queue) re_world" "queue_items demo_deps '''' (q_buckets re_queue) re_world = [wit_item 3]"
  "tree_keys demo_deps (q_buckets re_queue) = [key_of_int 0]" "small (q_buckets re_queue) re_world (key_of_int 0)"
proof -
  show "buckets_ok demo_deps (q_buckets re_queue) re_world" unfolding buckets_ok_def using re_tracked by blast
  show k: "tree_keys demo_deps (q_buckets re_queue) = [key_of_int 0]"
    by (simp add: tree_keys_def re_queue_def demo_deps_def alist_btree_def)
  show "queue_items demo_deps '''' (q_buckets re_queue) re_world = [wit_item 3]"
    using demo.items_at_c [OF re_tracked, of "''''"] re_items [of "''''"] demo_index
    by (simp add: queue_items_def k re_names c_items_def)
  show "small (q_buckets re_queue) re_world (key_of_int 0)"
    unfolding small_def re_path(2) re_names by (simp add: contents_def re_world_def re_dir_def file_at_def node_at_def idxPath_def length_enc_loc)
qed

theorem buckets_Clear_empty_witness:
  "\<exists>bs' w'. buckets_Clear demo_deps (q_buckets re_queue) re_world = (None, bs', w') \<and> node_at w' re_dir = None"
  using buckets_Clear_empty [OF demo.queue_deps_axioms re_queue_ok(1)] re_path(2) by (metis append_Nil2)


end
