(* ===== verification/Buckets_Delete.thy ===== *)
theory Buckets_Delete
  imports Buckets_Read Bucket_Delete
begin

text \<open>
  Deleting a range of keys from a whole queue. The buckets that may hold keys of the range are visited
  in order; the ones that are empty afterwards are removed at the end. Until then an emptied bucket is
  parked: in order and known, but without items.
\<close>

section \<open>Emptied buckets\<close>

definition parked :: "('m, 't) deps \<Rightarrow> ('m, 't) buckets \<Rightarrow> world \<Rightarrow> Key \<Rightarrow> bool" where
  "parked d bs w key \<longleftrightarrow>
     (\<exists>b its v. held d bs w key b its \<and> tree_get d key bs = Some v \<and> (v = None \<or> v = Some b))"

text \<open>The entry of a bucket is the same, or the bucket was closed in the meantime.\<close>

definition same_entry :: "('m, 't) deps \<Rightarrow> ('m, 't) buckets \<Rightarrow> ('m, 't) buckets \<Rightarrow> Key \<Rightarrow> bool" where
  "same_entry d bs bs' k \<longleftrightarrow>
     tree_get d k bs' = tree_get d k bs \<or> (\<exists>b. tree_get d k bs = Some (Some b)) \<and> tree_get d k bs' = Some None"

lemma same_entry_trans: "same_entry d bs bs1 k \<Longrightarrow> same_entry d bs1 bs' k \<Longrightarrow> same_entry d bs bs' k"
  unfolding same_entry_def by metis

lemma parked_frame:
  assumes "parked d bs w k" "same_conf bs bs'" "same_entry d bs bs' k" "w_faults w' = []"
    "\<And>q. node_at w' (buckPath bs k @ q) = node_at w (buckPath bs k @ q)"
  shows "parked d bs' w' k"
proof -
  obtain b its v where p: "held d bs w k b its" "tree_get d k bs = Some v" "v = None \<or> v = Some b"
    using assms(1) by (auto simp: parked_def)
  have "held d bs' w' k b its" using held_frame [OF p(1) assms(4,5)] held_conf(1) [OF assms(2)] by simp
  moreover have "tree_get d k bs' = Some None \<or> tree_get d k bs' = Some (Some b)"
    using assms(3) p(2,3) by (auto simp: same_entry_def)
  ultimately show ?thesis unfolding parked_def by blast
qed

context queue_deps
begin

lemma closes_same_entry: "closes d bs bs' \<Longrightarrow> same_entry d bs bs' k"
proof (induction rule: closes.induct)
  case (step bs bs1 key b)
  have "same_entry d bs1 (closed_bucket d key b bs1) k" using step.hyps(2) by (auto simp: same_entry_def closed_get)
  then show ?case using step.IH same_entry_trans by blast
qed (simp add: same_entry_def)

text \<open>\<^verbatim>\<open>forKey\<close> on a bucket that exists, while others are parked\<close>

lemma forKey_known:
  assumes t: "tracked d bs w C X" and key: "key \<notin> X" "C key = Some c" and sm: "small bs w key"
  obtains b its bs' where "forKey d key bs w = (Inr b, bs', w)" "same_conf bs bs'" "tracked d bs' w C (insert key X)"
    "tree_get d key bs' = Some (Some b)" "held d bs' w key b its" "filed d bs' w key b"
    "\<And>f. fork_items (d_index d) b f = c_items d C key f" "\<And>k. k \<noteq> key \<Longrightarrow> same_entry d bs bs' k"
proof -
  obtain b its where C: "C key = Some (b, its)" using key(2) by (cases c) auto
  have nf: "w_faults w = []" and anc: "\<forall>q\<in>set (ancestors (bs_dir bs)). node_at w q = Some Dir" using t by (simp_all add: tracked_def)
  have "entry_ok d bs w key (Some (b, its)) (tree_get d key bs)" using t key(1) C by (metis tracked_def)
  then have e: "tree_get d key bs = Some None \<or> tree_get d key bs = Some (Some b)" and h: "held d bs w key b its" "filed d bs w key b"
    by auto
  have tX: "tracked d bs w C (insert key X)" using t by (simp add: tracked_def)
  show ?thesis
  proof (cases "tree_get d key bs = Some (Some b)")
    case True
    then show ?thesis using that [of b bs its] tX h C by (simp add: forKey_def c_items_def same_entry_def)
  next
    case False
    then have un: "tree_get d key bs = Some None" using e by simp
    obtain bs1 where bs1: "closeUnused d (max_open bs - 1) bs w = (None, bs1, w)" "closes d bs bs1"
      by (rule closeUnused_ok [OF nf])
    have conf: "same_conf bs bs1" using closes_conf [OF bs1(2)] by blast
    obtain b' where b': "openBucket (d_index d) (d_page d) (buckPath bs key) (bs_forks bs) (bs_opts bs) w = (Some (Inr b'), w)"
      "held d bs w key b' its" "filed d bs w key b'" "\<And>f. fork_items (d_index d) b' f = fork_items (d_index d) b f"
      using held_again [OF h sm anc] by metis
    define bs2 where "bs2 = tree_set d key (Some b') bs1"
    have conf2: "same_conf bs bs2" using conf by (simp add: bs2_def same_conf_def tree_set_def)
    have "forKey d key bs w = (Inr b', bs2, w)"
      using un bs1(1) b'(1) conf held_conf(3) [OF conf] by (simp add: forKey_def bs2_def same_conf_def)
    moreover have "tracked d bs2 w C (insert key X)"
      unfolding bs2_def by (intro tracked_set closes_tracked [OF bs1(2) tX]) simp
    moreover have "same_entry d bs bs2 k" if "k \<noteq> key" for k
      using closes_same_entry [OF bs1(2), of k] that by (simp add: bs2_def same_entry_def)
    ultimately show ?thesis using that [of b' bs2 its] conf2 b' C
      by (simp add: c_items_def held_conf [OF conf2]) (simp add: bs2_def)
  qed
qed

end

section \<open>One bucket\<close>

context queue_deps
begin

lemma held_Delete:
  assumes h: "held d bs w key b its" and fl: "filed d bs w key b" and f: "f \<in> fork_names bs" and to: "key \<le> to" "from \<le> to"
    and len: "length (fork_items (d_index d) b f) < 2 ^ 63"
    and single: "\<forall>k<from. length (filter (\<lambda>x. item_Key x = k) (fork_items (d_index d) b f)) \<le> 1"
  obtains b' w' where "bucket_Delete (d_index d) f from to b w =
      ((int (length (filter (doomed from to) (fork_items (d_index d) b f))), None), b', w')"
    "held d bs w' key b' its" "\<not> bucket_AllEmpty b' \<Longrightarrow> filed d bs w' key b'" "only_at (buckPath bs key) w w'"
    "mset (fork_items (d_index d) b' f) = mset (filter (\<lambda>x. \<not> doomed from to x) (fork_items (d_index d) b f))"
    "\<And>g. g \<noteq> f \<Longrightarrow> fork_items (d_index d) b' g = fork_items (d_index d) b g"
proof -
  let ?bt = "d_index d"
  have ok: "bucket_ok ?bt its b w" and names: "fst ` set (b_indexes b) = fork_names bs" and bk: "b_key b = key"
    using h by (simp_all add: held_def)
  obtain idx where idx: "map_of (b_indexes b) f = Some idx" using f names by (metis map_of_eq_None_iff not_None_eq)
  have io: "index_ok ?bt (b_log b) (bi_Mem idx)" using bucket_okD(6) [OF ok idx] by (simp add: fork_ok_def)
  have fi: "fork_items ?bt b f = index_items ?bt (b_log b) (bi_Mem idx)" using idx by (simp add: fork_items_def)
  have sb: "\<forall>k<from. length (locs_at ?bt (bi_Mem idx) k) \<le> 1" using idx.single_batches [OF io] single fi by simp
  obtain idx' w' locs where r: "bucket_Delete ?bt f from to b w =
       ((int (length (filter (doomed from to) (fork_items ?bt b f))), None), put_index f idx' b, w')"
    "\<And>k. locs_at ?bt (bi_Mem idx') k = drop (length (hit b from to (locs_at ?bt (bi_Mem idx) k))) (locs_at ?bt (bi_Mem idx) k) @
       with_key k (concat (map (parts b from to) (hit b from to (all_locs ?bt (bi_Mem idx)))))"
    "bucket_ok ?bt its (put_index f idx' b) w'"
    "fork_items ?bt (put_index f idx' b) f = index_items ?bt (b_log b) (bi_Mem idx')"
    "logged ?bt locs idx w idx' w'" "\<forall>loc\<in>set locs. rec_ok loc"
    using idx.Delete_run [OF ok idx _ to(2) len, unfolded bk, OF to(1)] by metis
  define b' where "b' = put_index f idx' b"
  have ms: "mset (fork_items ?bt b' f) = mset (filter (\<lambda>x. \<not> doomed from to x) (fork_items ?bt b f))"
    unfolding b'_def r(4) fi by (rule idx.Delete_exact [OF io to(2) sb loggedD(2) [OF r(5)] r(2)])
  then have sub: "set (fork_items ?bt b' f) \<subseteq> set (fork_items ?bt b f)" by (metis filter_is_subset mset_eq_setD)
  note hl = held_logged [OF h fl idx r(5,6) b'_def r(3) [folded b'_def] sub]
  show ?thesis using that [of b' w'] r(1) hl ms by (simp add: b'_def)
qed

end

section \<open>The loop over the buckets\<close>

text \<open>
  The effect on the items: of the fork, the items of the range are gone from the buckets \<open>ks\<close>.
\<close>

definition cut :: "('m, 't) deps \<Rightarrow> ForkName \<Rightarrow> Key \<Rightarrow> Key \<Rightarrow> Key set \<Rightarrow> (Key \<rightharpoonup> 'm bucket \<times> Items) \<Rightarrow>
    (Key \<rightharpoonup> 'm bucket \<times> Items) \<Rightarrow> bool" where
  "cut d f from to K C C' \<longleftrightarrow>
     (\<forall>k g. mset (c_items d C' k g) =
        mset (if g = f \<and> k \<in> K then filter (\<lambda>x. \<not> doomed from to x) (c_items d C k g) else c_items d C k g))"

lemma cut_empty: "cut d f from to {} C C"
  by (simp add: cut_def)

lemma cut_insert:
  assumes "cut d f from to {key} C C1" "cut d f from to K C1 C'" "key \<notin> K"
  shows "cut d f from to (insert key K) C C'"
  unfolding cut_def
proof (intro allI)
  fix k g
  have 1: "mset (c_items d C1 k g) =
      mset (if g = f \<and> k \<in> {key} then filter (\<lambda>x. \<not> doomed from to x) (c_items d C k g) else c_items d C k g)"
    using assms(1) unfolding cut_def by blast
  have 2: "mset (c_items d C' k g) =
      mset (if g = f \<and> k \<in> K then filter (\<lambda>x. \<not> doomed from to x) (c_items d C1 k g) else c_items d C1 k g)"
    using assms(2) unfolding cut_def by blast
  show "mset (c_items d C' k g) =
      mset (if g = f \<and> k \<in> insert key K then filter (\<lambda>x. \<not> doomed from to x) (c_items d C k g) else c_items d C k g)"
    using 1 2 assms(3) by (cases "g = f"; cases "k = key") (simp_all add: if_distrib [of mset] split: if_splits)
qed

text \<open>What holds between two rounds: the buckets in \<open>del\<close> are parked.\<close>

definition deleting :: "('m, 't) deps \<Rightarrow> ('m, 't) buckets \<Rightarrow> world \<Rightarrow> (Key \<rightharpoonup> 'm bucket \<times> Items) \<Rightarrow> Key list \<Rightarrow> bool" where
  "deleting d bs w C del \<longleftrightarrow>
     tracked d bs w C (set del) \<and> distinct del \<and> (\<forall>k\<in>set del. parked d bs w k \<and> C k = None)"

context queue_deps
begin

lemma delete_round:
  assumes i: "deleting d bs w C del" and key: "key \<notin> set del" "key \<in> dom C" and sm: "small bs w key"
    and f: "f \<in> fork_names bs" and to: "key \<le> to" "from \<le> to" "key \<le> tbk"
    and len: "\<forall>g. length (c_items d C key g) < 2 ^ 63"
    and single: "\<forall>k<from. length (filter (\<lambda>x. item_Key x = k) (c_items d C key f)) \<le> 1"
  defines "m \<equiv> int (length (filter (doomed from to) (c_items d C key f)))"
  obtains bs' w' C' del' where
    "\<And>n. delete_range d f from to tbk (key # ks) n del bs w = delete_range d f from to tbk ks (wrap64 (n + m)) del' bs' w'"
    "deleting d bs' w' C' del'" "same_conf bs bs'" "only_at (buckPath bs key) w w'" "cut d f from to {key} C C'"
    "\<And>k. k \<noteq> key \<Longrightarrow> C' k = C k" "set del' \<subseteq> insert key (set del)"
proof -
  let ?bt = "d_index d"
  have t: "tracked d bs w C (set del)" and dd: "distinct del" and pk: "\<forall>k\<in>set del. parked d bs w k \<and> C k = None"
    using i by (simp_all add: deleting_def)
  obtain c where c: "C key = Some c" using key(2) by blast
  obtain b its bs1 where k: "forKey d key bs w = (Inr b, bs1, w)" "same_conf bs bs1" "tracked d bs1 w C (insert key (set del))"
    "tree_get d key bs1 = Some (Some b)" "held d bs1 w key b its" "filed d bs1 w key b"
    "\<And>f. fork_items ?bt b f = c_items d C key f" "\<And>k. k \<noteq> key \<Longrightarrow> same_entry d bs bs1 k"
    using forKey_known [OF t key(1) c sm] by metis
  have f1: "f \<in> fork_names bs1" using f held_conf(4) [OF k(2)] by simp
  obtain b' w' where b': "bucket_Delete ?bt f from to b w = ((m, None), b', w')"
    "held d bs1 w' key b' its" "\<not> bucket_AllEmpty b' \<Longrightarrow> filed d bs1 w' key b'" "only_at (buckPath bs1 key) w w'"
    "mset (fork_items ?bt b' f) = mset (filter (\<lambda>x. \<not> doomed from to x) (c_items d C key f))"
    "\<And>g. g \<noteq> f \<Longrightarrow> fork_items ?bt b' g = c_items d C key g"
    using held_Delete [OF k(5,6) f1 to(1,2)] len single unfolding k(7) m_def by metis
  define bs2 where "bs2 = put_bucket d key b' bs1"
  have bs2: "bs2 = tree_set d key (Some b') bs1" by (simp add: bs2_def put_bucket_def)
  have conf12: "same_conf bs1 bs2" by (simp add: bs2 same_conf_def tree_set_def)
  note conf = same_conf_trans [OF k(2) conf12]
  have h2: "held d bs2 w' key b' its" "\<not> bucket_AllEmpty b' \<Longrightarrow> filed d bs2 w' key b'"
    using b'(2,3) held_conf(1,2) [OF conf12] by simp_all
  have get2: "tree_get d key bs2 = Some (Some b')" by (simp add: bs2)
  have oa: "only_at (buckPath bs key) w w'" using b'(4) held_conf(3) [OF k(2)] by simp
  have nf: "w_faults w' = []" using oa by (simp add: only_at_def)
  have t2: "tracked d bs2 w' C (insert key (set del))"
    unfolding bs2 by (intro tracked_set tracked_frame [OF k(3) b'(4)]) simp_all
  have pk2: "parked d bs2 w' k" if "k \<in> set del" for k
  proof (rule parked_frame [OF _ conf _ nf])
    show "parked d bs w k" using pk that by blast
    have ne: "k \<noteq> key" using that key(1) by blast
    show "same_entry d bs bs2 k" using k(8) [OF ne] ne by (simp add: bs2 same_entry_def)
    show "node_at w' (buckPath bs k @ q) = node_at w (buckPath bs k @ q)" for q by (rule only_at_other(1) [OF oa ne])
  qed
  have ok': "bucket_ok ?bt its b' w'" using b'(2) by (simp add: held_def)
  have len': "\<forall>g. length (fork_items ?bt b' g) < 2 ^ 63"
  proof
    fix g
    have "length (fork_items ?bt b' f) = length (filter (\<lambda>x. \<not> doomed from to x) (c_items d C key f))"
      using arg_cong [OF b'(5), of size] unfolding size_mset .
    then have "length (fork_items ?bt b' g) \<le> length (c_items d C key g)" using b'(6) [of g] by (cases "g = f") simp_all
    then show "length (fork_items ?bt b' g) < 2 ^ 63" using len by (meson le_less_trans)
  qed
  define C' where "C' = (if bucket_AllEmpty b' then C(key := None) else C(key \<mapsto> (b', its)))"
  define del' where "del' = (if bucket_AllEmpty b' then del @ [key] else del)"
  have items: "c_items d C' key g = fork_items ?bt b' g" for g
    using idx.AllEmpty_items [OF ok' len'] by (simp add: C'_def c_items_def)
  have "delete_range d f from to tbk (key # ks) n del bs w = delete_range d f from to tbk ks (wrap64 (n + m)) del' bs2 w'" for n
    using to(3) k(1) b'(1) by (simp add: not_less [symmetric] Let_def bs2_def del'_def)
  moreover have "deleting d bs2 w' C' del'"
  proof (cases "bucket_AllEmpty b'")
    case True
    have "parked d bs2 w' key" unfolding parked_def using h2(1) get2 by blast
    then show ?thesis using True t2 dd key(1) pk pk2 by (auto simp: deleting_def C'_def del'_def tracked_def)
  next
    case False
    then show ?thesis using t2 dd key(1) pk pk2 get2 h2 by (auto simp: deleting_def C'_def del'_def tracked_def)
  qed
  moreover have "cut d f from to {key} C C'"
    unfolding cut_def
  proof (intro allI)
    fix k g
    show "mset (c_items d C' k g) =
        mset (if g = f \<and> k \<in> {key} then filter (\<lambda>x. \<not> doomed from to x) (c_items d C k g) else c_items d C k g)"
      using items b'(5,6) by (cases "k = key"; cases "g = f") (simp_all add: C'_def c_items_def)
  qed
  moreover have "C' k = C k" if "k \<noteq> key" for k using that by (simp add: C'_def)
  moreover have "set del' \<subseteq> insert key (set del)" by (auto simp: del'_def)
  ultimately show ?thesis using that [of del' bs2 w' C'] conf oa by blast
qed

end

context queue_deps
begin

lemma delete_range_ok:
  assumes "deleting d bs w C del" "sorted_wrt (<) ks" "set ks \<subseteq> dom C - set del" "\<forall>k\<in>set ks. small bs w k"
    "f \<in> fork_names bs" "from \<le> to" "\<forall>k\<in>set ks. k \<le> tbk \<longrightarrow> k \<le> to" "\<forall>k g. length (c_items d C k g) < 2 ^ 63"
    "\<forall>k\<in>set ks. \<forall>k'<from. length (filter (\<lambda>x. item_Key x = k') (c_items d C k f)) \<le> 1"
    "0 \<le> n" "n + int (length (all_at d C f ks)) < 2 ^ 63"
  shows "\<exists>bs' w' C' del'. delete_range d f from to tbk ks n del bs w =
      ((n + int (length (filter (doomed from to) (all_at d C f (takeWhile (\<lambda>k. k \<le> tbk) ks)))), None, del'), bs', w') \<and>
    deleting d bs' w' C' del' \<and> same_conf bs bs' \<and> outside bs w w' \<and> cut d f from to (set (takeWhile (\<lambda>k. k \<le> tbk) ks)) C C'"
  using assms(1-4,5,7-11)
proof (induction ks arbitrary: bs w C del n)
  case Nil
  then show ?case using cut_empty [of d f "from" to C] by auto
next
  case (Cons key ks)
  show ?case
  proof (cases "key \<le> tbk")
    case False
    then show ?thesis using Cons.prems(1) cut_empty [of d f "from" to C] by auto
  next
    case True
    define m where "m = int (length (filter (doomed from to) (c_items d C key f)))"
    have later: "\<forall>k'\<in>set ks. key < k'" using Cons.prems(2) by simp
    then have notin: "key \<notin> set ks" by auto
    have k: "key \<notin> set del" "key \<in> dom C" "small bs w key" "key \<le> to" using Cons.prems(3,4,6) True by auto
    have len: "\<forall>g. length (c_items d C key g) < 2 ^ 63" using Cons.prems(7) by blast
    have single: "\<forall>k<from. length (filter (\<lambda>x. item_Key x = k) (c_items d C key f)) \<le> 1" using Cons.prems(8) by simp
    obtain bs1 w1 C1 del1 where r:
      "\<And>n. delete_range d f from to tbk (key # ks) n del bs w = delete_range d f from to tbk ks (wrap64 (n + m)) del1 bs1 w1"
      "deleting d bs1 w1 C1 del1" "same_conf bs bs1" "only_at (buckPath bs key) w w1" "cut d f from to {key} C C1"
      "\<And>k. k \<noteq> key \<Longrightarrow> C1 k = C k" "set del1 \<subseteq> insert key (set del)"
      using delete_round [OF Cons.prems(1) k(1-3) Cons.prems(5) k(4) assms(6) True len single, of ks] unfolding m_def by metis
    have same: "c_items d C1 k' = c_items d C k'" if "k' \<in> set ks" for k'
    proof -
      have "C1 k' = C k'" by (rule r(6)) (use that notin in blast)
      then show ?thesis by (simp add: c_items_def fun_eq_iff)
    qed
    have at: "all_at d C1 f ks' = all_at d C f ks'" if "set ks' \<subseteq> set ks" for ks'
      by (intro all_at_cong r(6)) (use that notin in blast)
    have le: "length (c_items d C1 k g) \<le> length (c_items d C k g)" for k g
    proof -
      have "mset (c_items d C1 k g) =
          mset (if g = f \<and> k \<in> {key} then filter (\<lambda>x. \<not> doomed from to x) (c_items d C k g) else c_items d C k g)"
        using r(5) unfolding cut_def by blast
      from arg_cong [OF this, of size] show ?thesis unfolding size_mset by simp
    qed
    have m: "0 \<le> m" "m \<le> int (length (c_items d C key f))" by (simp_all add: m_def)
    have total: "n + (int (length (c_items d C key f)) + int (length (all_at d C f ks))) < 2 ^ 63" using Cons.prems(10) by simp
    then have wr: "wrap64 (n + m) = n + m" "n + m + int (length (all_at d C f ks)) < 2 ^ 63"
      using m Cons.prems(9) by (auto intro!: wrap64_id)
    have "\<exists>bs' w' C' del'. delete_range d f from to tbk ks (n + m) del1 bs1 w1 =
        ((n + m + int (length (filter (doomed from to) (all_at d C1 f (takeWhile (\<lambda>k. k \<le> tbk) ks)))), None, del'), bs', w') \<and>
      deleting d bs' w' C' del' \<and> same_conf bs1 bs' \<and> outside bs1 w1 w' \<and> cut d f from to (set (takeWhile (\<lambda>k. k \<le> tbk) ks)) C1 C'"
    proof (rule Cons.IH [OF r(2)])
      show "sorted_wrt (<) ks" "\<forall>k\<in>set ks. k \<le> tbk \<longrightarrow> k \<le> to" using Cons.prems(2,6) by simp_all
      show "set ks \<subseteq> dom C1 - set del1"
      proof
        fix k'
        assume "k' \<in> set ks"
        then have "k' \<in> dom C" "k' \<notin> set del" "k' \<noteq> key" using Cons.prems(3) notin by auto
        then show "k' \<in> dom C1 - set del1" using r(6) [of k'] r(7) by (auto simp: domIff)
      qed
      show "\<forall>k\<in>set ks. small bs1 w1 k"
      proof
        fix k'
        assume "k' \<in> set ks"
        then have "small bs w1 k'" using Cons.prems(4) only_at_other(3) [OF r(4), of k'] notin by auto
        then show "small bs1 w1 k'" by (simp add: small_def held_conf [OF r(3)])
      qed
      show "f \<in> fork_names bs1" using Cons.prems(5) held_conf(4) [OF r(3)] by simp
      show "\<forall>k g. length (c_items d C1 k g) < 2 ^ 63" using le Cons.prems(7) by (meson le_less_trans)
      show "\<forall>k\<in>set ks. \<forall>k'<from. length (filter (\<lambda>x. item_Key x = k') (c_items d C1 k f)) \<le> 1" using Cons.prems(8) same by simp
      show "0 \<le> n + m" using Cons.prems(9) by (simp add: m_def)
      show "n + m + int (length (all_at d C1 f ks)) < 2 ^ 63" using wr(2) at by simp
    qed
    then obtain bs' w' C' del' where p: "delete_range d f from to tbk ks (n + m) del1 bs1 w1 =
        ((n + m + int (length (filter (doomed from to) (all_at d C1 f (takeWhile (\<lambda>k. k \<le> tbk) ks)))), None, del'), bs', w')"
      "deleting d bs' w' C' del'" "same_conf bs1 bs'" "outside bs1 w1 w'" "cut d f from to (set (takeWhile (\<lambda>k. k \<le> tbk) ks)) C1 C'"
      by blast
    have sub: "set (takeWhile (\<lambda>k. k \<le> tbk) ks) \<subseteq> set ks" using set_takeWhileD by fast
    have "cut d f from to (insert key (set (takeWhile (\<lambda>k. k \<le> tbk) ks))) C C'"
      by (rule cut_insert [OF r(5) p(5)]) (use notin sub in blast)
    moreover have "outside bs w w'" using outside_trans [OF only_at_outside [OF r(4)]] p(4) outside_conf [OF r(3)] by metis
    moreover have "delete_range d f from to tbk (key # ks) n del bs w =
        ((n + int (length (filter (doomed from to) (all_at d C f (takeWhile (\<lambda>k. k \<le> tbk) (key # ks))))), None, del'), bs', w')"
      unfolding r(1) wr(1) p(1) at [OF sub] using True by (simp add: m_def)
    ultimately show ?thesis using p(2) same_conf_trans [OF r(3) p(3)] True
      by (intro exI [of _ bs'] exI [of _ w'] exI [of _ C'] exI [of _ del']) simp
  qed
qed

lemma clear_parked:
  assumes "deleting d bs w C del"
  shows "\<exists>bs' w'. clear_loop d del bs w = (None, bs', w') \<and> same_conf bs bs' \<and> tracked d bs' w' C {} \<and> outside bs w w'"
  using assms
proof (induction del arbitrary: bs w)
  case Nil
  then show ?case by (simp add: deleting_def)
next
  case (Cons key del)
  have t: "tracked d bs w C (set (key # del))" and dd: "distinct (key # del)"
    and pk: "\<forall>k\<in>set (key # del). parked d bs w k \<and> C k = None" using Cons.prems by (simp_all add: deleting_def)
  obtain b its v where h: "held d bs w key b its" and v: "tree_get d key bs = Some v" "v = None \<or> v = Some b"
    using pk by (auto simp: parked_def)
  obtain bs1 w1 where 1: "buckets_delete d key bs w = (None, bs1, w1)" "same_conf bs bs1"
    "tracked d bs1 w1 (C(key := None)) (set (key # del) - {key})" "only_at (buckPath bs key) w w1"
    "\<And>k. tree_get d k bs1 = (if k = key then None else tree_get d k bs)"
    using delete_in [OF t _ v h] by (metis list.set_intros(1))
  have C: "C(key := None) = C" using pk by (simp add: fun_upd_idem)
  have nf: "w_faults w1 = []" using 1(4) by (simp add: only_at_def)
  have "parked d bs1 w1 k" if "k \<in> set del" for k
  proof (rule parked_frame [OF _ 1(2) _ nf])
    have ne: "k \<noteq> key" using that dd by auto
    show "parked d bs w k" using pk that by simp
    show "same_entry d bs bs1 k" using 1(5) ne by (simp add: same_entry_def)
    show "node_at w1 (buckPath bs k @ q) = node_at w (buckPath bs k @ q)" for q by (rule only_at_other(1) [OF 1(4) ne])
  qed
  moreover have "set (key # del) - {key} = set del" using dd by auto
  ultimately have "deleting d bs1 w1 C del" using 1(3) C dd pk by (simp add: deleting_def)
  then obtain bs' w' where 2: "clear_loop d del bs1 w1 = (None, bs', w')" "same_conf bs1 bs'" "tracked d bs' w' C {}" "outside bs1 w1 w'"
    using Cons.IH by blast
  have "outside bs w w'" using outside_trans [OF only_at_outside [OF 1(4)]] 2(4) outside_conf [OF 1(2)] by metis
  then show ?case using 1(1) 2 same_conf_trans [OF 1(2) 2(2)] by simp
qed

end

section \<open>The whole queue\<close>

lemma sorted_takeWhile_le: "sorted_wrt (<) ks \<Longrightarrow> set (takeWhile (\<lambda>k. k \<le> b) ks) = {k \<in> set ks. k \<le> (b :: Key)}"
proof (induction ks)
  case (Cons k ks)
  then show ?case by (auto simp: not_le dest: order.strict_trans)
qed simp

lemma sorted_dropWhile_less: "sorted_wrt (<) ks \<Longrightarrow> set (dropWhile (\<lambda>k. k < a) ks) = {k \<in> set ks. (a :: Key) \<le> k}"
proof (induction ks)
  case (Cons k ks)
  then show ?case by (auto simp: not_less dest: less_le_trans)
qed simp

lemma sorted_wrt_dropWhile: "sorted_wrt P xs \<Longrightarrow> sorted_wrt P (dropWhile Q xs)"
  by (induction xs) auto

lemma filter_mset_sum: "finite S \<Longrightarrow> (\<Sum>k\<in>S. filter_mset P (M k)) = filter_mset P (\<Sum>k\<in>S. M k)"
  by (induction rule: finite_induct) simp_all

context queue_deps
begin

lemma Delete_all:
  assumes t: "tracked d bs w C {}" and sp: "bucket_split_min (split_fn (bs_opts bs))" and f: "f \<in> fork_names bs"
    and ft: "from \<le> to" and sm: "\<forall>k\<in>set (tree_keys d bs). small bs w k"
    and len: "\<forall>g\<in>fork_names bs. length (queue_items d g bs w) < 2 ^ 63"
    and single: "\<forall>k<from. length (filter (\<lambda>x. item_Key x = k) (queue_items d f bs w)) \<le> 1"
  obtains bs' w' C' where "buckets_Delete d f from to bs w =
      ((int (length (filter (doomed from to) (queue_items d f bs w))), None), bs', w')"
    "same_conf bs bs'" "tracked d bs' w' C' {}" "outside bs w w'"
    "\<forall>g\<in>fork_names bs. mset (queue_items d g bs' w') =
       mset (if g = f then filter (\<lambda>x. \<not> doomed from to x) (queue_items d g bs w) else queue_items d g bs w)"
proof -
  let ?sp = "split_fn (bs_opts bs)" and ?ks = "tree_keys d bs"
  define ks where "ks = dropWhile (\<lambda>k. k < ?sp from) ?ks"
  define vis where "vis = takeWhile (\<lambda>k. k \<le> ?sp to) ks"
  have sp': "bucket_split ?sp" using sp by (simp add: bucket_split_min_def)
  have sorted: "sorted_wrt (<) ?ks" "distinct ?ks" using view_sorted by (simp_all add: tree_keys_def)
  have dom: "set ?ks = dom C" by (rule keys_dom [OF t])
  have sk: "sorted_wrt (<) ks" unfolding ks_def by (rule sorted_wrt_dropWhile [OF sorted(1)])
  have ks: "set ks \<subseteq> set ?ks" unfolding ks_def using set_dropWhileD by fast
  have vis: "set vis = {k \<in> set ?ks. ?sp from \<le> k \<and> k \<le> ?sp to}"
    unfolding vis_def sorted_takeWhile_le [OF sk] unfolding ks_def sorted_dropWhile_less [OF sorted(1)] by auto
  have sub: "mset (c_items d C k f) \<subseteq># mset (queue_items d f bs w)" for k
    unfolding mset_queue_items [OF t f finite.insertI [OF finite_tracked [OF t]] subset_insertI, of k]
    using finite_tracked [OF t] by (subst sum.insert_remove) auto
  have single': "\<forall>k'<from. length (filter (\<lambda>x. item_Key x = k') (c_items d C k f)) \<le> 1" for k
  proof (intro allI impI)
    fix k'
    assume "k' < from"
    moreover have "length (filter P (c_items d C k f)) \<le> length (filter P (queue_items d f bs w))" for P
      using size_mset_mono [OF multiset_filter_mono [OF sub [of k], of P]] by (simp flip: mset_filter)
    ultimately show "length (filter (\<lambda>x. item_Key x = k') (c_items d C k f)) \<le> 1" using single le_trans by blast
  qed
  have lens: "length (c_items d C k g) < 2 ^ 63" for k g
  proof (cases "g \<in> fork_names bs")
    case True
    then show ?thesis using c_items_le [OF t True, of k] len by (meson le_less_trans)
  qed (simp add: no_c_items [OF t])
  have "mset (all_at d C f ks) \<subseteq># mset (all_at d C f ?ks)"
  proof -
    have "?ks = takeWhile (\<lambda>k. k < ?sp from) ?ks @ ks" by (simp add: ks_def)
    then have "all_at d C f ?ks = all_at d C f (takeWhile (\<lambda>k. k < ?sp from) ?ks) @ all_at d C f ks"
      by (metis all_at_def concat_append map_append)
    then show ?thesis by simp
  qed
  then have "length (all_at d C f ks) \<le> length (queue_items d f bs w)"
    using size_mset_mono [of "mset (all_at d C f ks)" "mset (all_at d C f ?ks)"] all_at_queue [OF t f] by simp
  then have tot: "length (all_at d C f ks) < 2 ^ 63" using len f by (meson le_less_trans)
  have missed: "\<not> doomed from to x" if x: "x \<in> set (c_items d C k f)" and nv: "k \<notin> set vis" for k x
  proof
    assume dm: "doomed from to x"
    have k: "?sp (item_Key x) = k" by (rule c_items_split [OF t x])
    have "k \<in> set ?ks" using x dom by (cases "C k") (auto simp: c_items_def)
    moreover have "?sp from \<le> k" "k \<le> ?sp to"
      using dm bucket_split.mono [OF sp'] unfolding k [symmetric] by (auto simp: doomed_def)
    ultimately show False using nv vis by blast
  qed
  have i: "deleting d bs w C []" using t by (simp add: deleting_def)
  have lower: "\<forall>k\<in>set ks. k \<le> ?sp to \<longrightarrow> k \<le> to" using bucket_split_min.lower [OF sp, of to] by (auto intro: order_trans)
  obtain bs1 w1 C1 del where r: "delete_range d f from to (?sp to) ks 0 [] bs w =
      ((int (length (filter (doomed from to) (all_at d C f vis))), None, del), bs1, w1)"
    "deleting d bs1 w1 C1 del" "same_conf bs bs1" "outside bs w w1" "cut d f from to (set vis) C C1"
  proof -
    have "set ks \<subseteq> dom C - set []" "\<forall>k\<in>set ks. small bs w k" "\<forall>k g. length (c_items d C k g) < 2 ^ 63"
      "\<forall>k\<in>set ks. \<forall>k'<from. length (filter (\<lambda>x. item_Key x = k') (c_items d C k f)) \<le> 1"
      "0 + int (length (all_at d C f ks)) < 2 ^ 63"
      using ks dom sm lens single' tot by auto
    from delete_range_ok [OF i sk this(1,2) f ft lower this(3,4) order_refl this(5)] show ?thesis
      using that unfolding vis_def [symmetric] by auto
  qed
  obtain bs' w' where c: "clear_loop d del bs1 w1 = (None, bs', w')" "same_conf bs1 bs'" "tracked d bs' w' C1 {}" "outside bs1 w1 w'"
    using clear_parked [OF r(2)] by blast
  have conf: "same_conf bs bs'" by (rule same_conf_trans [OF r(3) c(2)])
  have after: "mset (c_items d C1 k f) = filter_mset (\<lambda>x. \<not> doomed from to x) (mset (c_items d C k f))" for k
  proof -
    have "mset (c_items d C1 k f) = mset (if k \<in> set vis then filter (\<lambda>x. \<not> doomed from to x) (c_items d C k f) else c_items d C k f)"
      using r(5) unfolding cut_def by auto
    moreover have "filter (\<lambda>x. \<not> doomed from to x) (c_items d C k f) = c_items d C k f" if "k \<notin> set vis"
      using missed that by (auto simp: filter_id_conv)
    ultimately show ?thesis unfolding mset_filter [symmetric] by (cases "k \<in> set vis") (simp_all del: mset_filter)
  qed
  define S where "S = dom C \<union> dom C1"
  have S: "finite S" "dom C \<subseteq> S" "dom C1 \<subseteq> S" using finite_tracked [OF t] finite_tracked [OF c(3)] by (auto simp: S_def)
  have "mset (queue_items d g bs' w') =
      mset (if g = f then filter (\<lambda>x. \<not> doomed from to x) (queue_items d g bs w) else queue_items d g bs w)"
    if g: "g \<in> fork_names bs" for g
  proof -
    have new: "mset (queue_items d g bs' w') = (\<Sum>k\<in>S. mset (c_items d C1 k g))"
      using g held_conf(4) [OF conf] by (intro mset_queue_items [OF c(3) _ S(1,3)]) simp
    have old: "mset (queue_items d g bs w) = (\<Sum>k\<in>S. mset (c_items d C k g))" by (rule mset_queue_items [OF t g S(1,2)])
    show ?thesis
    proof (cases "g = f")
      case True
      then show ?thesis using new old after filter_mset_sum [OF S(1)] by simp
    next
      case False
      then have "mset (c_items d C1 k g) = mset (c_items d C k g)" for k using r(5) unfolding cut_def by auto
      then show ?thesis using new old False by simp
    qed
  qed
  moreover have "filter (doomed from to) (all_at d C f vis) = filter (doomed from to) (queue_items d f bs w)"
  proof -
    have none: "filter (doomed from to) (all_at d C f ks') = []" if "\<forall>k\<in>set ks'. k \<notin> set vis" for ks'
      using missed that by (auto simp: filter_empty_conv all_at_def)
    have split: "?ks = takeWhile (\<lambda>k. k < ?sp from) ?ks @ vis @ dropWhile (\<lambda>k. k \<le> ?sp to) ks" by (simp add: ks_def vis_def)
    define a z where "a = takeWhile (\<lambda>k. k < ?sp from) ?ks" and "z = dropWhile (\<lambda>k. k \<le> ?sp to) ks"
    have az: "?ks = a @ vis @ z" using split by (simp add: a_def z_def)
    have "distinct (a @ vis @ z)" using sorted(2) unfolding az .
    then have "\<forall>k\<in>set a. k \<notin> set vis" "\<forall>k\<in>set z. k \<notin> set vis" by auto
    then have "filter (doomed from to) (all_at d C f a) = []" "filter (doomed from to) (all_at d C f z) = []"
      using none by blast+
    moreover have "queue_items d f bs w = all_at d C f a @ all_at d C f vis @ all_at d C f z"
      using all_at_queue [OF t f] unfolding az by (simp add: all_at_def)
    ultimately show ?thesis by simp
  qed
  moreover have "outside bs w w'" using outside_trans [OF r(4)] c(4) outside_conf [OF r(3)] by metis
  moreover have "buckets_Delete d f from to bs w = ((int (length (filter (doomed from to) (all_at d C f vis))), None), bs', w')"
    using ft r(1) c(1) by (simp add: buckets_Delete_def ks_def not_less [symmetric])
  ultimately show ?thesis using that conf c(3) by simp
qed

end



end
