(* ===== verification/Queue_Open.thy ===== *)
theory Queue_Open
  imports Buckets_Read
begin

text \<open>
  Opening a queue: the buckets it finds are the directories named after keys, each of which has to be
  a fixed point of the split function; and a queue that was closed is found again with its items.
\<close>

section \<open>Reading directories leaves the files alone\<close>

lemma OpenRead_fs: "OpenRead p w = (r, w') \<Longrightarrow> w_fs w' = w_fs w"
  by (cases "sys w") (auto simp: OpenRead_def dest!: sys_fs split: if_splits option.splits node.splits)

lemma Call_fs: "Call what w = (r, w') \<Longrightarrow> w_fs w' = w_fs w"
  by (cases "sys w") (auto simp: Call_def dest!: sys_fs)

lemma ReadDir_fs: "ReadDir p w = (r, w') \<Longrightarrow> w_fs w' = w_fs w"
  by (cases "sys w") (auto simp: ReadDir_def dest!: sys_fs split: if_splits)

lemma ReadTrailer_fs: "ReadTrailer p w = (r, w') \<Longrightarrow> w_fs w' = w_fs w"
  by (auto simp: ReadTrailer_def dest!: OpenRead_fs Call_fs split: prod.splits sum.splits option.splits if_splits go.splits)

lemma ReadTrailers_loop_fs: "ReadTrailers_loop d names w = (e, calls, w') \<Longrightarrow> w_fs w' = w_fs w"
proof (induction names arbitrary: w e calls)
  case (Cons name names)
  then show ?case
    by (fastforce dest: ReadTrailer_fs split: if_splits prod.splits sum.splits)
qed simp

lemma ReadTrailers_fs: "ReadTrailers d w = (e, calls, w') \<Longrightarrow> w_fs w' = w_fs w"
  by (auto simp: ReadTrailers_def dest!: ReadDir_fs ReadTrailers_loop_fs split: prod.splits sum.splits)

lemma node_at_fs: "w_fs w' = w_fs w \<Longrightarrow> node_at w' = node_at w"
  by (simp add: node_at_def fun_eq_iff)

section \<open>The buckets of a directory\<close>

definition dir_keys :: "path \<Rightarrow> string list \<Rightarrow> world \<Rightarrow> Key set" where
  "dir_keys dir names w = {key. \<exists>name\<in>set names. node_at w (dir @ [name]) = Some Dir \<and> KeyFromString name = Inr key}"

lemma dir_keys_Cons:
  "dir_keys dir (name # names) w =
     (if node_at w (dir @ [name]) = Some Dir then {key. KeyFromString name = Inr key} else {}) \<union> dir_keys dir names w"
  by (auto simp: dir_keys_def)

context buckets_tree
begin

lemma load_entries_keys:
  "load_entries d dir opts names ld w = (Inr ld', w') \<Longrightarrow>
     fst ` set (bt_iter (d_tree d) (ld_tree ld')) = fst ` set (bt_iter (d_tree d) (ld_tree ld)) \<union> dir_keys dir names w \<and>
     w_fs w' = w_fs w"
proof (induction names arbitrary: ld w)
  case Nil
  then show ?case by (simp add: dir_keys_def)
next
  case (Cons name names)
  let ?ld = "if name = splitConfFile then ld\<lparr>ld_expectedFiles := ld_expectedFiles ld + 1\<rparr> else ld"
  have t: "ld_tree ?ld = ld_tree ld" by simp
  show ?case
  proof (cases "node_at w (dir @ [name]) = Some Dir \<and> (\<exists>key. KeyFromString name = Inr key)")
    case True
    then obtain key where key: "KeyFromString name = Inr key" and dir: "node_at w (dir @ [name]) = Some Dir" by blast
    obtain calls w1 where r: "ReadTrailers (dir @ [name]) w = (None, calls, w1)"
      using Cons.prems key dir by (auto simp: Let_def split: prod.splits option.splits)
    have fs: "w_fs w1 = w_fs w" by (rule ReadTrailers_fs [OF r])
    define ld1 where "ld1 = ?ld\<lparr>ld_dirsHandled := ld_dirsHandled ?ld + 1,
        ld_trailers := fold (\<lambda>(fork, t). AList.update (key, fork) t) calls (ld_trailers ?ld),
        ld_tree := bt_set (d_tree d) (ld_tree ?ld) key None\<rparr>"
    have "load_entries d dir opts names ld1 w1 = (Inr ld', w')"
      using Cons.prems key dir r by (simp add: Let_def ld1_def)
    note IH = Cons.IH [OF this]
    have "fst ` set (bt_iter (d_tree d) (ld_tree ld1)) = insert key (fst ` set (bt_iter (d_tree d) (ld_tree ld)))"
      by (simp add: ld1_def)
    moreover have "dir_keys dir names w1 = dir_keys dir names w" using node_at_fs [OF fs] by (simp add: dir_keys_def)
    ultimately show ?thesis using IH fs key dir by (auto simp: dir_keys_Cons)
  next
    case False
    then have "load_entries d dir opts names ?ld w = (Inr ld', w')"
      using Cons.prems by (auto simp: Let_def split: sum.splits if_splits)
    note IH = Cons.IH [OF this]
    then show ?thesis using False t by (auto simp: dir_keys_Cons)
  qed
qed

lemma forKey_keys:
  assumes "forKey d key bs w = (r, bs', w')" "key \<in> set (tree_keys d bs)"
  shows "tree_keys d bs' = tree_keys d bs"
proof -
  have c: "tree_keys d bs1 = tree_keys d bs" if "closeUnused d m bs w = (e, bs1, w1)" for m e bs1 w1
    using closes_conf [OF closeUnused_closes [OF that]] by blast
  show ?thesis
    using assms by (auto simp: forKey_def tree_keys_set c split: option.splits prod.splits sum.splits)
qed

lemma fetchForks_keys: "fetchForks d bs w = (r, bs', w') \<Longrightarrow> tree_keys d bs' = tree_keys d bs"
  using forKey_keys by (auto simp: fetchForks_def split: option.splits list.splits prod.splits sum.splits)

end

lemma fold_make_dir:
  "node_at (fold make_dir ps w) q = (if node_at w q = None \<and> q \<in> set ps then Some Dir else node_at w q)"
  by (induction ps arbitrary: w) (auto simp: make_dir_def)

lemma MkdirAll_nodes:
  assumes "MkdirAll dir w = (None, w')"
  shows "node_at w' (dir @ name # q) = node_at w (dir @ name # q)"
proof -
  obtain ok w1 where s: "sys w = (ok, w1)" by (cases "sys w")
  then have "node_at w1 = node_at w" using node_at_fs [OF sys_fs [OF s]] by simp
  moreover have "dir @ name # q \<notin> set (ancestors dir)" by (auto simp: ancestors_def dest!: arg_cong [of _ _ length])
  ultimately show ?thesis using assms s by (auto simp: MkdirAll_def fold_make_dir split: if_splits)
qed

lemma ReadDir_names:
  assumes "ReadDir dir w = (Inr names, w')"
  shows "name \<in> set names \<longleftrightarrow> node_at w (dir @ [name]) \<noteq> None"
proof -
  obtain ok w1 where s: "sys w = (ok, w1)" by (cases "sys w")
  have fs: "w_fs w1 = w_fs w" by (rule sys_fs [OF s])
  have names: "set names = last ` set (children w1 dir)" using assms s by (auto simp: ReadDir_def split: if_splits)
  have "set (children w1 dir) = {p. p \<in> fst ` set (w_fs w) \<and> p \<noteq> [] \<and> butlast p = dir}"
    using fs by (auto simp: children_def)
  moreover have "p \<in> fst ` set (w_fs w) \<longleftrightarrow> node_at w p \<noteq> None" for p by (simp add: node_at_def map_of_eq_None_iff)
  ultimately have "set names = last ` {p. node_at w p \<noteq> None \<and> p \<noteq> [] \<and> butlast p = dir}" using names by simp
  also have "\<dots> = {name. node_at w (dir @ [name]) \<noteq> None}"
  proof (intro set_eqI iffI)
    fix n
    assume "n \<in> last ` {p. node_at w p \<noteq> None \<and> p \<noteq> [] \<and> butlast p = dir}"
    then show "n \<in> {name. node_at w (dir @ [name]) \<noteq> None}" by (auto simp: append_butlast_last_id)
  next
    fix n
    assume "n \<in> {name. node_at w (dir @ [name]) \<noteq> None}"
    then show "n \<in> last ` {p. node_at w p \<noteq> None \<and> p \<noteq> [] \<and> butlast p = dir}"
      by (intro image_eqI [of _ _ "dir @ [n]"]) auto
  qed
  finally show ?thesis by simp
qed

lemma ValidateBucketKeys_fixed:
  assumes "ValidateBucketKeys d (opt_BucketSplitConf opts) bs w = (None, w')"
  shows "\<forall>k\<in>set (tree_keys d bs). split_fn opts k = k"
  using assms
  by (auto simp: ValidateBucketKeys_def Let_def split_fn_def list_all_iff split: prod.splits option.splits if_splits)

lemma Open_buckets:
  assumes "btree_map (d_tree d)" "Open d dir opts w = (Inr q, w')"
  shows "set (tree_keys d (q_buckets q)) = {k. \<exists>name. node_at w (dir @ [name]) = Some Dir \<and> KeyFromString name = Inr k} \<and>
    (\<forall>k\<in>set (tree_keys d (q_buckets q)). split_fn opts k = k)"
proof -
  have bt: "buckets_tree d" using assms(1) by (rule buckets_tree.intro)
  obtain opts' bs w1 w2 where V: "Options_Validate opts = (None, opts')" and L: "loadAllBuckets d dir opts' w = (Inr bs, w1)"
    and K: "ValidateBucketKeys d (opt_BucketSplitConf opts') bs w1 = (None, w2)" and q: "q = \<lparr>q_buckets = bs\<rparr>"
    using assms(2) by (auto simp: Open_def split: prod.splits option.splits sum.splits)
  let ?bs = "\<lambda>ld. \<lparr>bs_dir = dir, bs_tree = ld_tree ld, bs_trailers = ld_trailers ld, bs_opts = opts', bs_forks = [], bs_closed = []\<rparr>"
  let ?ld0 = "\<lparr>ld_expectedFiles = 0, ld_dirsHandled = 0, ld_tree = bt_empty (d_tree d), ld_trailers = []\<rparr>"
  obtain v1 names v2 ld v3 forks bs' v4 where M: "MkdirAll dir w = (None, v1)" and R: "ReadDir dir v1 = (Inr names, v2)"
    and E: "load_entries d dir opts' names ?ld0 v2 = (Inr ld, v3)"
    and F: "fetchForks d (?bs ld) v3 = (Inr forks, bs', v4)" "bs = bs'\<lparr>bs_forks := forks\<rparr>"
    using L by (auto simp: loadAllBuckets_def Let_def split: prod.splits sum.splits option.splits if_splits)
  have "set (tree_keys d bs) = set (tree_keys d bs')" using F(2) by (simp add: tree_keys_def)
  also have "\<dots> = set (tree_keys d (?bs ld))" using buckets_tree.fetchForks_keys [OF bt F(1)] by simp
  also have "\<dots> = dir_keys dir names v2"
    using buckets_tree.load_entries_keys [OF bt E] btree_map.iter_empty [OF assms(1)] by (simp add: tree_keys_def)
  also have "\<dots> = {k. \<exists>name. node_at w (dir @ [name]) = Some Dir \<and> KeyFromString name = Inr k}"
    using ReadDir_names [OF R] node_at_fs [OF ReadDir_fs [OF R]] MkdirAll_nodes [OF M, of _ "[]"] by (auto simp: dir_keys_def)
  finally have keys: "set (tree_keys d (q_buckets q)) = {k. \<exists>name. node_at w (dir @ [name]) = Some Dir \<and> KeyFromString name = Inr k}"
    by (simp add: q)
  have "split_fn opts' = split_fn opts" using V by (auto simp: Options_Validate_def split_fn_def Let_def split: if_splits)
  then show ?thesis using keys ValidateBucketKeys_fixed [OF K] q by simp
qed

text \<open>
  C16 (buckets found): if \<^verbatim>\<open>Open\<close> succeeds, the buckets of the queue are exactly the subdirectories whose
  names parse as keys, and each of their keys is its own bucket key under the configured split
  function, whatever system calls fail on the way.
\<close>

theorem Open_finds_buckets:
  assumes "btree_map (d_tree d)" "Open d dir opts w = (Inr q, w')"
  shows "set (tree_keys d (q_buckets q)) = {k. \<exists>name. node_at w (dir @ [name]) = Some Dir \<and> KeyFromString name = Inr k} \<and>
    (\<forall>k\<in>set (tree_keys d (q_buckets q)). split_fn opts k = k)"
  using assms by (rule Open_buckets)

section \<open>Closing and opening again\<close>

lemma ReadTrailers_loop_ok:
  assumes "w_faults w = []" "\<forall>name\<in>set names. \<exists>bs. file_at w (dir @ [name]) = Some bs"
  shows "\<exists>calls. ReadTrailers_loop dir names w = (None, calls, w)"
  using assms(2)
proof (induction names)
  case (Cons name names)
  then obtain bs where "node_at w (dir @ [name]) = Some (File bs)" by (auto simp: node_at_file)
  then have "\<exists>t. ReadTrailer (dir @ [name]) w = (Inr t, w)"
    using assms(1) by (auto simp: ReadTrailer_def OpenRead_def Call_def split: go.split)
  then show ?case using Cons by auto
qed simp

lemma ReadTrailers_held:
  assumes h: "held d bs w key b its"
  shows "\<exists>calls. ReadTrailers (buckPath bs key) w = (None, calls, w)"
proof -
  let ?dir = "buckPath bs key"
  have dir: "node_at w ?dir = Some Dir" and ok: "bucket_ok (d_index d) its b w" and bd: "b_dir b = ?dir"
    using h by (simp_all add: held_def)
  have all: "\<forall>q. node_at w (?dir @ q) \<noteq> None \<longrightarrow> q = [] \<or> ?dir @ q \<in> bucket_files b" using h unfolding held_def by blast
  note k = bucket_okD [OF ok]
  have is_file: "\<exists>bs. file_at w p = Some bs" if p: "p \<in> bucket_files b" for p
  proof (cases "p = b_dir b @ [dataLogName]")
    case True
    then show ?thesis using k(3,4) by (simp add: log_on_disk_def)
  next
    case False
    then obtain f where f: "f \<in> fst ` set (b_indexes b)" "p = idxPath (b_dir b) f" using p by (auto simp: bucket_files_def)
    then obtain ix where "map_of (b_indexes b) f = Some ix" by (metis map_of_eq_None_iff not_None_eq)
    then show ?thesis using k(6) [of f ix] f(2) by (auto simp: fork_ok_def wal_ok_def)
  qed
  obtain names where R: "ReadDir ?dir w = (Inr names, w)" using k(1) dir by (simp add: ReadDir_def)
  have "\<exists>bs. file_at w (?dir @ [name]) = Some bs" if "name \<in> set names" for name
  proof -
    have "?dir @ [name] \<in> bucket_files b" using all ReadDir_names [OF R, of name] that by auto
    then show ?thesis by (rule is_file)
  qed
  then show ?thesis using ReadTrailers_loop_ok [OF k(1), of names ?dir] R by (simp add: ReadTrailers_def)
qed

lemma load_entries_ok:
  assumes "w_faults w = []"
    "\<forall>name\<in>set names. if name = splitConfFile then node_at w (dir @ [name]) \<noteq> Some Dir
       else node_at w (dir @ [name]) = Some Dir \<and> (\<exists>key. KeyFromString name = Inr key) \<and>
            (\<exists>calls. ReadTrailers (dir @ [name]) w = (None, calls, w))"
  shows "\<exists>ld'. load_entries d dir opts names ld w = (Inr ld', w) \<and>
    ld_expectedFiles ld' + ld_dirsHandled ld' = ld_expectedFiles ld + ld_dirsHandled ld + length names"
  using assms(2)
proof (induction names arbitrary: ld)
  case (Cons name names)
  show ?case
  proof (cases "name = splitConfFile")
    case True
    let ?ld = "ld\<lparr>ld_expectedFiles := ld_expectedFiles ld + 1\<rparr>"
    have "load_entries d dir opts (name # names) ld w = load_entries d dir opts names ?ld w"
      using Cons.prems True by (auto simp: Let_def)
    moreover obtain ld' where "load_entries d dir opts names ?ld w = (Inr ld', w)"
      "ld_expectedFiles ld' + ld_dirsHandled ld' = ld_expectedFiles ?ld + ld_dirsHandled ?ld + length names"
      using Cons.IH [of ?ld] Cons.prems by auto
    ultimately show ?thesis by (intro exI [of _ ld']) simp
  next
    case False
    then obtain key calls where n: "node_at w (dir @ [name]) = Some Dir" "KeyFromString name = Inr key"
      "ReadTrailers (dir @ [name]) w = (None, calls, w)" using Cons.prems by auto
    define ld1 where "ld1 = ld\<lparr>ld_dirsHandled := ld_dirsHandled ld + 1,
        ld_trailers := fold (\<lambda>(fork, t). AList.update (key, fork) t) calls (ld_trailers ld),
        ld_tree := bt_set (d_tree d) (ld_tree ld) key None\<rparr>"
    have "load_entries d dir opts (name # names) ld w = load_entries d dir opts names ld1 w"
      using n False by (simp add: Let_def ld1_def)
    moreover obtain ld' where "load_entries d dir opts names ld1 w = (Inr ld', w)"
      "ld_expectedFiles ld' + ld_dirsHandled ld' = ld_expectedFiles ld1 + ld_dirsHandled ld1 + length names"
      using Cons.IH [of ld1] Cons.prems by auto
    ultimately show ?thesis by (intro exI [of _ ld']) (simp add: ld1_def)
  qed
qed simp

text \<open>The same buckets in another collection, none of them loaded\<close>

lemma tracked_unloaded:
  assumes t: "tracked d bs w C {}" and "bs_dir bs' = bs_dir bs" "fork_names bs' = fork_names bs"
    "split_fn (bs_opts bs') = split_fn (bs_opts bs)" "\<And>k. tree_get d k bs' = (if C k = None then None else Some None)"
  shows "tracked d bs' w C {}"
proof -
  have p: "buckPath bs' = buckPath bs" using assms(2) by (simp add: buckPath_def fun_eq_iff)
  have h: "held d bs' = held d bs" "filed d bs' = filed d bs"
    by (simp_all add: fun_eq_iff held_def filed_def p assms(3,4))
  have "entry_ok d bs' w k (C k) (tree_get d k bs')" for k
  proof -
    have e: "entry_ok d bs w k (C k) (tree_get d k bs)" using t by (simp add: tracked_def)
    show ?thesis
    proof (cases "C k")
      case None
      then show ?thesis using e assms(5) [of k] by (simp add: p)
    next
      case (Some c)
      then show ?thesis using e assms(5) [of k] by (cases c) (auto simp: h)
    qed
  qed
  then show ?thesis using t assms(2) by (simp add: tracked_def)
qed

context queue_deps
begin

lemma dom_C_held:
  assumes "tracked d bs w C {}" "C key = Some (b, its)"
  shows "held d bs w key b its" "filed d bs w key b"
proof -
  have "entry_ok d bs w key (C key) (tree_get d key bs)" using assms(1) by (simp add: tracked_def)
  then show "held d bs w key b its" "filed d bs w key b" using assms(2) by simp_all
qed

text \<open>The key of a bucket is its own bucket key, as the bucket is not empty.\<close>

lemma bucket_key_fixed:
  assumes t: "tracked d bs w C {}" and sp: "bucket_split (split_fn (bs_opts bs))" and key: "key \<in> dom C"
    and len: "\<forall>g\<in>fork_names bs. length (queue_items d g bs w) < 2 ^ 63"
  shows "split_fn (bs_opts bs) key = key"
proof -
  obtain b its where C: "C key = Some (b, its)" using key by (cases "C key") auto
  note h = dom_C_held [OF t C]
  have ok: "bucket_ok (d_index d) its b w" using h(1) by (simp add: held_def)
  have "length (fork_items (d_index d) b g) < 2 ^ 63" for g
  proof (cases "g \<in> fork_names bs")
    case True
    then show ?thesis using c_items_le [OF t True, of key] len C by (force simp: c_items_def)
  next
    case False
    then show ?thesis using no_c_items [OF t False, of key] C by (simp add: c_items_def)
  qed
  then obtain g where "fork_items (d_index d) b g \<noteq> []" using idx.AllEmpty_items [OF ok] h(2) by (auto simp: filed_def)
  then have "hd (fork_items (d_index d) b g) \<in> set (c_items d C key g)" using C by (simp add: c_items_def)
  then obtain x where x: "x \<in> set (c_items d C key g)" by blast
  have "split_fn (bs_opts bs) (item_Key x) = key" by (rule c_items_split [OF t x])
  then show ?thesis using bucket_split.idem [OF sp, of "item_Key x"] by simp
qed

lemma fetchForks_ok:
  assumes t: "tracked d bs w C {}" and un: "n_loaded (view bs) = 0" and fk: "bs_forks bs = []"
    and sm: "\<forall>k\<in>dom C. small bs w k" and pg: "0 < d_page d" "128 * d_page d < 2 ^ 62"
  obtains bs' C' where "fetchForks d bs w = (Inr [], bs', w)" "same_conf bs bs'" "tracked d bs' w C' {}"
    "\<And>k g. c_items d C' k g = c_items d C k g" "tree_keys d bs' = tree_keys d bs"
proof (cases "tree_keys d bs")
  case Nil
  then have "last_bucket d bs = None" by (simp add: last_bucket_def tree_keys_def)
  then show ?thesis using that [of bs C] t Nil by (simp add: fetchForks_def)
next
  case (Cons key ks)
  have none: "snd e = None" if "e \<in> set (view bs)" for e
    using un that by (cases "snd e") (auto simp: n_loaded_def filter_empty_conv)
  have lb: "last_bucket d bs = None" using none by (auto simp: last_bucket_def Let_def)
  have key: "key \<in> dom C" using Cons keys_dom [OF t] by auto
  obtain b its bs1 where k: "forKey d key bs w = (Inr b, bs1, w)" "same_conf bs bs1" "tracked d bs1 w C {key}"
    "tree_get d key bs1 = Some (Some b)" "held d bs1 w key b its" "\<And>f. fork_items (d_index d) b f = c_items d C key f"
    "filed d bs1 w key b"
    using forKey_ok [OF t _ pg, of key] sm key by (metis domIff)
  have "fst ` set (b_indexes b) = {''''}"
    using k(5) held_conf(4) [OF k(2)] fk by (simp add: held_def fork_names_def)
  then have "bucket_Forks b = []" by (auto simp: bucket_Forks_def filter_empty_conv)
  then have "fetchForks d bs w = (Inr [], bs1, w)" using lb Cons k(1) by (simp add: fetchForks_def)
  moreover have "tracked d bs1 w (C(key \<mapsto> (b, its))) {}" by (rule tracked_done [OF k(3,4,5,7)])
  moreover have "tree_keys d bs1 = tree_keys d bs" using forKey_keys [OF k(1)] Cons by simp
  ultimately show ?thesis using that k(2,6) by (simp add: c_items_def)
qed

end

lemma Close_loop_ok:
  "w_faults w = [] \<Longrightarrow>
     iter_loop d loadedOnly (\<lambda>key buck s bs w. case buck of None \<Rightarrow> (Panic, s, bs, w)
       | Some b \<Rightarrow> (let (e, w) = bucket_Close b w in (Ret e, s, bs, w))) ks () bs w = (Ret None, (), bs, w)"
  by (induction ks) (auto simp: iter_fetch_def bucket_Close_ok split: option.split)

lemma Queue_Close_ok: "w_faults w = [] \<Longrightarrow> Queue_Close d q w = (Ret None, q, w)"
  by (simp add: Queue_Close_def buckets_Close_def buckets_iter_def Close_loop_ok)

lemma bs_forks_id: "bs_forks bs = f \<Longrightarrow> bs\<lparr>bs_forks := f\<rparr> = bs"
  by simp

text \<open>The directory of a queue: its buckets and the file with the name of the split function\<close>

definition queue_dir_ok :: "path \<Rightarrow> BucketSplitConf \<Rightarrow> world \<Rightarrow> bool" where
  "queue_dir_ok dir conf w \<longleftrightarrow>
     (\<exists>data. file_at w (dir @ [splitConfFile]) = Some data \<and> TrimSpace data = string_bytes (conf_Name conf)) \<and>
     (\<forall>name. node_at w (dir @ [name]) \<noteq> None \<longrightarrow> name = splitConfFile \<or> (\<exists>k. name = Key_String k))"

lemma Key_String_not_conf: "Key_String k \<noteq> splitConfFile"
  by (simp add: Key_String_def splitConfFile_def)

context queue_deps
begin

lemma load_queue:
  assumes t: "tracked d bs w C {}" and fk: "bs_forks bs = []" and dir: "queue_dir_ok (bs_dir bs) conf w"
    and sf: "split_fn opts = split_fn (bs_opts bs)" and sm: "\<forall>k\<in>dom C. small bs w k"
    and pg: "0 < d_page d" "128 * d_page d < 2 ^ 62"
  obtains bs' C' where "loadAllBuckets d (bs_dir bs) opts w = (Inr bs', w)" "tracked d bs' w C' {}"
    "\<And>k g. c_items d C' k g = c_items d C k g" "tree_keys d bs' = tree_keys d bs" "bs_opts bs' = opts" "bs_forks bs' = []"
    "bs_dir bs' = bs_dir bs"
proof -
  let ?dir = "bs_dir bs"
  have nf: "w_faults w = []" and anc: "\<forall>q\<in>set (ancestors ?dir). node_at w q = Some Dir" using t by (auto simp: tracked_def)
  have "?dir \<in> set (ancestors ?dir)" by (auto simp: ancestors_def)
  then have "node_at w ?dir = Some Dir" using anc by blast
  then obtain names where R: "ReadDir ?dir w = (Inr names, w)" using nf by (simp add: ReadDir_def)
  have node: "node_at w (?dir @ [Key_String k]) = (if k \<in> dom C then Some Dir else None)" for k
  proof (cases "C k")
    case None
    have "entry_ok d bs w k (C k) (tree_get d k bs)" using t by (simp add: tracked_def)
    then have "node_at w (buckPath bs k @ []) = None" using None by (metis entry_ok.simps(1))
    then show ?thesis using None by (simp add: buckPath_def domIff)
  next
    case (Some c)
    then have "held d bs w k (fst c) (snd c)" using dom_C_held(1) [OF t] by simp
    then show ?thesis using Some by (simp add: held_def buckPath_def domIff)
  qed
  have conf: "node_at w (?dir @ [splitConfFile]) \<noteq> Some Dir" using dir by (auto simp: queue_dir_ok_def node_at_file)
  have names: "\<forall>name\<in>set names. if name = splitConfFile then node_at w (?dir @ [name]) \<noteq> Some Dir
       else node_at w (?dir @ [name]) = Some Dir \<and> (\<exists>key. KeyFromString name = Inr key) \<and>
            (\<exists>calls. ReadTrailers (?dir @ [name]) w = (None, calls, w))"
  proof
    fix name
    assume "name \<in> set names"
    then have n: "node_at w (?dir @ [name]) \<noteq> None" using ReadDir_names [OF R] by blast
    show "if name = splitConfFile then node_at w (?dir @ [name]) \<noteq> Some Dir
       else node_at w (?dir @ [name]) = Some Dir \<and> (\<exists>key. KeyFromString name = Inr key) \<and>
            (\<exists>calls. ReadTrailers (?dir @ [name]) w = (None, calls, w))"
    proof (cases "name = splitConfFile")
      case True
      then show ?thesis using conf by simp
    next
      case False
      then obtain k where k: "name = Key_String k" using dir n by (auto simp: queue_dir_ok_def)
      then obtain c where "C k = Some c" using n node [of k] by (auto split: if_splits)
      then have "held d bs w k (fst c) (snd c)" using dom_C_held(1) [OF t] by simp
      from ReadTrailers_held [OF this] show ?thesis
        using False k n node [of k] Key_String_parses [of k] by (auto simp: buckPath_def split: if_splits)
    qed
  qed
  define ld0 where "ld0 = \<lparr>ld_expectedFiles = 0, ld_dirsHandled = 0, ld_tree = bt_empty (d_tree d), ld_trailers = []\<rparr>"
  obtain ld where E: "load_entries d ?dir opts names ld0 w = (Inr ld, w)" "ld_expectedFiles ld + ld_dirsHandled ld = length names"
    using load_entries_ok [OF nf names, of d opts ld0] by (auto simp: ld0_def)
  define bs0 where "bs0 = \<lparr>bs_dir = ?dir, bs_tree = ld_tree ld, bs_trailers = ld_trailers ld, bs_opts = opts,
    bs_forks = [] :: ForkName list, bs_closed = [] :: (Key \<times> 'm bucket) list\<rparr>"
  have un: "n_loaded (view bs0) = 0" using load_entries_unloaded [OF E(1)] by (simp add: bs0_def ld0_def)
  have "set (tree_keys d bs0) = dir_keys ?dir names w"
    using load_entries_keys [OF E(1)] by (simp add: bs0_def tree_keys_def ld0_def)
  also have "\<dots> = dom C"
  proof (intro set_eqI iffI)
    fix k
    assume "k \<in> dir_keys ?dir names w"
    then obtain name where n: "name \<in> set names" "node_at w (?dir @ [name]) = Some Dir" "KeyFromString name = Inr k"
      by (auto simp: dir_keys_def)
    then obtain k' where "name = Key_String k'" using conf dir by (metis option.distinct(1) queue_dir_ok_def)
    then show "k \<in> dom C" using n node [of k'] Key_String_parses [of k'] by (auto split: if_splits)
  next
    fix k
    assume "k \<in> dom C"
    then have "node_at w (?dir @ [Key_String k]) = Some Dir" using node [of k] by simp
    then show "k \<in> dir_keys ?dir names w"
      using ReadDir_names [OF R, of "Key_String k"] Key_String_parses [of k] by (auto simp: dir_keys_def)
  qed
  finally have keys: "set (tree_keys d bs0) = dom C" .
  have get: "tree_get d k bs0 = (if C k = None then None else Some None)" for k
  proof -
    have "v = None" if "tree_get d k bs0 = Some v" for v
      using un that by (cases v) (auto simp: n_loaded_def filter_empty_conv tree_get_view dest!: map_of_SomeD)
    then show ?thesis using keys tree_get_keys [of k bs0] by (cases "tree_get d k bs0") (auto simp: domIff)
  qed
  have t0: "tracked d bs0 w C {}"
    by (rule tracked_unloaded [OF t]) (use get sf fk in \<open>simp_all add: bs0_def fork_names_def\<close>)
  have sm0: "\<forall>k\<in>dom C. small bs0 w k" using sm fk by (simp add: small_def bs0_def fork_names_def buckPath_def)
  have fk0: "bs_forks bs0 = []" by (simp add: bs0_def)
  obtain bs' C' where F: "fetchForks d bs0 w = (Inr [], bs', w)" "same_conf bs0 bs'" "tracked d bs' w C' {}"
    "\<And>k g. c_items d C' k g = c_items d C k g" "tree_keys d bs' = tree_keys d bs0"
    using fetchForks_ok [OF t0 un fk0 sm0 pg] by blast
  have fk': "bs_forks bs' = []" using F(2) by (simp add: same_conf_def bs0_def)
  have "\<not> (ld_dirsHandled ld = 0 \<and> length names > ld_expectedFiles ld)" using E(2) by linarith
  then have "loadAllBuckets d ?dir opts w = (Inr bs', w)"
    using MkdirAll_exists [OF nf anc] R E(1) F(1) bs_forks_id [OF fk']
    by (simp add: loadAllBuckets_def ld0_def [symmetric] bs0_def [symmetric] Let_def)
  moreover have "tree_keys d bs0 = tree_keys d bs"
    using keys keys_dom [OF t] view_sorted(1) [of bs] view_sorted(1) [of bs0]
    by (intro strict_sorted_equal) (simp_all add: tree_keys_def)
  ultimately show ?thesis using that [of bs' C'] F fk' by (simp add: same_conf_def bs0_def)
qed

lemma Open_again:
  assumes t: "tracked d bs w C {}" and sp: "bucket_split (split_fn (bs_opts bs))" and fk: "bs_forks bs = []"
    and val: "Options_Validate opts = (None, opts')" and cf: "opt_BucketSplitConf opts' = opt_BucketSplitConf (bs_opts bs)"
    and dir: "queue_dir_ok (bs_dir bs) (opt_BucketSplitConf opts') w" and sm: "\<forall>k\<in>set (tree_keys d bs). small bs w k"
    and pg: "0 < d_page d" "128 * d_page d < 2 ^ 62" and len: "length (queue_items d '''' bs w) < 2 ^ 63"
  obtains bs' C' where "Open d (bs_dir bs) opts w = (Inr \<lparr>q_buckets = bs'\<rparr>, w)" "tracked d bs' w C' {}"
    "tree_keys d bs' = tree_keys d bs" "queue_items d '''' bs' w = queue_items d '''' bs w" "bs_opts bs' = opts'"
    "bs_forks bs' = []" "bs_dir bs' = bs_dir bs"
proof -
  note dom = keys_dom [OF t]
  have names: "fork_names bs = {''''}" using fk by (simp add: fork_names_def)
  have sf: "split_fn opts' = split_fn (bs_opts bs)" using cf by (simp add: split_fn_def)
  have sm': "\<forall>k\<in>dom C. small bs w k" using sm dom by simp
  obtain bs' C' where L: "loadAllBuckets d (bs_dir bs) opts' w = (Inr bs', w)" "tracked d bs' w C' {}"
    "\<And>k g. c_items d C' k g = c_items d C k g" "tree_keys d bs' = tree_keys d bs" "bs_opts bs' = opts'" "bs_forks bs' = []"
    "bs_dir bs' = bs_dir bs"
    using load_queue [OF t fk dir sf sm' pg] by blast
  have fixed: "split_fn opts' k = k" if "k \<in> set (tree_keys d bs)" for k
    using bucket_key_fixed [OF t sp, of k] that dom len names sf by simp
  obtain data where data: "file_at w (bs_dir bs @ [splitConfFile]) = Some data"
    "TrimSpace data = string_bytes (conf_Name (opt_BucketSplitConf opts'))"
    using dir by (auto simp: queue_dir_ok_def)
  have nf: "w_faults w = []" using t by (simp add: tracked_def)
  have app: "(case conf_Func (opt_BucketSplitConf opts') of None \<Rightarrow> k | Some f \<Rightarrow> f k) = split_fn opts' k" for k
    by (simp add: split_fn_def split: option.split)
  have V: "ValidateBucketKeys d (opt_BucketSplitConf opts') bs' w = (None, w)"
    using nf data L(4,7) fixed
    by (simp add: ValidateBucketKeys_def Let_def OpenRead_def node_at_file list_all_iff app)
  have "Open d (bs_dir bs) opts w = (Inr \<lparr>q_buckets = bs'\<rparr>, w)" using val L(1) V by (simp add: Open_def)
  moreover have "queue_items d '''' bs' w = queue_items d '''' bs w"
    using items_at_c [OF L(2), of "''''"] items_at_c [OF t, of "''''"] names L(3,4,6)
    by (simp add: queue_items_def fork_names_def)
  ultimately show ?thesis using that L(2,4-7) by blast
qed

end

text \<open>
  C5 (persistence): a queue in order without forks whose directory holds nothing else can be closed and
  opened again; it is then in order, with the same items in the same buckets, and the files have
  not changed.
\<close>

theorem Open_after_Close:
  assumes "queue_deps d" "buckets_ok d (q_buckets q) w" "bucket_split (split_fn (bs_opts (q_buckets q)))"
    "bs_forks (q_buckets q) = []" "Options_Validate opts = (None, opts')"
    "opt_BucketSplitConf opts' = opt_BucketSplitConf (bs_opts (q_buckets q))"
    "queue_dir_ok (bs_dir (q_buckets q)) (opt_BucketSplitConf opts') w"
    "\<forall>k\<in>set (tree_keys d (q_buckets q)). small (q_buckets q) w k" "0 < d_page d" "128 * d_page d < 2 ^ 62"
    "length (queue_items d '''' (q_buckets q) w) < 2 ^ 63"
  shows "\<exists>q1 q'. Queue_Close d q w = (Ret None, q1, w) \<and> Open d (bs_dir (q_buckets q)) opts w = (Inr q', w) \<and>
    buckets_ok d (q_buckets q') w \<and> tree_keys d (q_buckets q') = tree_keys d (q_buckets q) \<and>
    queue_items d '''' (q_buckets q') w = queue_items d '''' (q_buckets q) w"
proof -
  let ?bs = "q_buckets q"
  obtain C where t: "tracked d ?bs w C {}" using assms(2) by (auto simp: buckets_ok_def)
  then have nf: "w_faults w = []" by (simp add: tracked_def)
  obtain bs' C' where o: "Open d (bs_dir ?bs) opts w = (Inr \<lparr>q_buckets = bs'\<rparr>, w)" "tracked d bs' w C' {}"
    "tree_keys d bs' = tree_keys d ?bs" "queue_items d '''' bs' w = queue_items d '''' ?bs w"
    using queue_deps.Open_again [OF assms(1) t assms(3-11)] by blast
  show ?thesis using Queue_Close_ok [OF nf, of d q] o
    by (intro exI [of _ q] exI [of _ "\<lparr>q_buckets = bs'\<rparr>"]) (auto simp: buckets_ok_def)
qed

section \<open>A concrete directory\<close>

lemma tracked_other:
  assumes "tracked d bs w C X" "w_faults w' = []" "\<forall>q\<in>set (ancestors (bs_dir bs)). node_at w' q = Some Dir"
    "\<And>k q. node_at w' (buckPath bs k @ q) = node_at w (buckPath bs k @ q)"
  shows "tracked d bs w' C X"
  using assms entry_ok_frame [OF _ assms(2,4)] by (simp add: tracked_def)

definition conf_world :: world where
  "conf_world = put_node [splitConfFile] (File (string_bytes ''shift:37'')) re_world"

lemma conf_nodes: "node_at conf_world (Key_String k # q) = node_at re_world (Key_String k # q)"
  using Key_String_not_conf [of k] by (simp add: conf_world_def)

lemma conf_queue:
  "buckets_ok demo_deps (q_buckets re_queue) conf_world"
  "queue_items demo_deps '''' (q_buckets re_queue) conf_world = [wit_item 3]"
  "small (q_buckets re_queue) conf_world (key_of_int 0)"
proof -
  have t: "tracked demo_deps (q_buckets re_queue) conf_world [key_of_int 0 \<mapsto> (re_bucket, [wit_item 3])] {}"
    by (rule tracked_other [OF re_tracked])
      (simp_all add: re_path conf_nodes, simp_all add: conf_world_def re_world_def re_queue_def ancestors_def node_at_def put_node_def splitConfFile_def)
  then show "buckets_ok demo_deps (q_buckets re_queue) conf_world" unfolding buckets_ok_def by blast
  show "queue_items demo_deps '''' (q_buckets re_queue) conf_world = [wit_item 3]"
    using demo.items_at_c [OF t, of "''''"] re_items [of "''''"] demo_index re_queue_ok(3)
    by (simp add: queue_items_def re_names c_items_def)
  show "small (q_buckets re_queue) conf_world (key_of_int 0)"
    using re_queue_ok(4) conf_nodes unfolding small_def re_path(1) by (simp add: contents_def file_at_def idxPath_def Let_def)
qed

lemma conf_dir_ok: "queue_dir_ok (bs_dir (q_buckets re_queue)) DefaultBucketSplitConf conf_world"
proof -
  have "show_int 37 = ''37''" by code_simp
  then have "TrimSpace (string_bytes ''shift:37'') = string_bytes (conf_Name DefaultBucketSplitConf)"
    by (simp add: TrimSpace_def trim_left.simps leading_space_def space_encodings_def string_bytes_def DefaultBucketSplitConf_def)
  moreover have "\<exists>k. name = Key_String k" if "node_at re_world [name] \<noteq> None" for name
    using that by (auto simp: re_world_def re_dir_def node_at_def split: if_splits)
  ultimately show ?thesis by (auto simp: queue_dir_ok_def conf_world_def re_queue_def)
qed

theorem Open_finds_buckets_witness:
  "\<exists>q w. Open demo_deps [''q''] DefaultOptions demo_world = (Inr q, w) \<and> tree_keys demo_deps (q_buckets q) = []"
proof -
  obtain q w where o: "Open demo_deps [''q''] DefaultOptions demo_world = (Inr q, w)" using demo_Open by blast
  then have "set (tree_keys demo_deps (q_buckets q)) = {}"
    using Open_finds_buckets [OF demo.tree.btree_map_axioms o] by (auto simp: demo_world_def node_at_def)
  then show ?thesis using o by auto
qed

theorem Open_after_Close_witness:
  "\<exists>q'. Open demo_deps [] DefaultOptions conf_world = (Inr q', conf_world) \<and>
     queue_items demo_deps '''' (q_buckets q') conf_world = [wit_item 3]"
proof -
  have sel: "bs_dir (q_buckets re_queue) = []" "bs_forks (q_buckets re_queue) = []"
    "opt_BucketSplitConf DefaultOptions = opt_BucketSplitConf (bs_opts (q_buckets re_queue))"
    "opt_BucketSplitConf DefaultOptions = DefaultBucketSplitConf"
    by (simp_all add: re_queue_def DefaultOptions_def)
  have val: "Options_Validate DefaultOptions = (None, DefaultOptions)"
    by (simp add: Options_Validate_def DefaultOptions_def DefaultBucketSplitConf_def SyncMode_IsValid_def
        SyncFull_def SyncData_def SyncIndex_def ErrorMode_IsValid_def ErrorModeAbort_def errorModeMax_def)
  have "bucket_split (split_fn (bs_opts (q_buckets re_queue)))" unfolding re_names by (rule shift.bucket_split_axioms)
  moreover have "0 < d_page demo_deps" "128 * d_page demo_deps < 2 ^ 62" by (simp_all add: demo_deps_def)
  ultimately show ?thesis
    using Open_after_Close [OF demo.queue_deps_axioms conf_queue(1) _ sel(2) val sel(3)] conf_dir_ok conf_queue(2,3)
      re_queue_ok(3) sel by auto
qed

end
