(* ===== verification/Buckets_Fork.thy ===== *)
theory Buckets_Fork
  imports Buckets_Read
begin

text \<open>
  Forking a whole queue. In a loaded bucket the index of the source is copied and its batches are
  written to the log of the new fork; of a bucket that is not loaded the log file is copied. The
  bucket is then in order for a collection that knows the new fork.
\<close>

section \<open>The contract of the file operations of other packages\<close>

text \<open>
  \<^verbatim>\<open>renameio.WriteFile\<close> and \<^verbatim>\<open>copy.Copy\<close> on a file as documented: the file has the new content afterwards,
  and nothing else changed.
\<close>

locale queue_files = queue_deps d for d :: "('m, 't) deps" +
  assumes WriteFile_ok: "w_faults w = [] \<Longrightarrow> node_at w (butlast p) = Some Dir \<Longrightarrow> node_at w p \<noteq> Some Dir \<Longrightarrow>
      \<exists>w'. d_WriteFile d p bs w = (None, w') \<and> w_faults w' = [] \<and> node_at w' = (node_at w)(p \<mapsto> File bs)"
    and Copy_ok: "w_faults w = [] \<Longrightarrow> node_at w p = Some (File bs) \<Longrightarrow> node_at w (butlast p') = Some Dir \<Longrightarrow>
      node_at w p' = None \<Longrightarrow>
      \<exists>w'. d_Copy d p p' w = (None, w') \<and> w_faults w' = [] \<and> node_at w' = (node_at w)(p' \<mapsto> File bs)"

interpretation demo_files: queue_files demo_deps
  by unfold_locales (auto simp: demo_deps_def)

section \<open>A collection with one more fork\<close>

definition with_fork :: "ForkName \<Rightarrow> ('m, 't) buckets \<Rightarrow> ('m, 't) buckets" where
  "with_fork dst bs = bs\<lparr>bs_forks := bs_forks bs @ [dst]\<rparr>"

lemma with_fork_simps [simp]:
  "buckPath (with_fork dst bs) = buckPath bs" "fork_names (with_fork dst bs) = insert dst (fork_names bs)"
  "bs_opts (with_fork dst bs) = bs_opts bs" "bs_dir (with_fork dst bs) = bs_dir bs" "tree_get d k (with_fork dst bs) = tree_get d k bs"
  "tree_keys d (with_fork dst bs) = tree_keys d bs" "bs_forks (with_fork dst bs) = bs_forks bs @ [dst]"
  by (auto simp: with_fork_def buckPath_def fork_names_def tree_get_def tree_keys_def fun_eq_iff)

lemma with_fork_conf: "same_conf bs bs' \<Longrightarrow> same_conf (with_fork dst bs) (with_fork dst bs')"
  by (simp add: same_conf_def)

lemma volume_pos:
  assumes "fold apply_rec (map fst rs) (\<lambda>_. []) k \<noteq> []"
  shows "0 < volume rs"
proof (rule ccontr)
  assume "\<not> 0 < volume rs"
  then have zero: "\<forall>r\<in>set rs. loc_Len (fst r) = 0" by (auto simp: volume_def unat_eq_0)
  have "fold apply_rec (map fst rs) q k = []" if "\<forall>k. q k = []" for q
    using zero that by (induction rs arbitrary: q) (auto simp: apply_rec_def)
  then show False using assms by simp
qed

context queue_deps
begin

lemma held_copy:
  assumes h: "held d bs w key b its" and fl: "filed d bs w key b" and s: "map_of (b_indexes b) src = Some sidx"
    and new: "dst \<notin> fork_names bs" and ne: "fork_items (d_index d) b src \<noteq> []"
    and w': "wrote w (idxPath (buckPath bs key) dst) (enc_recs rs) w'"
    and idx: "wr_path (bi_Log idx) = idxPath (buckPath bs key) dst" "bi_Mem idx = bi_Mem sidx"
    and rs: "\<forall>(loc, t) \<in> set rs. rec_ok loc" "locs_at (d_index d) (bi_Mem sidx) = fold apply_rec (map fst rs) (\<lambda>_. [])"
  defines "b' \<equiv> put_index dst idx b"
  shows "held d (with_fork dst bs) w' key b' its" "filed d (with_fork dst bs) w' key b'" "only_at (buckPath bs key) w w'"
    "\<And>f. fork_items (d_index d) b' f = fork_items (d_index d) b (if f = dst then src else f)"
proof -
  let ?bt = "d_index d" and ?dir = "buckPath bs key"
  have ok: "bucket_ok ?bt its b w" and dir: "b_dir b = ?dir" and names: "fst ` set (b_indexes b) = fork_names bs"
    and mm: "log_mmap (b_log b) \<noteq> []" and bk: "b_key b = key" and nd: "node_at w ?dir = Some Dir"
    using h by (simp_all add: held_def)
  have split: "\<forall>fork. \<forall>it\<in>set (fork_items ?bt b fork). split_fn (bs_opts bs) (item_Key it) = key"
    and all: "\<forall>q. node_at w (?dir @ q) \<noteq> None \<longrightarrow> q = [] \<or> ?dir @ q \<in> bucket_files b"
    using h unfolding held_def by blast+
  have no: "map_of (b_indexes b) dst = None" using new names by (simp add: map_of_eq_None_iff)
  have fk: "fork_ok ?bt b w' dst idx" using idx.fork_ok_copy [OF ok s, of dst rs w' idx] w' idx rs dir by simp
  have ok': "bucket_ok ?bt its b' w'" unfolding b'_def by (rule bucket_ok_new_fork [OF ok no _ fk]) (use w' dir in simp)
  have m: "map_of (b_indexes b') = (map_of (b_indexes b))(dst \<mapsto> idx)" by (simp add: b'_def put_index_def update_conv')
  have names': "fst ` set (b_indexes b') = insert dst (fork_names bs)"
    using arg_cong [OF m, of dom] names by (simp add: dom_map_of_conv_image_fst)
  show items: "fork_items ?bt b' f = fork_items ?bt b (if f = dst then src else f)" for f
    using m s idx(2) by (simp add: fork_items_def b'_def put_index_def split: option.split)
  have node: "node_at w' q = (if q = idxPath ?dir dst then Some (File (enc_recs rs)) else node_at w q)" for q
    using w' by (simp add: wrote_def)
  have files: "bucket_files b' = insert (idxPath ?dir dst) (bucket_files b)"
    using names names' dir by (auto simp: bucket_files_def b'_def put_index_def)
  obtain n where n: "idxPath ?dir dst = ?dir @ [n]" by (auto simp: idxPath_def Let_def)
  show "only_at ?dir w w'" using w' n by (auto simp: only_at_def wrote_def)
  have split': "\<forall>f. \<forall>it\<in>set (fork_items ?bt b' f). split_fn (bs_opts bs) (item_Key it) = key" using split items by metis
  have all': "\<forall>q. node_at w' (?dir @ q) \<noteq> None \<longrightarrow> q = [] \<or> ?dir @ q \<in> bucket_files b'"
    unfolding files node using all by auto
  have "node_at w' ?dir = Some Dir" using node nd n by simp
  then show "held d (with_fork dst bs) w' key b' its"
    unfolding held_def with_fork_simps using ok' mm names' dir bk split' all' by (simp add: b'_def put_index_def)
  have "locs_at ?bt (bi_Mem sidx) \<noteq> (\<lambda>_. [])"
  proof
    assume z: "locs_at ?bt (bi_Mem sidx) = (\<lambda>_. [])"
    have "index_items ?bt (b_log b) (bi_Mem sidx) \<noteq> []" using ne s by (simp add: fork_items_def)
    then obtain loc where loc: "loc \<in> set (all_locs ?bt (bi_Mem sidx))" by (auto simp: index_items_def)
    have "wf_index ?bt (bi_Mem sidx)" using bucket_okD(6) [OF ok s] by (simp add: fork_ok_def index_ok_def)
    then have "loc \<in> set (locs_at ?bt (bi_Mem sidx) (loc_Key loc))" using loc by (simp flip: idx.filter_all_locs)
    then show False using z by simp
  qed
  then have vol: "0 < volume rs" using volume_pos rs(2) by (metis (full_types))
  have "\<exists>rs. file_at w' (idxPath ?dir f) = Some (enc_recs rs) \<and> (\<forall>(loc, t) \<in> set rs. rec_ok loc) \<and> 0 < volume rs"
    if f: "f \<in> insert dst (fork_names bs)" for f
  proof (cases "f = dst")
    case True
    then show ?thesis using wrote_file_at [OF w'] rs(1) vol by (intro exI [of _ rs]) simp
  next
    case False
    then obtain rs0 where "file_at w (idxPath ?dir f) = Some (enc_recs rs0)" "\<forall>(loc, t) \<in> set rs0. rec_ok loc" "0 < volume rs0"
      using fl f unfolding filed_def by blast
    then show ?thesis using wrote_file_at [OF w'] False by (intro exI [of _ rs0]) simp
  qed
  moreover have "\<not> bucket_AllEmpty b'"
  proof -
    obtain g jdx where "map_of (b_indexes b) g = Some jdx" "idx_len (bi_Mem jdx) \<noteq> 0"
      using fl bucket_okD(5) [OF ok] unfolding filed_def bucket_AllEmpty_iff by fastforce
    then have "map_of (b_indexes b') g = Some jdx" "idx_len (bi_Mem jdx) \<noteq> 0" using m no by auto
    then show ?thesis unfolding bucket_AllEmpty_iff using map_of_SomeD by fastforce
  qed
  ultimately show "filed d (with_fork dst bs) w' key b'" unfolding filed_def with_fork_simps by blast
qed

end

section \<open>The loop over the buckets\<close>

text \<open>The callback of \<^verbatim>\<open>Fork\<close>\<close>

definition fork_fn :: "('m, 't) deps \<Rightarrow> ForkName \<Rightarrow> ForkName \<Rightarrow> ('m, 't, unit) iter_fn" where
  "fork_fn d src dst key buck s bs w =
     (case buck of
        Some b \<Rightarrow> (case bucket_Fork (d_index d) src dst b w of (e, b, w) \<Rightarrow> (Ret e, s, put_bucket d key b bs, w))
      | None \<Rightarrow> (case forkOffline (d_Copy d) (buckPath bs key) src dst w of (e, w) \<Rightarrow> (Ret e, s, bs, w)))"

lemma buckets_Fork_loop:
  "ForkName_Validate d dst = None \<Longrightarrow> dst \<notin> set (bs_forks bs) \<Longrightarrow>
     buckets_Fork d src dst bs w =
       (case iter_loop d includeNil (fork_fn d src dst) (tree_keys d bs) () bs w of
          (Ret None, _, bs, w) \<Rightarrow> (Ret None, with_fork dst bs, w)
        | (r, _, bs, w) \<Rightarrow> (r, bs, w))"
  unfolding with_fork_def by (simp add: buckets_Fork_def buckets_iter_def fork_fn_def [abs_def])

text \<open>The buckets in \<open>P\<close> have the new fork, the others not yet.\<close>

definition forking :: "('m, 't) deps \<Rightarrow> ForkName \<Rightarrow> ('m, 't) buckets \<Rightarrow> world \<Rightarrow> (Key \<rightharpoonup> 'm bucket \<times> Items) \<Rightarrow> Key set \<Rightarrow> bool" where
  "forking d dst bs w C P \<longleftrightarrow> tracked d bs w C P \<and> tracked d (with_fork dst bs) w C (- P)"

lemma entry_ok_with_fork: "entry_ok d (with_fork dst bs) w key None v = entry_ok d bs w key None v"
  by simp

context queue_files
begin

lemma fork_log:
  assumes h: "held d bs w key b its" and v: "v = None \<or> v = Some b" and src: "src \<in> fork_names bs" and new: "dst \<notin> fork_names bs"
  obtains sidx idx rs w' bs' where "map_of (b_indexes b) src = Some sidx"
    "fork_fn d src dst key v () bs w = (Ret None, (), bs', w')" "bs' = (if v = None then bs else put_bucket d key (put_index dst idx b) bs)"
    "wrote w (idxPath (buckPath bs key) dst) (enc_recs rs) w'"
    "wr_path (bi_Log idx) = idxPath (buckPath bs key) dst" "bi_Mem idx = bi_Mem sidx" "\<forall>(loc, t) \<in> set rs. rec_ok loc"
    "locs_at (d_index d) (bi_Mem sidx) = fold apply_rec (map fst rs) (\<lambda>_. [])"
proof -
  let ?bt = "d_index d" and ?dir = "buckPath bs key"
  have ok: "bucket_ok ?bt its b w" and dir: "b_dir b = ?dir" and names: "fst ` set (b_indexes b) = fork_names bs"
    and nd: "node_at w ?dir = Some Dir" using h by (simp_all add: held_def)
  have all: "\<forall>q. node_at w (?dir @ q) \<noteq> None \<longrightarrow> q = [] \<or> ?dir @ q \<in> bucket_files b" using h unfolding held_def by blast
  note k = bucket_okD [OF ok]
  obtain sidx where s: "map_of (b_indexes b) src = Some sidx" using src names by (metis map_of_eq_None_iff not_None_eq)
  have no: "map_of (b_indexes b) dst = None" using new names by (simp add: map_of_eq_None_iff)
  obtain n where n: "idxPath ?dir dst = ?dir @ [n]" by (auto simp: idxPath_def Let_def)
  have "idxPath ?dir dst \<notin> bucket_files b" using new names dir by (auto simp: bucket_files_def)
  then have none: "node_at w (idxPath ?dir dst) = None" using all n by fastforce
  consider "v = None" | "v = Some b" using v by blast
  then show ?thesis
  proof cases
    case 1
    have fk: "fork_ok ?bt b w src sidx" by (rule k(6) [OF s])
    then obtain rs where rs: "file_at w (idxPath ?dir src) = Some (enc_recs rs)" "\<forall>(loc, t) \<in> set rs. rec_ok loc"
      "locs_at ?bt (bi_Mem sidx) = fold apply_rec (map fst rs) (\<lambda>_. [])"
      using dir by (auto simp: fork_ok_def wal_ok_def)
    obtain w' where w': "d_Copy d (idxPath ?dir src) (idxPath ?dir dst) w = (None, w')"
      "wrote w (idxPath ?dir dst) (enc_recs rs) w'"
      using Copy_ok [OF k(1), of "idxPath ?dir src" "enc_recs rs" "idxPath ?dir dst"] rs(1) none nd n
      by (auto simp: node_at_file wrote_def)
    have "fork_fn d src dst key v () bs w = (Ret None, (), bs, w')"
      using 1 none k(1) w'(1) by (simp add: fork_fn_def forkOffline_def Stat_def)
    then show ?thesis
      using that [of sidx bs w' "\<lparr>bi_Log = \<lparr>wr_path = idxPath ?dir dst, wr_sync = False\<rparr>, bi_Mem = bi_Mem sidx\<rparr>" rs] s 1 w'(2) rs(2,3)
      by simp
  next
    case 2
    obtain idx rs w' where r: "bucket_Fork ?bt src dst b w = (None, put_index dst idx b, w')"
      "wrote w (idxPath ?dir dst) (enc_recs rs) w'" "wr_path (bi_Log idx) = idxPath ?dir dst" "bi_Mem idx = bi_Mem sidx"
      "\<forall>(loc, t) \<in> set rs. rec_ok loc" "locs_at ?bt (bi_Mem sidx) = fold apply_rec (map fst rs) (\<lambda>_. [])"
      using idx.bucket_Fork_run [OF ok s no, unfolded dir, OF none nd] by metis
    then show ?thesis using that [of sidx "put_bucket d key (put_index dst idx b) bs" w' idx rs] s 2 by (simp add: fork_fn_def)
  qed
qed

lemma fork_round:
  assumes i: "forking d dst bs w C P" and key: "key \<notin> P" "key \<in> dom C" and src: "src \<in> fork_names bs" and new: "dst \<notin> fork_names bs"
    and ne: "c_items d C key src \<noteq> []"
  obtains v bs' w' C' where "tree_get d key bs = Some v" "fork_fn d src dst key v () bs w = (Ret None, (), bs', w')" "same_conf bs bs'"
    "forking d dst bs' w' C' (insert key P)" "only_at (buckPath bs key) w w'" "\<And>k. k \<noteq> key \<Longrightarrow> C' k = C k" "dom C' = dom C"
    "\<And>f. c_items d C' key f = c_items d C key (if f = dst then src else f)"
proof -
  have t: "tracked d bs w C P" "tracked d (with_fork dst bs) w C (- P)" using i by (simp_all add: forking_def)
  obtain b its where C: "C key = Some (b, its)" using key(2) by auto
  have "entry_ok d bs w key (Some (b, its)) (tree_get d key bs)" using t(1) key(1) C by (metis tracked_def)
  then obtain v where v: "tree_get d key bs = Some v" "v = None \<or> v = Some b" and h: "held d bs w key b its" "filed d bs w key b"
    by auto
  have ne': "fork_items (d_index d) b src \<noteq> []" using ne C by (simp add: c_items_def)
  obtain sidx idx rs w' bs' where r: "map_of (b_indexes b) src = Some sidx" "fork_fn d src dst key v () bs w = (Ret None, (), bs', w')"
    "bs' = (if v = None then bs else put_bucket d key (put_index dst idx b) bs)"
    "wrote w (idxPath (buckPath bs key) dst) (enc_recs rs) w'"
    "wr_path (bi_Log idx) = idxPath (buckPath bs key) dst" "bi_Mem idx = bi_Mem sidx" "\<forall>(loc, t) \<in> set rs. rec_ok loc"
    "locs_at (d_index d) (bi_Mem sidx) = fold apply_rec (map fst rs) (\<lambda>_. [])"
    by (rule fork_log [OF h(1) v(2) src new])
  define b' where "b' = put_index dst idx b"
  define C' where "C' = C(key \<mapsto> (b', its))"
  note hc = held_copy [OF h r(1) new ne' r(4-8), folded b'_def]
  have conf: "same_conf bs bs'" using r(3) by (simp add: same_conf_def put_bucket_def tree_set_def)
  have get: "tree_get d k bs' = tree_get d k bs" if "k \<noteq> key" for k using r(3) that by (simp add: put_bucket_def)
  have getk: "tree_get d key bs' = Some None \<or> tree_get d key bs' = Some (Some b')"
    using r(3) v(1) by (simp add: put_bucket_def b'_def)
  have tP: "tracked d bs' w' C (insert key P)"
  proof (rule tracked_conf [OF tracked_frame [OF _ hc(3)] conf])
    show "tracked d bs w C (insert key P)" using t(1) by (simp add: tracked_def)
  qed (use get in auto)
  have tN: "tracked d (with_fork dst bs') w' C (insert key (- P))"
  proof (rule tracked_conf [OF tracked_frame [where key = key] with_fork_conf [OF conf]])
    show "tracked d (with_fork dst bs) w C (insert key (- P))" using t(2) by (simp add: tracked_def)
    show "only_at (buckPath (with_fork dst bs) key) w w'" using hc(3) by simp
  qed (use get in auto)
  have h': "held d (with_fork dst bs') w' key b' its" "filed d (with_fork dst bs') w' key b'"
    using hc(1,2) held_conf(1,2) [OF with_fork_conf [OF conf, of dst]] by simp_all
  have "tracked d bs' w' C' (insert key P)" using tP by (simp add: tracked_def C'_def)
  moreover have "entry_ok d (with_fork dst bs') w' k (C' k) (tree_get d k (with_fork dst bs'))" if "k \<in> insert key P" for k
  proof (cases "k = key")
    case True
    then show ?thesis using h' getk by (simp add: C'_def)
  next
    case False
    then show ?thesis using tN that by (simp add: C'_def tracked_def)
  qed
  then have "tracked d (with_fork dst bs') w' C' (- insert key P)" using tN by (simp add: tracked_def)
  ultimately have "forking d dst bs' w' C' (insert key P)" by (simp add: forking_def)
  moreover have "c_items d C' key f = c_items d C key (if f = dst then src else f)" for f
    using hc(4) C by (simp add: C'_def c_items_def)
  moreover have "dom C' = dom C" using key(2) by (auto simp: C'_def)
  ultimately show ?thesis using that [OF v(1) r(2) conf _ hc(3), of C'] by (simp add: C'_def)
qed

lemma fork_loop_ok:
  assumes "forking d dst bs w C P" "distinct ks" "set ks \<subseteq> dom C - P" "src \<in> fork_names bs" "dst \<notin> fork_names bs"
    "\<forall>k\<in>set ks. c_items d C k src \<noteq> []"
  shows "\<exists>bs' w' C'. iter_loop d includeNil (fork_fn d src dst) ks () bs w = (Ret None, (), bs', w') \<and> same_conf bs bs' \<and>
    forking d dst bs' w' C' (P \<union> set ks) \<and> outside bs w w' \<and> dom C' = dom C \<and>
    (\<forall>k f. c_items d C' k f = c_items d C k (if f = dst \<and> k \<in> set ks then src else f))"
  using assms
proof (induction ks arbitrary: bs w C P)
  case (Cons key ks)
  have k: "key \<notin> P" "key \<in> dom C" "c_items d C key src \<noteq> []" using Cons.prems(3,6) by auto
  obtain v bs1 w1 C1 where r: "tree_get d key bs = Some v" "fork_fn d src dst key v () bs w = (Ret None, (), bs1, w1)" "same_conf bs bs1"
    "forking d dst bs1 w1 C1 (insert key P)" "only_at (buckPath bs key) w w1" "\<And>k. k \<noteq> key \<Longrightarrow> C1 k = C k" "dom C1 = dom C"
    "\<And>f. c_items d C1 key f = c_items d C key (if f = dst then src else f)"
    using fork_round [OF Cons.prems(1) k(1,2) Cons.prems(4,5) k(3)] by metis
  have other: "c_items d C1 k f = c_items d C k f" if "k \<noteq> key" for k f using r(6) [OF that] by (simp add: c_items_def)
  have "\<exists>bs' w' C'. iter_loop d includeNil (fork_fn d src dst) ks () bs1 w1 = (Ret None, (), bs', w') \<and> same_conf bs1 bs' \<and>
      forking d dst bs' w' C' (insert key P \<union> set ks) \<and> outside bs1 w1 w' \<and> dom C' = dom C1 \<and>
      (\<forall>k f. c_items d C' k f = c_items d C1 k (if f = dst \<and> k \<in> set ks then src else f))"
  proof (rule Cons.IH [OF r(4)])
    show "distinct ks" "set ks \<subseteq> dom C1 - insert key P" using Cons.prems(2,3) r(7) by auto
    show "src \<in> fork_names bs1" "dst \<notin> fork_names bs1" using Cons.prems(4,5) held_conf(4) [OF r(3)] by simp_all
    show "\<forall>k\<in>set ks. c_items d C1 k src \<noteq> []"
    proof
      fix k
      assume "k \<in> set ks"
      then have "k \<noteq> key" "c_items d C k src \<noteq> []" using Cons.prems(2,6) by auto
      then show "c_items d C1 k src \<noteq> []" using other by simp
    qed
  qed
  then obtain bs' w' C' where p: "iter_loop d includeNil (fork_fn d src dst) ks () bs1 w1 = (Ret None, (), bs', w')" "same_conf bs1 bs'"
    "forking d dst bs' w' C' (insert key P \<union> set ks)" "outside bs1 w1 w'" "dom C' = dom C1"
    "\<forall>k f. c_items d C' k f = c_items d C1 k (if f = dst \<and> k \<in> set ks then src else f)" by blast
  have "iter_loop d includeNil (fork_fn d src dst) (key # ks) () bs w = (Ret None, (), bs', w')"
    using r(1,2) p(1) by (cases v) (simp_all add: iter_fetch_def)
  moreover have "outside bs w w'" using outside_trans [OF only_at_outside [OF r(5)]] p(4) outside_conf [OF r(3)] by metis
  moreover have "c_items d C' k f = c_items d C k (if f = dst \<and> k \<in> set (key # ks) then src else f)" for k f
    using p(6) r(8) other Cons.prems(2) by (cases "k = key") auto
  ultimately show ?case using p(3,5) r(7) same_conf_trans [OF r(3) p(2)]
    by (intro exI [of _ bs'] exI [of _ w'] exI [of _ C']) simp
qed auto

end

section \<open>The whole queue\<close>

context queue_files
begin

lemma Fork_all:
  assumes t: "tracked d bs w C {}" and val: "ForkName_Validate d dst = None" and src: "src \<in> fork_names bs"
    and new: "dst \<notin> fork_names bs" and ne: "\<forall>k\<in>set (tree_keys d bs). items_at d bs w k src \<noteq> []"
  obtains bs' w' C' where "buckets_Fork d src dst bs w = (Ret None, bs', w')" "same_conf (with_fork dst bs) bs'"
    "tracked d bs' w' C' {}" "outside bs w w'" "tree_keys d bs' = tree_keys d bs"
    "\<And>f. f \<in> insert dst (fork_names bs) \<Longrightarrow> queue_items d f bs' w' = queue_items d (if f = dst then src else f) bs w"
proof -
  let ?ks = "tree_keys d bs"
  have dom: "set ?ks = dom C" by (rule keys_dom [OF t])
  have dist: "distinct ?ks" using view_sorted(2) by (simp add: tree_keys_def)
  have i: "forking d dst bs w C {}" using t by (simp add: forking_def tracked_def)
  have ne': "\<forall>k\<in>set ?ks. c_items d C k src \<noteq> []" using ne items_at_c [OF t src] by simp
  obtain bs1 w' C' where p: "iter_loop d includeNil (fork_fn d src dst) ?ks () bs w = (Ret None, (), bs1, w')" "same_conf bs bs1"
    "forking d dst bs1 w' C' (set ?ks)" "outside bs w w'" "dom C' = dom C"
    "\<And>k f. c_items d C' k f = c_items d C k (if f = dst \<and> k \<in> set ?ks then src else f)"
    using fork_loop_ok [OF i dist _ src new ne'] dom by auto
  define bs' where "bs' = with_fork dst bs1"
  have "entry_ok d bs' w' k (C' k) (tree_get d k bs')" for k
  proof (cases "k \<in> set ?ks")
    case True
    then show ?thesis using p(3) by (simp add: forking_def tracked_def bs'_def)
  next
    case False
    then have "C' k = None" using p(5) dom by blast
    moreover have "entry_ok d bs1 w' k (C' k) (tree_get d k bs1)" using p(3) False by (simp add: forking_def tracked_def)
    ultimately
    show ?thesis by (simp add: bs'_def)
  qed
  then have t': "tracked d bs' w' C' {}" using p(3) by (simp add: tracked_def forking_def bs'_def)
  have "set (tree_keys d bs') = set ?ks" using keys_dom [OF t'] p(5) dom by simp
  then have keys: "tree_keys d bs' = ?ks"
    using view_sorted(1) [of bs] view_sorted(1) [of bs'] by (intro strict_sorted_equal) (simp_all add: tree_keys_def)
  have conf: "same_conf (with_fork dst bs) bs'" unfolding bs'_def by (rule with_fork_conf [OF p(2)])
  have names: "fork_names bs' = insert dst (fork_names bs)" using held_conf(4) [OF p(2)] by (simp add: bs'_def)
  have "queue_items d f bs' w' = queue_items d (if f = dst then src else f) bs w" if f: "f \<in> insert dst (fork_names bs)" for f
  proof -
    have "queue_items d f bs' w' = all_at d C' f ?ks" using all_at_queue [OF t', of f] f names keys by simp
    also have "\<dots> = all_at d C (if f = dst then src else f) ?ks" using p(6) by (simp add: all_at_def cong: map_cong)
    also have "\<dots> = queue_items d (if f = dst then src else f) bs w" by (rule all_at_queue [OF t]) (use f src in auto)
    finally show ?thesis .
  qed
  moreover have "buckets_Fork d src dst bs w = (Ret None, bs', w')"
    using buckets_Fork_loop [OF val, of bs src w] new p(1) by (simp add: fork_names_def bs'_def)
  ultimately show ?thesis using that conf t' p(4) keys by blast
qed

end



end
