(* ===== verification/Queue_Refine.thy ===== *)
theory Queue_Refine
  imports Queue_Open Buckets_Delete Buckets_Fork
begin

text \<open>
  The queue as a whole against an abstract priority queue: for every fork a multiset of items. Sequences
  of pushes, pops, deletions, forks, clears and restarts of the program act on the files as the abstract queue
  does on its multisets.
\<close>

section \<open>The abstract queue\<close>

datatype qop = DoPush Items | DoPop Consumer int | DoDelete Consumer Key Key | DoFork Consumer ForkName | DoClear | DoReopen

datatype qres = Done | Got Items | Deleted int

type_synonym pq = "ForkName \<rightharpoonup> Item multiset"

definition consumer_fork :: "Consumer \<Rightarrow> ForkName" where
  "consumer_fork c = (case c of QueueConsumer \<Rightarrow> '''' | ForkConsumer fk \<Rightarrow> fork_name fk)"

text \<open>One operation on an abstract queue, which maps its forks to their items, and its result\<close>

fun spec_op :: "qop \<Rightarrow> pq \<Rightarrow> qres \<Rightarrow> pq \<Rightarrow> bool" where
  "spec_op (DoPush items) A r A' \<longleftrightarrow> r = Done \<and> A' = (\<lambda>f. map_option (\<lambda>M. M + mset items) (A f))"
| "spec_op (DoPop c n) A r A' \<longleftrightarrow>
     (\<exists>M out M'. A (consumer_fork c) = Some M \<and> r = Got out \<and> sorted (keys_of out) \<and>
        length out = (if n < 0 then size M else min (nat n) (size M)) \<and> M = mset out + M' \<and>
        (\<forall>x\<in>set out. \<forall>y\<in>#M'. item_Key x \<le> item_Key y) \<and> A' = A(consumer_fork c \<mapsto> M'))"
| "spec_op (DoDelete c from to) A r A' \<longleftrightarrow>
     (\<exists>M. A (consumer_fork c) = Some M \<and> r = Deleted (int (size (filter_mset (doomed from to) M))) \<and>
        A' = A(consumer_fork c \<mapsto> filter_mset (\<lambda>x. \<not> doomed from to x) M))"
| "spec_op (DoFork c name) A r A' \<longleftrightarrow>
     (\<exists>M. A (consumer_fork c) = Some M \<and> A name = None \<and> r = Done \<and> A' = A(name \<mapsto> M))"
| "spec_op DoClear A r A' \<longleftrightarrow> r = Done \<and> A' = (\<lambda>f. map_option (\<lambda>_. {#}) (A f))"
| "spec_op DoReopen A r A' \<longleftrightarrow> r = Done \<and> A' = A"

inductive spec_run :: "pq \<Rightarrow> (qop \<times> qres) list \<Rightarrow> pq \<Rightarrow> bool" where
  spec_Nil: "spec_run A [] A"
| spec_Cons: "spec_op op A r A1 \<Longrightarrow> spec_run A1 ts A' \<Longrightarrow> spec_run A ((op, r) # ts) A'"

inductive_simps spec_run_simps [simp]: "spec_run A [] A'" "spec_run A (t # ts) A'"

section \<open>The queue in files\<close>

text \<open>
  The same operations by the code; \<open>None\<close> stands for an error or a panic. To reopen is to close the queue
  and to open its directory with the options \<open>opts\<close>.
\<close>

fun exec_op :: "('m, 't) deps \<Rightarrow> Options \<Rightarrow> qop \<Rightarrow> ('m, 't) Queue \<Rightarrow> world \<Rightarrow> (qres \<times> ('m, 't) Queue \<times> world) option" where
  "exec_op d opts (DoPush items) q w = (case Queue_Push d items q w of (None, q, w) \<Rightarrow> Some (Done, q, w) | _ \<Rightarrow> None)"
| "exec_op d opts (DoPop c n) q w = (case PopCopy d c n q w of (Ret (out, None), q, w) \<Rightarrow> Some (Got out, q, w) | _ \<Rightarrow> None)"
| "exec_op d opts (DoDelete c from to) q w =
     (case (case c of QueueConsumer \<Rightarrow> Queue_Delete d from to q w | ForkConsumer fk \<Rightarrow> Fork_Delete d fk from to q w) of
        ((n, None), q, w) \<Rightarrow> Some (Deleted n, q, w)
      | _ \<Rightarrow> None)"
| "exec_op d opts (DoFork c name) q w =
     (case (case c of QueueConsumer \<Rightarrow> Queue_Fork d name q w | ForkConsumer fk \<Rightarrow> Fork_Fork d fk name q w) of
        (Ret (Inr fork), q, w) \<Rightarrow> Some (Done, q, w)
      | _ \<Rightarrow> None)"
| "exec_op d opts DoClear q w = (case Queue_Clear d q w of (None, q, w) \<Rightarrow> Some (Done, q, w) | _ \<Rightarrow> None)"
| "exec_op d opts DoReopen q w =
     (case Queue_Close d q w of
        (Ret None, q, w) \<Rightarrow> (case Open d (bs_dir (q_buckets q)) opts w of (Inr q, w) \<Rightarrow> Some (Done, q, w) | _ \<Rightarrow> None)
      | _ \<Rightarrow> None)"

fun exec_run :: "('m, 't) deps \<Rightarrow> Options \<Rightarrow> qop list \<Rightarrow> ('m, 't) Queue \<Rightarrow> world \<Rightarrow> ((qop \<times> qres) list \<times> ('m, 't) Queue \<times> world) option" where
  "exec_run d opts [] q w = Some ([], q, w)"
| "exec_run d opts (op # ops) q w =
     (case exec_op d opts op q w of
        None \<Rightarrow> None
      | Some (r, q, w) \<Rightarrow> map_option (\<lambda>(ts, q, w). ((op, r) # ts, q, w)) (exec_run d opts ops q w))"

text \<open>
  The bounds within which an operation is looked at: logs that are not too long, batches that the
  format can hold, forks that exist, for deletions the documented properties of the split function and
  of keys, for forks a new name and a source with items in every bucket, and for restarts no forks at
  all.
\<close>

fun within_op :: "('m, 't) deps \<Rightarrow> qop \<Rightarrow> ('m, 't) buckets \<Rightarrow> world \<Rightarrow> bool" where
  "within_op d (DoPush items) bs w \<longleftrightarrow>
     (\<forall>it\<in>set items. valid_item it \<and> has_room d bs w (length (enc_items items)) (split_fn (bs_opts bs) (item_Key it))) \<and>
     length items < 2 ^ 32 \<and> (\<forall>a\<in>set items. \<forall>b\<in>set items. \<bar>key_int (item_Key a) - key_int (item_Key b)\<bar> < 2 ^ 63) \<and>
     (\<forall>f\<in>fork_names bs. length (queue_items d f bs w) + length items < 2 ^ 63)"
| "within_op d (DoPop c n) bs w \<longleftrightarrow> consumes c (consumer_fork c) \<and> consumer_fork c \<in> fork_names bs \<and> n < 2 ^ 63"
| "within_op d (DoDelete c from to) bs w \<longleftrightarrow>
     consumes c (consumer_fork c) \<and> consumer_fork c \<in> fork_names bs \<and> from \<le> to \<and> bucket_split_min (split_fn (bs_opts bs)) \<and>
     (\<forall>k<from. length (filter (\<lambda>x. item_Key x = k) (queue_items d (consumer_fork c) bs w)) \<le> 1)"
| "within_op d (DoFork c name) bs w \<longleftrightarrow>
     consumes c (consumer_fork c) \<and> consumer_fork c \<in> fork_names bs \<and> ForkName_Validate d name = None \<and> name \<notin> fork_names bs \<and>
     (\<forall>k\<in>set (tree_keys d bs). items_at d bs w k (consumer_fork c) \<noteq> [])"
| "within_op d DoClear bs w \<longleftrightarrow> True"
| "within_op d DoReopen bs w \<longleftrightarrow> bs_forks bs = []"

definition within :: "('m, 't) deps \<Rightarrow> qop \<Rightarrow> ('m, 't) buckets \<Rightarrow> world \<Rightarrow> bool" where
  "within d op bs w \<longleftrightarrow> within_op d op bs w \<and> (\<forall>k\<in>set (tree_keys d bs). small bs w k) \<and>
     (\<forall>f\<in>fork_names bs. length (queue_items d f bs w) < 2 ^ 63)"

text \<open>Every operation of a run stays within the bounds.\<close>

fun within_run :: "('m, 't) deps \<Rightarrow> Options \<Rightarrow> qop list \<Rightarrow> ('m, 't) Queue \<Rightarrow> world \<Rightarrow> bool" where
  "within_run d opts [] q w \<longleftrightarrow> True"
| "within_run d opts (op # ops) q w \<longleftrightarrow>
     within d op (q_buckets q) w \<and>
     (case exec_op d opts op q w of None \<Rightarrow> True | Some (r, q, w) \<Rightarrow> within_run d opts ops q w)"

text \<open>The abstraction and the invariant\<close>

definition view_of :: "('m, 't) deps \<Rightarrow> ('m, 't) Queue \<Rightarrow> world \<Rightarrow> pq" where
  "view_of d q w f = (if f \<in> fork_names (q_buckets q) then Some (mset (queue_items d f (q_buckets q) w)) else None)"

definition queue_inv :: "('m, 't) deps \<Rightarrow> Options \<Rightarrow> ('m, 't) Queue \<Rightarrow> world \<Rightarrow> bool" where
  "queue_inv d opts q w \<longleftrightarrow>
     buckets_ok d (q_buckets q) w \<and> bucket_split (split_fn opts) \<and> 
     opt_BucketSplitConf (bs_opts (q_buckets q)) = opt_BucketSplitConf opts \<and>
     queue_dir_ok (bs_dir (q_buckets q)) (opt_BucketSplitConf opts) w"

section \<open>One operation\<close>

lemma queue_dir_outside:
  assumes "queue_dir_ok (bs_dir bs) conf w" "outside bs w w'" "bs_dir bs' = bs_dir bs"
  shows "queue_dir_ok (bs_dir bs') conf w'"
proof -
  have n: "node_at w' (bs_dir bs @ [name]) = node_at w (bs_dir bs @ [name])" if "\<nexists>k. name = Key_String k" for name
    using assms(2) that by (auto simp: outside_def buckPath_def)
  have "node_at w' (bs_dir bs @ [splitConfFile]) = node_at w (bs_dir bs @ [splitConfFile])"
    using Key_String_not_conf by (intro n) metis
  moreover have "name = splitConfFile \<or> (\<exists>k. name = Key_String k)" if "node_at w' (bs_dir bs @ [name]) \<noteq> None" for name
    using assms(1) that n [of name] unfolding queue_dir_ok_def by metis
  ultimately show ?thesis using assms(1,3) unfolding queue_dir_ok_def file_at_def by metis
qed

lemma queue_inv_dir:
  assumes "queue_inv d opts q w" "tracked d bs' w' C' {}" "bs_dir bs' = bs_dir (q_buckets q)" "bs_opts bs' = bs_opts (q_buckets q)"
    "outside (q_buckets q) w w'"
  shows "queue_inv d opts \<lparr>q_buckets = bs'\<rparr> w'"
  using assms(1,2,4) queue_dir_outside [OF _ assms(5,3)] by (auto simp: queue_inv_def buckets_ok_def)

lemma queue_inv_step:
  assumes "queue_inv d opts q w" "tracked d bs' w' C' {}" "same_conf (q_buckets q) bs'" "outside (q_buckets q) w w'"
  shows "queue_inv d opts \<lparr>q_buckets = bs'\<rparr> w'"
    "view_of d \<lparr>q_buckets = bs'\<rparr> w' = (\<lambda>f. if f \<in> fork_names (q_buckets q) then Some (mset (queue_items d f bs' w')) else None)"
  using queue_inv_dir [OF assms(1,2) _ _ assms(4)] assms(3) held_conf(4) [OF assms(3)]
  by (simp_all add: same_conf_def view_of_def fun_eq_iff)

lemma inv_split: "queue_inv d opts q w \<Longrightarrow> bucket_split (split_fn (bs_opts (q_buckets q)))"
  by (simp add: queue_inv_def split_fn_def)

context queue_files
begin

lemma refine_push:
  assumes i: "queue_inv d opts q w" and b: "within d (DoPush items) (q_buckets q) w" and pg: "0 < d_page d"
  obtains q' w' where "exec_op d opts' (DoPush items) q w = Some (Done, q', w')" "queue_inv d opts q' w'"
    "spec_op (DoPush items) (view_of d q w) Done (view_of d q' w')"
proof -
  obtain C where t: "tracked d (q_buckets q) w C {}" using i by (auto simp: queue_inv_def buckets_ok_def)
  obtain bs' w' C' where p: "buckets_Push d items (q_buckets q) w = (None, bs', w')" "same_conf (q_buckets q) bs'"
    "tracked d bs' w' C' {}" "outside (q_buckets q) w w'"
    "\<forall>f\<in>fork_names (q_buckets q). mset (queue_items d f bs' w') = mset (queue_items d f (q_buckets q) w) + mset items"
  proof (rule Push_all [OF t inv_split [OF i] pg, of items])
    show "\<forall>a\<in>set items. \<forall>b\<in>set items. \<bar>key_int (item_Key a) - key_int (item_Key b)\<bar> < 2 ^ 63"
      "\<forall>f\<in>fork_names (q_buckets q). length (queue_items d f (q_buckets q) w) + length items < 2 ^ 63"
      using b by (simp_all add: within_def)
  qed (use b in \<open>simp_all add: within_def\<close>)
  show ?thesis
    using that [of "\<lparr>q_buckets = bs'\<rparr>" w'] p(1,5) queue_inv_step [OF i p(3,2,4)]
    by (simp add: Queue_Push_def fun_eq_iff view_of_def [of d q])
qed

lemma refine_pop:
  assumes i: "queue_inv d opts q w" and b: "within d (DoPop c n) (q_buckets q) w" and pg: "0 < d_page d" "128 * d_page d < 2 ^ 62"
  obtains out q' w' where "exec_op d opts' (DoPop c n) q w = Some (Got out, q', w')" "queue_inv d opts q' w'"
    "spec_op (DoPop c n) (view_of d q w) (Got out) (view_of d q' w')"
proof -
  let ?f = "consumer_fork c" and ?bs = "q_buckets q"
  obtain C where t: "tracked d ?bs w C {}" using i by (auto simp: queue_inv_def buckets_ok_def)
  have c: "consumes c ?f" and f: "?f \<in> fork_names ?bs" and n: "n < 2 ^ 63"
    and sm: "\<forall>k\<in>set (tree_keys d ?bs). small ?bs w k"
    and len: "\<forall>f\<in>fork_names ?bs. length (queue_items d f ?bs w) < 2 ^ 63"
    using b by (simp_all add: within_def)
  show ?thesis
  proof (rule Read_pops [OF t inv_split [OF i] f n copy_items_eq sm pg len, where x = "[]"])
    fix out bs' w' C'
    assume p: "buckets_Read d n ?f (copy_items ReadOpPop) [] ?bs w = (Ret None, [] @ out, bs', w')"
      and cf: "same_conf ?bs bs'" and t': "tracked d bs' w' C' {}" and o: "outside ?bs w w'"
      and r: "sorted (keys_of out)"
      "length out = (if n < 0 then length (queue_items d ?f ?bs w) else min (nat n) (length (queue_items d ?f ?bs w)))"
      "mset (queue_items d ?f ?bs w) = mset out + mset (queue_items d ?f bs' w')"
      "\<forall>x\<in>set out. \<forall>y\<in>set (queue_items d ?f bs' w'). item_Key x \<le> item_Key y"
      "\<forall>g\<in>fork_names ?bs. g \<noteq> ?f \<longrightarrow> mset (queue_items d g bs' w') = mset (queue_items d g ?bs w)"
    note st = queue_inv_step [OF i t' cf o]
    have "exec_op d opts' (DoPop c n) q w = Some (Got out, \<lparr>q_buckets = bs'\<rparr>, w')"
      unfolding exec_op.simps PopCopy_Read [OF c] p by simp
    moreover have "spec_op (DoPop c n) (view_of d q w) (Got out) (view_of d \<lparr>q_buckets = bs'\<rparr> w')"
      unfolding spec_op.simps
    proof (intro exI conjI HOL.refl)
      show "view_of d q w ?f = Some (mset (queue_items d ?f ?bs w))" using f by (simp add: view_of_def)
      show "view_of d \<lparr>q_buckets = bs'\<rparr> w' = (view_of d q w)(?f \<mapsto> mset (queue_items d ?f bs' w'))"
        using r(5) f by (auto simp: st(2) view_of_def [of d q] fun_eq_iff)
      show "length out = (if n < 0 then size (mset (queue_items d ?f ?bs w)) else min (nat n) (size (mset (queue_items d ?f ?bs w))))"
        using r(2) unfolding size_mset .
    qed (use r(1,3,4) in simp_all)
    ultimately show ?thesis using that st(1) by simp
  qed
qed

lemma refine_delete:
  assumes i: "queue_inv d opts q w" and b: "within d (DoDelete c from to) (q_buckets q) w"
  obtains n q' w' where "exec_op d opts' (DoDelete c from to) q w = Some (Deleted n, q', w')" "queue_inv d opts q' w'"
    "spec_op (DoDelete c from to) (view_of d q w) (Deleted n) (view_of d q' w')"
proof -
  let ?f = "consumer_fork c" and ?bs = "q_buckets q"
  obtain C where t: "tracked d ?bs w C {}" using i by (auto simp: queue_inv_def buckets_ok_def)
  have c: "consumes c ?f" and f: "?f \<in> fork_names ?bs" and ft: "from \<le> to" and sp: "bucket_split_min (split_fn (bs_opts ?bs))"
    and single: "\<forall>k<from. length (filter (\<lambda>x. item_Key x = k) (queue_items d ?f ?bs w)) \<le> 1"
    and sm: "\<forall>k\<in>set (tree_keys d ?bs). small ?bs w k" and len: "\<forall>f\<in>fork_names ?bs. length (queue_items d f ?bs w) < 2 ^ 63"
    using b by (simp_all add: within_def)
  obtain bs' w' C' where p: "buckets_Delete d ?f from to ?bs w =
      ((int (length (filter (doomed from to) (queue_items d ?f ?bs w))), None), bs', w')"
    "same_conf ?bs bs'" "tracked d bs' w' C' {}" "outside ?bs w w'"
    "\<forall>g\<in>fork_names ?bs. mset (queue_items d g bs' w') =
       mset (if g = ?f then filter (\<lambda>x. \<not> doomed from to x) (queue_items d g ?bs w) else queue_items d g ?bs w)"
    by (rule Delete_all [OF t sp f ft sm len single])
  note st = queue_inv_step [OF i p(3,2,4)]
  have "(case c of QueueConsumer \<Rightarrow> Queue_Delete d from to q w | ForkConsumer fk \<Rightarrow> Fork_Delete d fk from to q w) =
      (case buckets_Delete d ?f from to ?bs w of (r, bs, w) \<Rightarrow> (r, q\<lparr>q_buckets := bs\<rparr>, w))"
    using c by (cases c) (auto simp: Queue_Delete_def Fork_Delete_def consumes_def consumer_fork_def)
  then have "exec_op d opts' (DoDelete c from to) q w =
      Some (Deleted (int (length (filter (doomed from to) (queue_items d ?f ?bs w)))), \<lparr>q_buckets = bs'\<rparr>, w')"
    using p(1) by simp
  moreover have "size (filter_mset (doomed from to) (mset (queue_items d ?f ?bs w))) = length (filter (doomed from to) (queue_items d ?f ?bs w))"
    by (simp flip: mset_filter)
  moreover have "view_of d \<lparr>q_buckets = bs'\<rparr> w' =
      (view_of d q w)(?f \<mapsto> filter_mset (\<lambda>x. \<not> doomed from to x) (mset (queue_items d ?f ?bs w)))"
    using p(5) f by (auto simp: st(2) view_of_def [of d q] fun_eq_iff)
  ultimately show ?thesis using that st(1) f by (simp add: view_of_def [of d q])
qed

lemma refine_fork:
  assumes i: "queue_inv d opts q w" and b: "within d (DoFork c name) (q_buckets q) w"
  obtains q' w' where "exec_op d opts' (DoFork c name) q w = Some (Done, q', w')" "queue_inv d opts q' w'"
    "spec_op (DoFork c name) (view_of d q w) Done (view_of d q' w')"
proof -
  let ?f = "consumer_fork c" and ?bs = "q_buckets q"
  obtain C where t: "tracked d ?bs w C {}" using i by (auto simp: queue_inv_def buckets_ok_def)
  have c: "consumes c ?f" and f: "?f \<in> fork_names ?bs" and val: "ForkName_Validate d name = None" and new: "name \<notin> fork_names ?bs"
    and ne: "\<forall>k\<in>set (tree_keys d ?bs). items_at d ?bs w k ?f \<noteq> []"
    using b by (simp_all add: within_def)
  obtain bs' w' C' where p: "buckets_Fork d ?f name ?bs w = (Ret None, bs', w')" "same_conf (with_fork name ?bs) bs'"
    "tracked d bs' w' C' {}" "outside ?bs w w'"
    "\<And>f. f \<in> insert name (fork_names ?bs) \<Longrightarrow> queue_items d f bs' w' = queue_items d (if f = name then ?f else f) ?bs w"
    using Fork_all [OF t val f new ne] by metis
  have names: "fork_names bs' = insert name (fork_names ?bs)" using held_conf(4) [OF p(2)] by simp
  have inv: "queue_inv d opts \<lparr>q_buckets = bs'\<rparr> w'"
    by (rule queue_inv_dir [OF i p(3) _ _ p(4)]) (use p(2) in \<open>simp_all add: same_conf_def\<close>)
  have "(case c of QueueConsumer \<Rightarrow> Queue_Fork d name q w | ForkConsumer fk \<Rightarrow> Fork_Fork d fk name q w) = fork_from d ?f name q w"
    using c by (cases c) (auto simp: Queue_Fork_def Fork_Fork_def consumes_def consumer_fork_def)
  then have "exec_op d opts' (DoFork c name) q w = Some (Done, \<lparr>q_buckets = bs'\<rparr>, w')" using p(1) by (simp add: fork_from_def)
  moreover have "view_of d \<lparr>q_buckets = bs'\<rparr> w' = (view_of d q w)(name \<mapsto> mset (queue_items d ?f ?bs w))"
    using p(5) names new by (auto simp: view_of_def fun_eq_iff)
  ultimately show ?thesis using that inv f new by (simp add: view_of_def [of d q])
qed

lemma refine_clear:
  assumes i: "queue_inv d opts q w"
  obtains q' w' where "exec_op d opts' DoClear q w = Some (Done, q', w')" "queue_inv d opts q' w'"
    "spec_op DoClear (view_of d q w) Done (view_of d q' w')"
proof -
  obtain C where t: "tracked d (q_buckets q) w C {}" using i by (auto simp: queue_inv_def buckets_ok_def)
  obtain bs' w' where p: "buckets_Clear d (q_buckets q) w = (None, bs', w')" "same_conf (q_buckets q) bs'"
    "tracked d bs' w' Map.empty {}" "outside (q_buckets q) w w'"
    by (rule Clear_all [OF t])
  show ?thesis
    using that [of "\<lparr>q_buckets = bs'\<rparr>" w'] p(1) queue_inv_step [OF i p(3,2,4)] tracked_empty(2) [OF p(3)]
    by (simp add: Queue_Clear_def fun_eq_iff view_of_def [of d q])
qed

end

context queue_files
begin

lemma refine_reopen:
  assumes i: "queue_inv d opts' q w" and b: "within d DoReopen (q_buckets q) w" and pg: "0 < d_page d" "128 * d_page d < 2 ^ 62"
    and v: "Options_Validate opts = (None, opts')"
  obtains q' w' where "exec_op d opts DoReopen q w = Some (Done, q', w')" "queue_inv d opts' q' w'"
    "spec_op DoReopen (view_of d q w) Done (view_of d q' w')"
proof -
  let ?bs = "q_buckets q"
  obtain C where t: "tracked d ?bs w C {}" using i by (auto simp: queue_inv_def buckets_ok_def)
  then have nf: "w_faults w = []" by (simp add: tracked_def)
  have cf: "opt_BucketSplitConf opts' = opt_BucketSplitConf (bs_opts ?bs)" and dir: "queue_dir_ok (bs_dir ?bs) (opt_BucketSplitConf opts') w"
    using i by (simp_all add: queue_inv_def)
  have fk: "bs_forks ?bs = []" and sm: "\<forall>k\<in>set (tree_keys d ?bs). small ?bs w k"
    and len: "length (queue_items d '''' ?bs w) < 2 ^ 63" using b by (simp_all add: within_def fork_names_def)
  obtain bs' C' where o: "Open d (bs_dir ?bs) opts w = (Inr \<lparr>q_buckets = bs'\<rparr>, w)" "tracked d bs' w C' {}"
    "queue_items d '''' bs' w = queue_items d '''' ?bs w" "bs_opts bs' = opts'" "bs_forks bs' = []" "bs_dir bs' = bs_dir ?bs"
    using Open_again [OF t inv_split [OF i] fk v cf dir sm pg len] by blast
  have "exec_op d opts DoReopen q w = Some (Done, \<lparr>q_buckets = bs'\<rparr>, w)"
    using Queue_Close_ok [OF nf, of d q] o(1) by simp
  moreover have "queue_inv d opts' \<lparr>q_buckets = bs'\<rparr> w"
    using i o(2,4,6) dir by (auto simp: queue_inv_def buckets_ok_def)
  ultimately show ?thesis using that o(3,5) fk by (simp add: view_of_def fun_eq_iff fork_names_def)
qed

lemma refine_op:
  assumes "queue_inv d opts' q w" "within d op (q_buckets q) w" "0 < d_page d" "128 * d_page d < 2 ^ 62"
    "Options_Validate opts = (None, opts')"
  shows "\<exists>r q' w'. exec_op d opts op q w = Some (r, q', w') \<and> queue_inv d opts' q' w' \<and>
    spec_op op (view_of d q w) r (view_of d q' w')"
proof (cases op)
  case (DoPush items)
  show ?thesis using refine_push [OF assms(1) assms(2) [unfolded DoPush] assms(3), of opts] unfolding DoPush by metis
next
  case (DoPop c n)
  show ?thesis using refine_pop [OF assms(1) assms(2) [unfolded DoPop] assms(3,4), of opts] unfolding DoPop by metis
next
  case (DoDelete c a b)
  show ?thesis using refine_delete [OF assms(1) assms(2) [unfolded DoDelete], of opts] unfolding DoDelete by metis
next
  case (DoFork c name)
  show ?thesis using refine_fork [OF assms(1) assms(2) [unfolded DoFork], of opts] unfolding DoFork by metis
next
  case DoClear
  show ?thesis using refine_clear [OF assms(1), of opts] unfolding DoClear by metis
next
  case DoReopen
  show ?thesis using refine_reopen [OF assms(1) assms(2) [unfolded DoReopen] assms(3-5)] unfolding DoReopen by metis
qed

lemma refine_run:
  assumes "queue_inv d opts' q w" "within_run d opts ops q w" "0 < d_page d" "128 * d_page d < 2 ^ 62"
    "Options_Validate opts = (None, opts')"
  shows "\<exists>ts q' w'. exec_run d opts ops q w = Some (ts, q', w') \<and> map fst ts = ops \<and> queue_inv d opts' q' w' \<and>
    spec_run (view_of d q w) ts (view_of d q' w')"
  using assms(1,2)
proof (induction ops arbitrary: q w)
  case Nil
  then show ?case by (simp add: spec_Nil)
next
  case (Cons op ops)
  obtain r q1 w1 where 1: "exec_op d opts op q w = Some (r, q1, w1)" "queue_inv d opts' q1 w1"
    "spec_op op (view_of d q w) r (view_of d q1 w1)"
    using refine_op [OF Cons.prems(1) _ assms(3-5), of op] Cons.prems(2) by auto
  obtain ts q' w' where 2: "exec_run d opts ops q1 w1 = Some (ts, q', w')" "map fst ts = ops" "queue_inv d opts' q' w'"
    "spec_run (view_of d q1 w1) ts (view_of d q' w')"
    using Cons.IH [OF 1(2)] Cons.prems(2) 1(1) by auto
  then show ?case using 1(1) spec_Cons [OF 1(3) 2(4)] by simp
qed

end

section \<open>A new queue\<close>

text \<open>A directory that can be made, and below which there is nothing\<close>

definition fresh_dir :: "path \<Rightarrow> world \<Rightarrow> bool" where
  "fresh_dir dir w \<longleftrightarrow>
     w_faults w = [] \<and> (\<forall>q\<in>set (ancestors dir). file_at w q = None) \<and> (\<forall>name q. node_at w (dir @ name # q) = None)"

lemma MkdirAll_new_dir:
  assumes "fresh_dir dir w"
  obtains w' where "MkdirAll dir w = (None, w')" "w_faults w' = []" "\<forall>q\<in>set (ancestors dir). node_at w' q = Some Dir"
    "\<And>name q. node_at w' (dir @ name # q) = None"
proof -
  have nf: "w_faults w = []" using assms by (simp add: fresh_dir_def)
  then have M: "MkdirAll dir w = (None, fold make_dir (ancestors dir) w)"
    using assms by (simp add: MkdirAll_def fresh_dir_def list_ex_iff)
  have "w_faults (fold make_dir ps w) = w_faults w" for ps by (induction ps arbitrary: w) (auto simp: make_dir_def)
  moreover have "node_at (fold make_dir (ancestors dir) w) q = Some Dir" if "q \<in> set (ancestors dir)" for q
  proof -
    have "file_at w q = None" using assms that by (simp add: fresh_dir_def)
    then show ?thesis using that by (auto simp: fold_make_dir file_at_def split: option.splits node.splits)
  qed
  ultimately show ?thesis using that [OF M] nf MkdirAll_nodes [OF M] assms by (simp add: fresh_dir_def)
qed

context queue_files
begin

lemma Open_fresh:
  assumes fr: "fresh_dir dir w" and val: "Options_Validate opts = (None, opts')"
    and name: "TrimSpace (string_bytes (conf_Name (opt_BucketSplitConf opts'))) = string_bytes (conf_Name (opt_BucketSplitConf opts'))"
  obtains bs w' where "Open d dir opts w = (Inr \<lparr>q_buckets = bs\<rparr>, w')" "tracked d bs w' Map.empty {}" "bs_dir bs = dir"
    "bs_opts bs = opts'" "bs_forks bs = []" "queue_dir_ok dir (opt_BucketSplitConf opts') w'"
proof -
  obtain w1 where M: "MkdirAll dir w = (None, w1)" and nf: "w_faults w1 = []"
    and anc: "\<forall>q\<in>set (ancestors dir). node_at w1 q = Some Dir" and none: "\<And>name q. node_at w1 (dir @ name # q) = None"
    using MkdirAll_new_dir [OF fr] by blast
  have dir: "node_at w1 dir = Some Dir" using anc by (auto simp: ancestors_def)
  then obtain names where R: "ReadDir dir w1 = (Inr names, w1)" using nf by (simp add: ReadDir_def)
  have "names = []" using ReadDir_names [OF R] none [of _ "[]"] by (metis last_in_set)
  define bs :: "('m, 't) buckets" where "bs = \<lparr>bs_dir = dir, bs_tree = bt_empty (d_tree d), bs_trailers = [], bs_opts = opts', bs_forks = [], bs_closed = []\<rparr>"
  have keys: "tree_keys d bs = []" by (simp add: tree_keys_def bs_def)
  have "last_bucket d bs = None" by (simp add: last_bucket_def bs_def)
  then have F: "fetchForks d bs w1 = (Inr [], bs, w1)" using keys by (simp add: fetchForks_def)
  have L: "loadAllBuckets d dir opts' w = (Inr bs, w1)"
    using M R F \<open>names = []\<close> by (simp add: loadAllBuckets_def bs_def Let_def)
  let ?p = "dir @ [splitConfFile]" and ?data = "string_bytes (conf_Name (opt_BucketSplitConf opts'))"
  obtain w2 where W: "d_WriteFile d ?p ?data w1 = (None, w2)" "w_faults w2 = []" "node_at w2 = (node_at w1)(?p \<mapsto> File ?data)"
    using WriteFile_ok [OF nf, of ?p ?data] dir none [of _ "[]"] by auto
  have "ValidateBucketKeys d (opt_BucketSplitConf opts') bs w1 = (None, w2)"
    using nf none [of splitConfFile "[]"] W(1) keys
    by (simp add: ValidateBucketKeys_def Let_def OpenRead_def) (simp add: bs_def)
  then have "Open d dir opts w = (Inr \<lparr>q_buckets = bs\<rparr>, w2)" using val L by (simp add: Open_def)
  moreover have "tracked d bs w2 Map.empty {}"
  proof -
    have "node_at w2 (buckPath bs key @ q) = None" for key q
      using W(3) none Key_String_not_conf [of key] by (simp add: buckPath_def bs_def)
    moreover have "tree_get d key bs = None" for key by (simp add: tree_get_def bs_def)
    moreover have "node_at w2 q = Some Dir" if "q \<in> set (ancestors dir)" for q
    proof -
      have "q \<noteq> ?p" using that by (auto simp: ancestors_def dest!: arg_cong [of _ _ length])
      then show ?thesis using W(3) anc that by simp
    qed
    ultimately show ?thesis using W(2) by (simp add: tracked_def bs_def)
  qed
  moreover have "queue_dir_ok dir (opt_BucketSplitConf opts') w2"
    using W(3) name none [of _ "[]"] by (simp add: queue_dir_ok_def file_at_def)
  ultimately show ?thesis using that [of bs w2] by (simp add: bs_def)
qed

end

section \<open>Runs\<close>

text \<open>What an operation puts into the queue, and what one takes from a fork\<close>

definition pushed :: "qop \<Rightarrow> Items" where
  "pushed op = (case op of DoPush items \<Rightarrow> items | _ \<Rightarrow> [])"

definition got :: "qres \<Rightarrow> Items" where
  "got r = (case r of Got out \<Rightarrow> out | _ \<Rightarrow> [])"

definition taken :: "ForkName \<Rightarrow> qop \<times> qres \<Rightarrow> Items" where
  "taken f t = (case fst t of DoPop c n \<Rightarrow> if consumer_fork c = f then got (snd t) else [] | _ \<Rightarrow> [])"

definition discards :: "qop \<Rightarrow> bool" where
  "discards op \<longleftrightarrow> (case op of DoClear \<Rightarrow> True | DoDelete c from to \<Rightarrow> True | _ \<Rightarrow> False)"

lemma spec_conserves:
  assumes "spec_run A ts A'" "A f = Some M" "\<forall>t\<in>set ts. \<not> discards (fst t)"
  shows "\<exists>M'. A' f = Some M' \<and> M + mset (concat (map (pushed \<circ> fst) ts)) = mset (concat (map (taken f) ts)) + M'"
  using assms
proof (induction arbitrary: M rule: spec_run.induct)
  case (spec_Cons op A r A1 ts A')
  have "\<exists>M1. A1 f = Some M1 \<and> M + mset (pushed op) = mset (taken f (op, r)) + M1"
    using spec_Cons.hyps(1) spec_Cons.prems by (cases op) (auto simp: pushed_def taken_def got_def discards_def)
  then obtain M1 where M1: "A1 f = Some M1" "M + mset (pushed op) = mset (taken f (op, r)) + M1" by blast
  then have *: "M + (mset (pushed op) + P) = mset (taken f (op, r)) + (M1 + P)" for P by (metis add.assoc)
  show ?case using spec_Cons.IH [OF M1(1)] spec_Cons.prems by (auto simp: * add.assoc)
qed simp

lemma spec_run_last:
  "spec_run A (ts @ [(op, r)]) A' \<longleftrightarrow> (\<exists>A1. spec_run A ts A1 \<and> spec_op op A1 r A')"
  by (induction ts arbitrary: A) auto

lemma spec_pop_all:
  assumes "spec_run A ts A'" "map fst ts = ops @ [DoPop c (- 1)]"
  shows "A' (consumer_fork c) = Some {#}"
proof -
  obtain ts1 r where ts: "ts = ts1 @ [(DoPop c (- 1), r)]"
    using assms(2) by (cases ts rule: rev_cases) auto
  obtain A1 where "spec_op (DoPop c (- 1)) A1 r A'" using assms(1) unfolding ts spec_run_last by blast
  then obtain M out M' where M: "length out = size M" "M = mset out + M'" "A' (consumer_fork c) = Some M'" by auto
  then have "length out = length out + size M'" by simp
  then show ?thesis using M(3) by simp
qed

context queue_files
begin

lemma fresh_run:
  assumes fr: "fresh_dir dir w" and val: "Options_Validate opts = (None, opts')" and sp: "bucket_split (split_fn opts')"
    and name: "TrimSpace (string_bytes (conf_Name (opt_BucketSplitConf opts'))) = string_bytes (conf_Name (opt_BucketSplitConf opts'))"
    and pg: "0 < d_page d" "128 * d_page d < 2 ^ 62"
  obtains q w0 where "Open d dir opts w = (Inr q, w0)"
    "\<And>ops. within_run d opts ops q w0 \<Longrightarrow> \<exists>ts q' w'. exec_run d opts ops q w0 = Some (ts, q', w') \<and> map fst ts = ops \<and>
       queue_inv d opts' q' w' \<and> spec_run ['''' \<mapsto> {#}] ts (view_of d q' w')"
proof -
  obtain bs w0 where o: "Open d dir opts w = (Inr \<lparr>q_buckets = bs\<rparr>, w0)" "tracked d bs w0 Map.empty {}" "bs_dir bs = dir"
    "bs_opts bs = opts'" "bs_forks bs = []" "queue_dir_ok dir (opt_BucketSplitConf opts') w0"
    using Open_fresh [OF fr val name] by blast
  have i: "queue_inv d opts' \<lparr>q_buckets = bs\<rparr> w0" using o(2-4,6) sp by (auto simp: queue_inv_def buckets_ok_def)
  have v: "view_of d \<lparr>q_buckets = bs\<rparr> w0 = ['''' \<mapsto> {#}]"
    using tracked_empty(2) [OF o(2)] o(5) by (simp add: view_of_def fork_names_def fun_eq_iff)
  show ?thesis using that [OF o(1)] refine_run [OF i _ pg val] v by fastforce
qed

end



section \<open>Concrete runs\<close>

context queue_deps
begin

text \<open>An empty queue has room.\<close>

lemma empty_within:
  assumes t: "tracked d bs w Map.empty {}" and pg: "128 * d_page d < 2 ^ 61"
    and it: "\<forall>it\<in>set items. valid_item it" "length items < 2 ^ 32" "length (enc_items items) < 2 ^ 60"
    "\<forall>a\<in>set items. \<forall>b\<in>set items. \<bar>key_int (item_Key a) - key_int (item_Key b)\<bar> < 2 ^ 63"
  shows "within d (DoPush items) bs w" "within d (DoPop QueueConsumer n) bs w \<longleftrightarrow> n < 2 ^ 63"
proof -
  have "file_at w (buckPath bs key @ q) = None" for key q using tracked_empty(3) [OF t] by (simp add: file_at_def)
  then have c: "contents w (buckPath bs key @ q) = []" for key q by (simp add: contents_def)
  have "\<exists>q. idxPath dir f = dir @ q" for dir f by (auto simp: idxPath_def Let_def)
  then have "contents w (idxPath (buckPath bs key) f) = []" for key f using c by metis
  then have "has_room d bs w (length (enc_items items)) key" for key using c it(3) pg by (simp add: has_room_def small_def)
  then show "within d (DoPush items) bs w" using it tracked_empty(1,2) [OF t] by (simp add: within_def)
  show "within d (DoPop QueueConsumer n) bs w \<longleftrightarrow> n < 2 ^ 63"
    using tracked_empty(1,2) [OF t] by (simp add: within_def consumes_def consumer_fork_def fork_names_def)
qed

end

lemma Default_valid:
  "Options_Validate DefaultOptions = (None, DefaultOptions)" "bucket_split (split_fn DefaultOptions)"
  "TrimSpace (string_bytes (conf_Name (opt_BucketSplitConf DefaultOptions))) = string_bytes (conf_Name (opt_BucketSplitConf DefaultOptions))"
proof -
  show "Options_Validate DefaultOptions = (None, DefaultOptions)"
    by (simp add: Options_Validate_def DefaultOptions_def DefaultBucketSplitConf_def SyncMode_IsValid_def
        SyncFull_def SyncData_def SyncIndex_def ErrorMode_IsValid_def ErrorModeAbort_def errorModeMax_def)
  show "bucket_split (split_fn DefaultOptions)"
    using shift.bucket_split_axioms [of 37] by (simp add: DefaultOptions_def DefaultBucketSplitConf_def split_fn_def)
  have "show_int 37 = ''37''" by code_simp
  then show "TrimSpace (string_bytes (conf_Name (opt_BucketSplitConf DefaultOptions))) = string_bytes (conf_Name (opt_BucketSplitConf DefaultOptions))"
    by (simp add: TrimSpace_def trim_left.simps leading_space_def space_encodings_def string_bytes_def DefaultOptions_def DefaultBucketSplitConf_def)
qed

lemma demo_fresh: "fresh_dir [''q''] demo_world"
  by (simp add: fresh_dir_def demo_world_def ancestors_def file_at_def node_at_def)

lemma demo_page: "0 < d_page demo_deps" "128 * d_page demo_deps < 2 ^ 62" "128 * d_page demo_deps < 2 ^ 61"
  by (simp_all add: demo_deps_def)

lemma demo_within:
  assumes "Open demo_deps [''q''] DefaultOptions demo_world = (Inr q, w)"
  shows "within demo_deps (DoPush demo_items) (q_buckets q) w" "within demo_deps (DoPop QueueConsumer (- 1)) (q_buckets q) w"
proof -
  obtain bs w' where o: "Open demo_deps [''q''] DefaultOptions demo_world = (Inr \<lparr>q_buckets = bs\<rparr>, w')"
    "tracked demo_deps bs w' Map.empty {}"
    using demo_files.Open_fresh [OF demo_fresh Default_valid(1,3)] by blast
  have it: "\<forall>it\<in>set demo_items. valid_item it" "length demo_items < 2 ^ 32" "length (enc_items demo_items) < 2 ^ 60"
    "\<forall>a\<in>set demo_items. \<forall>b\<in>set demo_items. \<bar>key_int (item_Key a) - key_int (item_Key b)\<bar> < 2 ^ 63"
    by (simp_all add: demo_items_def valid_item_def key_of_int_def key_int_def length_enc_item)
  have q: "q = \<lparr>q_buckets = bs\<rparr>" "w = w'" using assms o(1) by simp_all
  show "within demo_deps (DoPush demo_items) (q_buckets q) w" "within demo_deps (DoPop QueueConsumer (- 1)) (q_buckets q) w"
    using demo.empty_within [OF o(2) demo_page(3) it] unfolding q by simp_all
qed



end
