(* ===== verification/Api_Correct.thy ===== *)
theory Api_Correct
  imports Buckets_Read
begin

text \<open>
  The public interface: which names forks may have, what calls on a removed fork do, what is known of
  the forks after opening a queue, and what peeking returns.
\<close>

section \<open>Names of forks\<close>

definition name_char :: "char \<Rightarrow> bool" where
  "name_char c \<longleftrightarrow> is_alnum (\<lambda>_. False) (of_char c) \<or> c = CHR ''-'' \<or> c = CHR ''_''"

lemma name_char_rune:
  "(of_char c :: nat) < 128 \<Longrightarrow> is_alnum uni (of_char c) \<or> (of_char c :: nat) = 45 \<or> (of_char c :: nat) = 95 \<longleftrightarrow> name_char c"
proof -
  have "(of_char c :: nat) = of_char CHR ''-'' \<longleftrightarrow> c = CHR ''-''" "(of_char c :: nat) = of_char CHR ''_'' \<longleftrightarrow> c = CHR ''_''"
    by (simp_all only: of_char_eq_iff)
  then show "(of_char c :: nat) < 128 \<Longrightarrow> ?thesis" by (simp add: name_char_def is_alnum_def)
qed

text \<open>An ASCII character is never part of the encoding of another rune.\<close>

lemma decode_rune_ascii:
  assumes "decode_rune s = (r, n)" "s \<noteq> []" "c \<in> set (take n s)" "(of_char c :: nat) < 128"
  shows "r = of_char c"
proof -
  obtain a s' where s: "s = a # s'" using assms(2) by (cases s) auto
  show ?thesis using assms s
    by (auto simp: decode_rune_def Let_def cont_def numeral_2_eq_2 numeral_3_eq_3 take_Cons'
        split: if_splits list.splits)
qed

lemma runes_of_ascii:
  assumes "c \<in> set s" "(of_char c :: nat) < 128"
  shows "of_char c \<in> set (runes_of s)"
  using assms(1)
proof (induction s rule: runes_of.induct)
  case (1 s)
  obtain r n where d: "decode_rune s = (r, n)" by (cases "decode_rune s")
  have ne: "s \<noteq> []" using "1.prems" by auto
  have eq: "runes_of s = r # runes_of (drop n s)" using ne d by (subst runes_of.simps) simp
  have "c \<in> set (take n s) \<or> c \<in> set (drop n s)" using "1.prems" by (metis Un_iff append_take_drop_id set_append)
  then show ?case using eq decode_rune_ascii [OF d ne _ assms(2)] "1.IH" [OF ne] d by auto
qed

lemma runes_of_all_ascii: "\<forall>c\<in>set s. (of_char c :: nat) < 128 \<Longrightarrow> runes_of s = map of_char s"
proof (induction s)
  case Nil
  then show ?case by (subst runes_of.simps) simp
next
  case (Cons a s)
  then have "decode_rune (a # s) = (of_char a, 1)" by (simp add: decode_rune_def)
  then show ?case using Cons by (subst runes_of.simps) simp
qed

text \<open>
  C36 (fork names): in a name that \<^verbatim>\<open>Validate\<close> accepts, every ASCII byte is a letter, a digit, a dash or
  an underscore, also if the name holds invalid UTF-8; so it has no path separator and no dot, and the
  index log of the fork stays in the directory of its bucket. An ASCII name is accepted exactly if it
  is not empty and consists of these characters.
\<close>

theorem ForkName_Validate_chars:
  "(ForkName_Validate d name = None \<longrightarrow> (\<forall>c\<in>set name. (of_char c :: nat) < 128 \<longrightarrow> name_char c) \<and> CHR ''/'' \<notin> set name) \<and>
   ((\<forall>c\<in>set name. (of_char c :: nat) < 128) \<longrightarrow> (ForkName_Validate d name = None \<longleftrightarrow> name \<noteq> [] \<and> list_all name_char name))"
proof (intro conjI impI)
  assume ok: "ForkName_Validate d name = None"
  then have all: "\<forall>rn\<in>set (runes_of name). is_alnum (d_IsAlnum d) rn \<or> rn = 45 \<or> rn = 95"
    by (auto simp: ForkName_Validate_def list_all_iff split: if_splits)
  show chars: "\<forall>c\<in>set name. (of_char c :: nat) < 128 \<longrightarrow> name_char c"
    using all runes_of_ascii name_char_rune by blast
  have "\<not> name_char CHR ''/''" by (simp add: name_char_def is_alnum_def)
  then show "CHR ''/'' \<notin> set name" using chars by force
next
  assume ascii: "\<forall>c\<in>set name. (of_char c :: nat) < 128"
  then have "runes_of name = map of_char name" by (rule runes_of_all_ascii)
  then show "ForkName_Validate d name = None \<longleftrightarrow> name \<noteq> [] \<and> list_all name_char name"
    using ascii name_char_rune [of _ "d_IsAlnum d"] by (auto simp: ForkName_Validate_def list_all_iff)
qed

theorem ForkName_Validate_chars_witness:
  "ForkName_Validate demo_deps ''dead-letter_2'' = None \<and> ForkName_Validate demo_deps ''a/b'' \<noteq> None"
  using ForkName_Validate_chars [of demo_deps "''dead-letter_2''"] ForkName_Validate_chars [of demo_deps "''a/b''"]
  by (simp add: name_char_def is_alnum_def)

section \<open>Removed forks\<close>



section \<open>Forks after opening\<close>

lemma loadIndexes_names:
  "loadIndexes bt dir log opts forks es n w = (Ret (Inr (es', n')), w') \<Longrightarrow> fst ` set es' = fst ` set es \<union> set forks"
proof (induction forks arbitrary: es n w)
  case (Cons fork forks)
  obtain idx w1 where "loadIndexes bt dir log opts forks (AList.update fork idx es) (n + Index_NEntries (bi_Mem idx)) w1 =
      (Ret (Inr (es', n')), w')"
    using Cons.prems by (auto split: prod.splits go.splits sum.splits)
  note IH = Cons.IH [OF this]
  have "dom (map_of (AList.update fork idx es)) = insert fork (dom (map_of es))" by (simp add: update_conv')
  then show ?case using IH by (simp add: dom_map_of_conv_image_fst)
qed simp

lemma openBucket_rec_names:
  "openBucket_rec n bt pg dir forks opts w = (Some (Inr b), w') \<Longrightarrow> fst ` set (b_indexes b) = set forks \<union> {''''}"
proof (induction n arbitrary: forks w)
  case (Suc n)
  show ?case
  proof (cases "\<exists>w1. openBucket_rec n bt pg dir (forks @ ['''']) opts w1 = (Some (Inr b), w')")
    case True
    then obtain w1 where "openBucket_rec n bt pg dir (forks @ ['''']) opts w1 = (Some (Inr b), w')" by blast
    from Suc.IH [OF this] show ?thesis by simp
  next
    case False
    then obtain log es m w1 w2 where "loadIndexes bt dir log opts (forks @ ['''']) [] 0 w1 = (Ret (Inr (es, m)), w2)" "b_indexes b = es"
      using Suc.prems by (auto simp: Let_def split: prod.splits go.splits sum.splits option.splits if_splits)
    then show ?thesis using loadIndexes_names [of bt dir log opts "forks @ ['''']" "[]" 0 w1 es m w2] by simp
  qed
qed simp

text \<open>A bucket that is opened without naming forks has none, whatever index logs its directory holds.\<close>

lemma openBucket_no_forks: "openBucket bt pg dir [] opts w = (Some (Inr b), w') \<Longrightarrow> bucket_Forks b = []"
proof -
  assume "openBucket bt pg dir [] opts w = (Some (Inr b), w')"
  then have "fst ` set (b_indexes b) = set [] \<union> {''''}" unfolding openBucket_def by (rule openBucket_rec_names)
  then have "filter (\<lambda>fork. fork \<noteq> '''') (map fst (b_indexes b)) = []" by (auto simp: filter_empty_conv)
  then show ?thesis by (simp add: bucket_Forks_def)
qed

context buckets_tree
begin

lemma fetchForks_none:
  assumes "fetchForks d bs w = (Inr forks, bs', w')" "n_loaded (view bs) = 0" "bs_forks bs = []"
  shows "forks = []"
proof -
  have none: "snd e = None" if "e \<in> set (view bs)" for e
    using assms(2) that by (cases "snd e") (auto simp: n_loaded_def filter_empty_conv)
  have "last_bucket d bs = None" using none by (auto simp: last_bucket_def Let_def)
  then consider "forks = []" | key buck where "forKey d key bs w = (Inr buck, bs', w')" "forks = bucket_Forks buck"
    using assms(1) by (auto simp: fetchForks_def split: list.splits prod.splits sum.splits)
  then show ?thesis
  proof cases
    case 2
    have nl: "\<not> (\<exists>b. tree_get d key bs = Some (Some b))"
      using none by (fastforce simp: tree_get_view dest: map_of_SomeD)
    obtain bs1 w1 where c: "closeUnused d (opt_MaxParallelOpenBuckets (bs_opts bs) - 1) bs w = (None, bs1, w1)"
      "\<exists>w2. openBucket (d_index d) (d_page d) (buckPath bs1 key) (bs_forks bs1) (bs_opts bs1) w1 = (Some (Inr buck), w2)"
      using 2(1) nl by (auto simp: forKey_def split: option.splits prod.splits sum.splits)
    have "bs_forks bs1 = []" using closes_conf [OF closeUnused_closes [OF c(1)]] assms(3) by (simp add: same_conf_def)
    then show ?thesis using c(2) openBucket_no_forks 2(2) by auto
  qed
qed

end

text \<open>
  C35 (forks after opening): a queue that was just opened reports no forks, whatever its directory
  holds: the bucket that is opened to find the forks is opened with an empty list of forks. The
  forks of an earlier run are therefore neither listed nor get the items pushed from now on.
\<close>

theorem Open_reports_no_forks:
  assumes "btree_map (d_tree d)" "Open d dir opts w = (Inr q, w')"
  shows "Queue_Forks q = []"
proof -
  have bt: "buckets_tree d" using assms(1) by (rule buckets_tree.intro)
  obtain bs opts' w1 where L: "loadAllBuckets d dir opts' w = (Inr bs, w1)" "q = \<lparr>q_buckets = bs\<rparr>"
    using assms(2) by (auto simp: Open_def split: prod.splits option.splits sum.splits)
  let ?bs = "\<lambda>ld. \<lparr>bs_dir = dir, bs_tree = ld_tree ld, bs_trailers = ld_trailers ld, bs_opts = opts', bs_forks = [], bs_closed = []\<rparr>"
  obtain ld names w2 w3 forks bs' w4 where E: "load_entries d dir opts' names
      \<lparr>ld_expectedFiles = 0, ld_dirsHandled = 0, ld_tree = bt_empty (d_tree d), ld_trailers = []\<rparr> w2 = (Inr ld, w3)"
    and F: "fetchForks d (?bs ld) w3 = (Inr forks, bs', w4)" "bs = bs'\<lparr>bs_forks := forks\<rparr>"
    using L(1) by (auto simp: loadAllBuckets_def Let_def split: prod.splits sum.splits option.splits if_splits)
  have "n_loaded (bt_iter (d_tree d) (ld_tree ld)) = 0"
    using buckets_tree.load_entries_unloaded [OF bt E] btree_map.iter_empty [OF assms(1)] by simp
  then show ?thesis using buckets_tree.fetchForks_none [OF bt F(1)] F(2) L(2) by (simp add: Queue_Forks_def buckets_Forks_def)
qed

theorem Open_reports_no_forks_witness:
  "\<exists>q w. Open demo_deps [''q''] DefaultOptions demo_world = (Inr q, w) \<and> Queue_Forks q = []"
  using demo_Open Open_reports_no_forks [OF demo.tree.btree_map_axioms] by blast

section \<open>Peeking\<close>

context queue_deps
begin

text \<open>A callback that collects what it gets and asks to keep it, as that of \<^verbatim>\<open>PeekCopy\<close>\<close>

lemma read_bucket_peek:
  assumes get: "tree_get d key bs = Some (Some b)" and h: "held d bs w key b its" and fl: "filed d bs w key b"
    and f: "f \<in> fork_names bs" and n: "0 < n" "n < 2 ^ 63" and fn: "\<And>x items. fn x items = TxReturn (x @ items) ReadOpPeek None"
  obtains out where "read_bucket d f fn key (Some b) (n, x) bs w = (Ret None, (n, x @ out), bs, w)"
    "sorted (keys_of out)" "length out = min (nat n) (length (fork_items (d_index d) b f))"
    "\<exists>rest. mset (fork_items (d_index d) b f) = mset out + mset rest \<and> (\<forall>x\<in>set out. \<forall>y\<in>set rest. item_Key x \<le> item_Key y)"
proof -
  let ?bt = "d_index d"
  have ok: "bucket_ok ?bt its b w" and names: "fst ` set (b_indexes b) = fork_names bs" using h by (simp_all add: held_def)
  have "map_of (b_indexes b) f \<noteq> None" using f names by (simp add: map_of_eq_None_iff)
  then obtain idx where idx: "map_of (b_indexes b) f = Some idx" by blast
  have deref: "deref d key (length (bs_closed bs)) b bs = (False, b)" using get by (simp add: deref_def)
  have ne: "\<not> bucket_AllEmpty b" using fl by (simp add: filed_def)
  show ?thesis
  proof (rule idx.Read_parts [OF ok idx n(1)])
    fix it out
    assume p: "bucket_peek ?bt b n [] (bi_Mem idx) = (it, out, int (length out), None)"
      "length out = min (nat n) (length (fork_items ?bt b f))" "sorted (keys_of out)"
      "\<exists>rest. mset (fork_items ?bt b f) = mset out + mset rest \<and> (\<forall>x\<in>set out. \<forall>y\<in>set rest. item_Key x \<le> item_Key y)"
    have "bucket_Read_tx d key n f fn x b bs w = (Ret None, x @ out, b, bs, w)"
      using n(1) idx p(1) fn deref by (auto simp: bucket_Read_tx_def idxForFork_def ReadOpPeek_def ReadOpPop_def)
    then have "read_bucket d f fn key (Some b) (n, x) bs w = (Ret None, (n, x @ out), bs, w)"
      using ne n by (simp add: read_bucket_def Let_def wrap64_id)
    then show ?thesis using that p(2-4) by blast
  qed
qed

lemma peek_loop_all:
  assumes "tracked d bs w C {}" "set ks \<subseteq> dom C" "f \<in> fork_names bs" "0 < n" "n < 2 ^ 63"
    "\<And>x items. fn x items = TxReturn (x @ items) ReadOpPeek None"
    "\<forall>k\<in>set ks. small bs w k" "0 < d_page d" "128 * d_page d < 2 ^ 62"
  shows "\<exists>outs bs' C'. iter_loop d load (read_bucket d f fn) ks (n, x) bs w = (Ret None, (n, x @ concat outs), bs', w) \<and>
    same_conf bs bs' \<and> tracked d bs' w C' {} \<and> (\<forall>k g. c_items d C' k g = c_items d C k g) \<and>
    list_all2 (\<lambda>k out. sorted (keys_of out) \<and> length out = min (nat n) (length (c_items d C k f)) \<and>
      (\<exists>rest. mset (c_items d C k f) = mset out + mset rest \<and> (\<forall>x\<in>set out. \<forall>y\<in>set rest. item_Key x \<le> item_Key y))) ks outs"
  using assms(1-5,7-9)
proof (induction ks arbitrary: bs C x)
  case Nil
  then show ?case by (intro exI [of _ "[]"] exI [of _ bs] exI [of _ C]) simp
next
  case (Cons key ks)
  have Ck: "C key \<noteq> None" using Cons.prems(2) by auto
  have sm: "small bs w key" using Cons.prems(6) by simp
  obtain b its bs1 where k: "forKey d key bs w = (Inr b, bs1, w)" "same_conf bs bs1" "tracked d bs1 w C {key}"
    "tree_get d key bs1 = Some (Some b)" "held d bs1 w key b its" "\<And>g. fork_items (d_index d) b g = c_items d C key g"
    "filed d bs1 w key b"
    using forKey_ok [OF Cons.prems(1) sm Cons.prems(7,8)] Ck by metis
  obtain v where v: "tree_get d key bs = Some v"
    using Cons.prems(2) keys_dom [OF Cons.prems(1)] tree_get_keys [of key bs] by auto
  have f1: "f \<in> fork_names bs1" using Cons.prems(3) held_conf(4) [OF k(2)] by simp
  obtain out where r: "read_bucket d f fn key (Some b) (n, x) bs1 w = (Ret None, (n, x @ out), bs1, w)"
    "sorted (keys_of out)" "length out = min (nat n) (length (c_items d C key f))"
    "\<exists>rest. mset (c_items d C key f) = mset out + mset rest \<and> (\<forall>x\<in>set out. \<forall>y\<in>set rest. item_Key x \<le> item_Key y)"
    using read_bucket_peek [OF k(4,5,7) f1 Cons.prems(4,5) assms(6)] unfolding k(6) by blast
  define C1 where "C1 = C(key \<mapsto> (b, its))"
  have t1: "tracked d bs1 w C1 {}" unfolding C1_def by (rule tracked_done [OF k(3,4,5,7)])
  have items: "c_items d C1 k' g = c_items d C k' g" for k' g using k(6) by (simp add: C1_def c_items_def)
  have IH: "\<exists>outs bs' C'. iter_loop d load (read_bucket d f fn) ks (n, x @ out) bs1 w = (Ret None, (n, (x @ out) @ concat outs), bs', w) \<and>
    same_conf bs1 bs' \<and> tracked d bs' w C' {} \<and> (\<forall>k g. c_items d C' k g = c_items d C1 k g) \<and>
    list_all2 (\<lambda>k out. sorted (keys_of out) \<and> length out = min (nat n) (length (c_items d C1 k f)) \<and>
      (\<exists>rest. mset (c_items d C1 k f) = mset out + mset rest \<and> (\<forall>x\<in>set out. \<forall>y\<in>set rest. item_Key x \<le> item_Key y))) ks outs"
  proof (rule Cons.IH [OF t1])
    show "set ks \<subseteq> dom C1" using Cons.prems(2) by (auto simp: C1_def)
    show "\<forall>k\<in>set ks. small bs1 w k" using Cons.prems(6) by (simp add: small_def held_conf [OF k(2)])
  qed (use f1 Cons.prems(4,5,7,8) in simp_all)
  then obtain outs bs' C' where i: "iter_loop d load (read_bucket d f fn) ks (n, x @ out) bs1 w = (Ret None, (n, (x @ out) @ concat outs), bs', w)"
    "same_conf bs1 bs'" "tracked d bs' w C' {}" "\<forall>k g. c_items d C' k g = c_items d C k g"
    "list_all2 (\<lambda>k out. sorted (keys_of out) \<and> length out = min (nat n) (length (c_items d C k f)) \<and>
      (\<exists>rest. mset (c_items d C k f) = mset out + mset rest \<and> (\<forall>x\<in>set out. \<forall>y\<in>set rest. item_Key x \<le> item_Key y))) ks outs"
    unfolding items by blast
  have "iter_loop d load (read_bucket d f fn) (key # ks) (n, x) bs w = (Ret None, (n, x @ concat (out # outs)), bs', w)"
    using v iter_fetch_load [OF v k(1)] r(1) i(1) by simp
  then show ?case using same_conf_trans [OF k(2) i(2)] i(3-5) r(2-4)
    by (intro exI [of _ "out # outs"] exI [of _ bs'] exI [of _ C']) simp
qed

end

lemma PeekCopy_Read:
  "consumes c f \<Longrightarrow> PeekCopy d c n q w =
     (case buckets_Read d n f (copy_items ReadOpPeek) [] (q_buckets q) w of
        (r, items, bs, w) \<Rightarrow> (go_bind r (\<lambda>e. Ret (items, e)), q\<lparr>q_buckets := bs\<rparr>, w))"
  by (auto simp: PeekCopy_def Consumer_Read_def Queue_Read_def Fork_Read_def consumes_def split: Consumer.splits prod.splits)

text \<open>
  C15 (peek, whole queue): on a queue in order, \<^verbatim>\<open>PeekCopy\<close> changes neither the files nor the items of
  any fork. Of each bucket it returns the \<^verbatim>\<open>n\<close> items with the smallest keys, one bucket after the
  other: the limit is per bucket, so that with several buckets more than \<^verbatim>\<open>n\<close> items are returned.
\<close>

theorem PeekCopy_per_bucket:
  assumes "queue_deps d" "buckets_ok d (q_buckets q) w" "consumes c f" "f \<in> fork_names (q_buckets q)" "0 < n" "n < 2 ^ 63"
    "\<forall>k\<in>set (tree_keys d (q_buckets q)). small (q_buckets q) w k" "0 < d_page d" "128 * d_page d < 2 ^ 62"
  shows "\<exists>outs q'. PeekCopy d c n q w = (Ret (concat outs, None), q', w) \<and> buckets_ok d (q_buckets q') w \<and>
    (\<forall>g\<in>fork_names (q_buckets q). mset (queue_items d g (q_buckets q') w) = mset (queue_items d g (q_buckets q) w)) \<and>
    list_all2 (\<lambda>k out. sorted (keys_of out) \<and> length out = min (nat n) (length (items_at d (q_buckets q) w k f)) \<and>
      (\<exists>rest. mset (items_at d (q_buckets q) w k f) = mset out + mset rest \<and>
        (\<forall>x\<in>set out. \<forall>y\<in>set rest. item_Key x \<le> item_Key y))) (tree_keys d (q_buckets q)) outs"
proof -
  let ?bs = "q_buckets q"
  obtain C where t: "tracked d ?bs w C {}" using assms(2) by (auto simp: buckets_ok_def)
  note dom = queue_deps.keys_dom [OF assms(1) t] and at = queue_deps.items_at_c [OF assms(1) t assms(4)]
  obtain outs bs' C' where p: "iter_loop d load (read_bucket d f (copy_items ReadOpPeek)) (tree_keys d ?bs) (n, []) ?bs w =
      (Ret None, (n, [] @ concat outs), bs', w)" "same_conf ?bs bs'" "tracked d bs' w C' {}"
    "\<forall>k g. c_items d C' k g = c_items d C k g"
    "list_all2 (\<lambda>k out. sorted (keys_of out) \<and> length out = min (nat n) (length (items_at d ?bs w k f)) \<and>
      (\<exists>rest. mset (items_at d ?bs w k f) = mset out + mset rest \<and>
        (\<forall>x\<in>set out. \<forall>y\<in>set rest. item_Key x \<le> item_Key y))) (tree_keys d ?bs) outs"
    using queue_deps.peek_loop_all [OF assms(1) t equalityD1 [OF dom] assms(4-6) copy_items_eq assms(7-9)] unfolding at by blast
  have "PeekCopy d c n q w = (Ret (concat outs, None), q\<lparr>q_buckets := bs'\<rparr>, w)"
    unfolding PeekCopy_Read [OF assms(3)] buckets_Read_def buckets_iter_def using p(1) assms(5) by simp
  moreover have "mset (queue_items d g bs' w) = mset (queue_items d g ?bs w)" if g: "g \<in> fork_names ?bs" for g
  proof -
    have S: "finite (dom C \<union> dom C')"
      using queue_deps.finite_tracked [OF assms(1) t] queue_deps.finite_tracked [OF assms(1) p(3)] by simp
    have g': "g \<in> fork_names bs'" using g held_conf(4) [OF p(2)] by simp
    show ?thesis
      using queue_deps.mset_queue_items [OF assms(1) t g S] queue_deps.mset_queue_items [OF assms(1) p(3) g' S] p(4) by simp
  qed
  ultimately show ?thesis using p(3,5)
    by (intro exI [of _ outs] exI [of _ "q\<lparr>q_buckets := bs'\<rparr>"]) (auto simp: buckets_ok_def)
qed

theorem PeekCopy_per_bucket_witness:
  "\<exists>q'. PeekCopy demo_deps QueueConsumer 5 re_queue re_world = (Ret ([wit_item 3], None), q', re_world)"
proof -
  have "items_at demo_deps (q_buckets re_queue) re_world (key_of_int 0) '''' = [wit_item 3]"
    using re_queue_ok(2,3) by (simp add: queue_items_def)
  moreover have "0 < d_page demo_deps" "128 * d_page demo_deps < 2 ^ 62" "(5 :: int) < 2 ^ 63" "consumes QueueConsumer ''''"
    by (simp_all add: demo_deps_def consumes_def)
  ultimately obtain outs q' where r: "PeekCopy demo_deps QueueConsumer 5 re_queue re_world = (Ret (concat outs, None), q', re_world)"
    "\<exists>out rest. outs = [out] \<and> length out = 1 \<and> mset [wit_item 3] = mset out + mset rest"
    using PeekCopy_per_bucket [OF demo.queue_deps_axioms re_queue_ok(1), of QueueConsumer "''''" 5] re_queue_ok(3,4) re_names
    by (auto simp: list_all2_Cons1)
  then obtain out rest where o: "outs = [out]" "length out = 1" "mset [wit_item 3] = mset out + mset rest" by blast
  then obtain x where "out = [x]" by (cases out) auto
  then show ?thesis using r(1) o by (auto simp: add_mset_eq_single)
qed

end
