(* ===== verification/Cmd.thy ===== *)
theory Cmd
  imports Api
begin

text \<open>
  The command line (src/cmd/parser/parser.go). github.com/urfave/cli parses the arguments; what its
  context answers is a parameter (\<open>cli\<close>), and so is how the operating system resolves the text of a
  path. The text written to the standard output is passed along. \<open>commands\<close> is the table of commands
  that \<^verbatim>\<open>Run\<close> hands to the package.
\<close>

record cli =
  cli_GlobalString :: "string \<Rightarrow> string"
  cli_GlobalDuration :: "string \<Rightarrow> int"
  cli_String :: "string \<Rightarrow> string"
  cli_Int :: "string \<Rightarrow> int"
  cli_Int64 :: "string \<Rightarrow> int"
  cli_IsSet :: "string \<Rightarrow> bool"
  cli_Args :: "string list"
  cli_resolve :: "string \<Rightarrow> path"

section \<open>Options\<close>

text \<open>The split function of the command: \<^verbatim>\<open>key / item.Key(bucketSize)\<close>, truncated towards zero\<close>

definition cmd_split :: "int \<Rightarrow> Key \<Rightarrow> Key" where
  "cmd_split bucketSize key = key_of_int (key_int key sdiv bucketSize)"

definition optionsFromCtx :: "cli \<Rightarrow> err + Options" where
  "optionsFromCtx ctx =
     (let mode = cli_GlobalString ctx ''sync-mode'';
          sync = (if mode = ''full'' then Some SyncFull else if mode = ''data'' then Some SyncData
                  else if mode = ''index'' then Some SyncIndex else if mode = ''none'' then Some SyncNone else None) in
      case sync of
        None \<Rightarrow> Inl (ErrInvalid ''invalid sync mode'')
      | Some sync \<Rightarrow>
          let bucketSize = cli_GlobalDuration ctx ''bucket-size'' in
          if bucketSize \<le> 0 then Inl (ErrInvalid ''invalid bucket size'')
          else Inr (DefaultOptions\<lparr>opt_SyncMode := sync,
                      opt_BucketSplitConf := \<lparr>conf_Func = Some (cmd_split bucketSize),
                                              conf_Name = ''cmd:'' @ show_int bucketSize\<rparr>\<rparr>))"

section \<open>Handlers\<close>

type_synonym ('m, 't) handler =
  "cli \<Rightarrow> ('m, 't) Queue \<Rightarrow> string \<Rightarrow> world \<Rightarrow> err option go \<times> ('m, 't) Queue \<times> string \<times> world"

definition newline :: string where "newline = [CHR 0x0A]"

text \<open>\<^verbatim>\<open>Item.String\<close> of src/item/item.go\<close>

definition Item_String :: "Item \<Rightarrow> string" where
  "Item_String i = Key_String (item_Key i) @ '':'' @ map (\<lambda>b. char_of (unat b)) (item_Blob i)"

definition withQueue :: "('m, 't) deps \<Rightarrow> ('m, 't) handler \<Rightarrow> cli \<Rightarrow> string \<Rightarrow> world \<Rightarrow> err option go \<times> string \<times> world" where
  "withQueue d fn ctx out w =
     (let dir = cli_resolve ctx (cli_GlobalString ctx ''dir'') in
      case optionsFromCtx ctx of
        Inl e \<Rightarrow> (Ret (Some e), out, w)
      | Inr opts \<Rightarrow>
     (case Open d dir opts w of
        (Inl e, w) \<Rightarrow> (Ret (Some e), out, w)
      | (Inr queue, w) \<Rightarrow>
     (case fn ctx queue out w of
        (Panic, queue, out, w) \<Rightarrow> (Panic, out, w)
      | (Ret (Some e), queue, out, w) \<Rightarrow>
          (case Queue_Close d queue w of (r, _, w) \<Rightarrow> (go_bind r (\<lambda>_. Ret (Some e)), out, w))
      | (Ret None, queue, out, w) \<Rightarrow>
          (case Queue_Close d queue w of (r, _, w) \<Rightarrow> (r, out, w)))))"

text \<open>The loop of \<^verbatim>\<open>handlePush\<close>; \<^verbatim>\<open>strings.SplitN(arg, ":", 2)\<close> cuts at the first colon.\<close>

fun push_args :: "string list \<Rightarrow> Items \<Rightarrow> err + Items" where
  "push_args [] items = Inr items"
| "push_args (arg # args) items =
     (if CHR '':'' \<notin> set arg then Inl (ErrInvalid ''invalid tuple'')
      else let name = takeWhile (\<lambda>c. c \<noteq> CHR '':'') arg; val = tl (dropWhile (\<lambda>c. c \<noteq> CHR '':'') arg) in
           case ParseInt name of
             Inl e \<Rightarrow> Inl e
           | Inr key \<Rightarrow> push_args args (items @ [\<lparr>item_Key = key_of_int key, item_Blob = string_bytes val\<rparr>]))"

definition handlePush :: "('m, 't) deps \<Rightarrow> ('m, 't) handler" where
  "handlePush d ctx q out w =
     (case push_args (cli_Args ctx) [] of
        Inl e \<Rightarrow> (Ret (Some e), q, out, w)
      | Inr items \<Rightarrow> (case Queue_Push d items q w of (e, q, w) \<Rightarrow> (Ret e, q, out, w)))"

definition handlePopOrPeek :: "('m, 't) deps \<Rightarrow> int \<Rightarrow> ('m, 't) handler" where
  "handlePopOrPeek d op ctx q out w =
     (let n = cli_Int ctx ''number'' in
      case Queue_Read d n (\<lambda>out items. TxReturn (out @ concat (map (\<lambda>it. Item_String it @ newline) items)) op None) out q w of
        (r, out, q, w) \<Rightarrow> (r, q, out, w))"

definition handlePop :: "('m, 't) deps \<Rightarrow> ('m, 't) handler" where
  "handlePop d = handlePopOrPeek d ReadOpPop"

definition handlePeek :: "('m, 't) deps \<Rightarrow> ('m, 't) handler" where
  "handlePeek d = handlePopOrPeek d ReadOpPeek"

definition handleLen :: "('m, 't) deps \<Rightarrow> ('m, 't) handler" where
  "handleLen d ctx q out w = (Ret None, q, out @ show_int (Queue_Len d q w) @ newline, w)"

definition handleClear :: "('m, 't) deps \<Rightarrow> ('m, 't) handler" where
  "handleClear d ctx q out w =
     (if \<not> cli_IsSet ctx ''to'' \<and> \<not> cli_IsSet ctx ''from''
      then let size = Queue_Len d q w in
           case Queue_Clear d q w of
             (Some e, q, w) \<Rightarrow> (Ret (Some e), q, out, w)
           | (None, q, w) \<Rightarrow> (Ret None, q, out @ ''deleted all '' @ show_int size @ '' items'' @ newline, w)
      else let from = (if \<not> cli_IsSet ctx ''from'' then - (2 ^ 63) else cli_Int64 ctx ''from'');
               to = (if \<not> cli_IsSet ctx ''to'' then 2 ^ 63 - 1 else cli_Int64 ctx ''to'') in
           case Queue_Delete d (key_of_int from) (key_of_int to) q w of
             ((deleted, Some e), q, w) \<Rightarrow> (Ret (Some e), q, out, w)
           | ((deleted, None), q, w) \<Rightarrow> (Ret None, q, out @ ''deleted '' @ show_int deleted @ '' items'' @ newline, w))"

text \<open>\<open>xdev\<close>: the destination is on another device.\<close>

definition handleShovel :: "('m, 't) deps \<Rightarrow> bool \<Rightarrow> ('m, 't) handler" where
  "handleShovel d xdev ctx srcQueue out w =
     (let dstDir = cli_resolve ctx (cli_String ctx ''dest'') in
      case optionsFromCtx ctx of
        Inl e \<Rightarrow> (Ret (Some e), srcQueue, out, w)
      | Inr dstOpts \<Rightarrow>
     (case Open d dstDir dstOpts w of
        (Inl e, w) \<Rightarrow> (Ret (Some e), srcQueue, out, w)
      | (Inr dstQueue, w) \<Rightarrow>
     (case Queue_Shovel d xdev dstQueue srcQueue w of
        (Panic, dstQueue, srcQueue, w) \<Rightarrow> (Panic, srcQueue, out, w)
      | (Ret (nShoveled, Some e), dstQueue, srcQueue, w) \<Rightarrow>
          (case Queue_Close d dstQueue w of (r, _, w) \<Rightarrow> (go_bind r (\<lambda>e'. Ret (join_err (Some e) e')), srcQueue, out, w))
      | (Ret (nShoveled, None), dstQueue, srcQueue, w) \<Rightarrow>
          (case Queue_Close d dstQueue w of
             (r, _, w) \<Rightarrow> (r, srcQueue, out @ ''moved '' @ show_int nShoveled @ '' items'' @ newline, w)))))"

text \<open>The loop of \<^verbatim>\<open>handleLogDump\<close>; \<^verbatim>\<open>%v\<close> prints a key with its \<^verbatim>\<open>String\<close> method.\<close>

function dump_loop :: "Log \<Rightarrow> Iter \<Rightarrow> string \<Rightarrow> unit go \<times> string" where
  "dump_loop log iter out =
     (case Iter_Next log iter of
        Panic \<Rightarrow> (Panic, out)
      | Ret (ok, iter) \<Rightarrow> if \<not> ok then (Ret (), out) else dump_loop log iter (out @ Item_String (it_item iter) @ newline))"
  by pat_completeness auto
termination
  by (relation "measure (\<lambda>(log, iter, out). unat (it_currLen iter))") (auto dest: Iter_Next_currLen)

declare dump_loop.simps [simp del]

definition handleLogDump :: "('m, 't) deps \<Rightarrow> cli \<Rightarrow> string \<Rightarrow> world \<Rightarrow> err option go \<times> string \<times> world" where
  "handleLogDump d ctx out w =
     (case vlog_Open (d_page d) (cli_resolve ctx (cli_String ctx ''path'')) True w of
        (Inl e, w) \<Rightarrow> (Ret (Some e), out, w)
      | (Inr log, w) \<Rightarrow>
          let loc = \<lparr>loc_Key = Key 0, loc_Off = 0, loc_Len = 10 ^ 9\<rparr> in
          case dump_loop log (Log_At loc True) out of
            (Panic, out) \<Rightarrow> (Panic, out, w)
          | (Ret _, out) \<Rightarrow> (case Log_Close log w of (e, w) \<Rightarrow> (Ret e, out, w)))"

definition handleForkCreate :: "('m, 't) deps \<Rightarrow> ('m, 't) handler" where
  "handleForkCreate d ctx q out w =
     (case Queue_Fork d (cli_String ctx ''name'') q w of
        (r, q, w) \<Rightarrow> (go_bind r (\<lambda>r. Ret (case r of Inl e \<Rightarrow> Some e | Inr _ \<Rightarrow> None)), q, out, w))"

definition handleForkList :: "('m, 't) handler" where
  "handleForkList ctx q out w = (Ret None, q, out @ concat (map (\<lambda>fork. fork @ newline) (Queue_Forks q)), w)"

definition handleForkRemove :: "('m, 't) deps \<Rightarrow> ('m, 't) handler" where
  "handleForkRemove d ctx q out w =
     (case Queue_Fork d (cli_String ctx ''name'') q w of
        (Panic, q, w) \<Rightarrow> (Panic, q, out, w)
      | (Ret (Inl e), q, w) \<Rightarrow> (Ret (Some e), q, out, w)
      | (Ret (Inr fork), q, w) \<Rightarrow> (case Fork_Remove d fork q w of (r, _, q, w) \<Rightarrow> (r, q, out, w)))"

section \<open>The table of commands\<close>

text \<open>
  The flags (name and short name) with their default or whether they are required; the parsing of the
  arguments by these declarations is left to the package, as are the texts of the help.
\<close>

datatype cli_flag =
    StringFlag (flag_Name: string) (flag_Value: string) (flag_Required: bool)
  | IntFlag (flag_Name: string) (flag_int: int) (flag_Required: bool)
  | Int64Flag (flag_Name: string)
  | DurationFlag (flag_Name: string) (flag_dur: int)

type_synonym action = "cli \<Rightarrow> string \<Rightarrow> world \<Rightarrow> err option go \<times> string \<times> world"

datatype command =
    Command (cmd_Name: string) (cmd_Aliases: "string list") (cmd_Flags: "cli_flag list") (cmd_Action: action)
  | CommandGroup (cmd_Name: string) (cmd_Subcommands: "command list")

definition global_flags :: "string \<Rightarrow> cli_flag list" where
  "global_flags cwd =
     [StringFlag ''dir'' cwd False, StringFlag ''sync-mode'' ''full'' False,
      DurationFlag ''bucket-size'' (30 * 60 * 10 ^ 9)]"

definition commands :: "('m, 't) deps \<Rightarrow> bool \<Rightarrow> command list" where
  "commands d xdev =
     [Command ''pop'' [] [IntFlag ''n,number'' 1 False] (withQueue d (handlePop d)),
      Command ''peek'' [] [IntFlag ''n,number'' 1 False] (withQueue d (handlePeek d)),
      Command ''push'' [] [] (withQueue d (handlePush d)),
      Command ''len'' [''l''] [] (withQueue d (handleLen d)),
      Command ''clear'' [''c''] [Int64Flag ''f,from'', Int64Flag ''t,to''] (withQueue d (handleClear d)),
      Command ''shovel'' [] [IntFlag ''d,dest'' 0 True] (withQueue d (handleShovel d xdev)),
      CommandGroup ''fork''
        [Command ''list'' [] [] (withQueue d handleForkList),
         Command ''create'' [] [StringFlag ''n,name'' '''' True] (withQueue d (handleForkCreate d)),
         Command ''remove'' [] [StringFlag ''n,name'' '''' True] (withQueue d (handleForkRemove d))],
      CommandGroup ''log''
        [Command ''dump'' [] [StringFlag ''p,path'' '''' True] (handleLogDump d)]]"

end
