(* ===== verification/Cmd_Correct.thy ===== *)
theory Cmd_Correct
  imports Cmd Queue_Open Recover
begin

text \<open>
  The command line: what it accepts as arguments, what it prints, and that its split function shuts a
  queue out after the first command.
\<close>

section \<open>The split function of the command\<close>

lemma cmd_split_fixed:
  assumes "1 < n" "cmd_split n k = k"
  shows "k = key_of_int 0"
proof (rule ccontr)
  assume "k \<noteq> key_of_int 0"
  let ?x = "key_int k"
  have "?x \<noteq> 0" using \<open>k \<noteq> key_of_int 0\<close> by (metis key_of_int_key_int)
  have "?x sdiv n = sgn ?x * (\<bar>?x\<bar> div n)" using assms(1) by (simp add: signed_divide_int_def)
  then have less: "\<bar>?x sdiv n\<bar> < \<bar>?x\<bar>"
    using int_div_less_self [of "\<bar>?x\<bar>" n] \<open>?x \<noteq> 0\<close> assms(1)
    by (simp add: abs_mult abs_sgn_eq pos_imp_zdiv_nonneg_iff)
  then have "key_int (cmd_split n k) = ?x sdiv n" using key_int_range [of k] unfolding cmd_split_def by simp
  then show False using assms(2) less by simp
qed

section \<open>Commands on a queue that has buckets\<close>

text \<open>
  C17 (second command): the split function of the command maps a key to the number of its bucket, and
  that number again to a smaller one unless it is zero. So with a bucket size of more than one
  nanosecond, once a queue has a bucket directory for another number than zero, every command
  on the queue fails while opening it, and the command's handler does not run: the output is unchanged
  and the result is the same for all handlers.
\<close>

theorem cmd_cannot_reopen:
  assumes "btree_map (d_tree d)" "1 < cli_GlobalDuration ctx ''bucket-size''"
    "node_at w (cli_resolve ctx (cli_GlobalString ctx ''dir'') @ [Key_String k]) = Some Dir" "k \<noteq> key_of_int 0"
  shows "\<exists>e w'. \<forall>fn out. withQueue d fn ctx out w = (Ret (Some e), out, w')"
proof (cases "optionsFromCtx ctx")
  case (Inl e)
  then show ?thesis by (intro exI [of _ e] exI [of _ w]) (simp add: withQueue_def Let_def)
next
  case (Inr opts)
  let ?dir = "cli_resolve ctx (cli_GlobalString ctx ''dir'')"
  have sf: "split_fn opts = cmd_split (cli_GlobalDuration ctx ''bucket-size'')"
    using Inr by (auto simp: optionsFromCtx_def Let_def split_fn_def split: option.splits if_splits)
  obtain r w' where o: "Open d ?dir opts w = (r, w')" by (cases "Open d ?dir opts w")
  show ?thesis
  proof (cases r)
    case (Inl e)
    then show ?thesis using o Inr by (intro exI [of _ e] exI [of _ w']) (simp add: withQueue_def Let_def)
  next
    case (Inr q)
    note f = Open_buckets [OF assms(1) o [unfolded Inr]]
    have "k \<in> set (tree_keys d (q_buckets q))" using f assms(3) Key_String_parses [of k] by blast
    then have "cmd_split (cli_GlobalDuration ctx ''bucket-size'') k = k" using f sf by simp
    then show ?thesis using cmd_split_fixed assms(2,4) by blast
  qed
qed

section \<open>Printing a value log\<close>

lemma dump_loop_all:
  assumes "scan_iter N done li" "log_rep l (done @ rest)" "\<forall>it\<in>set (done @ rest). valid_item it"
    "length (done @ rest) < unat N" "log_mmap l \<noteq> []"
  shows "dump_loop l li out = (Ret (), out @ concat (map (\<lambda>it. Item_String it @ newline) rest))"
  using assms
proof (induction rest arbitrary: "done" li out)
  case Nil
  then show ?case using scan_end [of l "done" N li] by (simp add: dump_loop.simps [of l li])
next
  case (Cons x xs)
  have "length done < unat N" using Cons.prems(4) by simp
  then obtain li1 where 1: "Iter_Next l li = Ret (True, li1)" "it_item li1 = x" "scan_iter N (done @ [x]) li1"
    using scan_Next [OF Cons.prems(2,3,1)] by metis
  have "dump_loop l li1 (out @ Item_String x @ newline) =
      (Ret (), (out @ Item_String x @ newline) @ concat (map (\<lambda>it. Item_String it @ newline) xs))"
    using Cons.prems by (intro Cons.IH [OF 1(3)]) simp_all
  then show ?case using 1(1,2) by (simp add: dump_loop.simps [of l li])
qed

text \<open>
  C18 (dump): \<^verbatim>\<open>log dump\<close> on an undamaged value log of fewer than a thousand million items prints every
  item of the log, popped or not, in the order in which they were pushed, a line each, and leaves the
  files as they are.
\<close>

theorem handleLogDump_prints_all:
  assumes "log_rep l its" "log_on_disk l w" "log_mmap l \<noteq> []" "w_faults w = []" "\<forall>it\<in>set its. valid_item it"
    "length its < 10 ^ 9" "cli_resolve ctx (cli_String ctx ''path'') = log_path l"
  shows "handleLogDump d ctx out w = (Ret None, out @ concat (map (\<lambda>it. Item_String it @ newline) its), w)"
proof -
  let ?l = "l\<lparr>log_syncOnWrite := True, log_isEmpty := False\<rparr>"
  let ?li = "Log_At \<lparr>loc_Key = Key 0, loc_Off = 0, loc_Len = 10 ^ 9\<rparr> True"
  have rep: "log_rep ?l ([] @ its)" using assms(1) by (simp add: log_rep_def wf_log_def used_def)
  have "unat (of_nat 1000000000 :: Off) = 1000000000" by (rule unat_of_nat64) simp
  then have len: "length ([] @ its) < unat (10 ^ 9 :: Off)" using assms(6) by simp
  have sc: "scan_iter (10 ^ 9) [] ?li" by (simp add: scan_iter_def Log_At_def)
  have "dump_loop ?l ?li out = (Ret (), out @ concat (map (\<lambda>it. Item_String it @ newline) its))"
    by (rule dump_loop_all [OF sc rep _ len]) (use assms(3,5) in simp_all)
  moreover have "Log_Close ?l w = (None, w)" using assms(4) by (simp add: Log_Close_def)
  ultimately show ?thesis
    using vlog_Open_existing [OF assms(1-4), of "d_page d" True] by (simp add: handleLogDump_def Let_def assms(7))
qed

section \<open>Arguments of push\<close>

text \<open>The argument that stands for an item: its key in decimal digits, a colon and its bytes\<close>

definition push_arg :: "Item \<Rightarrow> string" where
  "push_arg i = show_int (key_int (item_Key i)) @ '':'' @ map (\<lambda>b. char_of (unat b)) (item_Blob i)"

lemma ParseInt_show_int:
  assumes "- (2 ^ 63) \<le> i" "i < 2 ^ 63"
  shows "ParseInt (show_int i) = Inr i"
proof (cases "i < 0")
  case True
  then have "nat (- i) \<le> 2 ^ 63" using assms(1) by (simp add: nat_le_iff)
  then show ?thesis using True ParseInt_signed [of "show_nat (nat (- i))"] show_nat_digits
    by (simp add: show_int_def digits_val_show_nat)
next
  case False
  then have "nat i < 2 ^ 63" using assms(2) by (simp add: nat_less_iff)
  then show ?thesis using False ParseInt_unsigned [of "show_nat (nat i)"] show_nat_digits
    by (simp add: show_int_def digits_val_show_nat)
qed

lemma show_int_no_colon: "CHR '':'' \<notin> set (show_int i)"
  using show_nat_digits [of "CHR '':''"] by (auto simp: show_int_def is_digit_def)

lemma string_bytes_chars: "string_bytes (map (\<lambda>b. char_of (unat b)) bs) = bs"
  unfolding string_bytes_def
proof (induction bs)
  case (Cons b bs)
  have "(of_char (char_of (unat b)) :: 8 word) = of_nat (of_char (char_of (unat b)) :: nat)" by (simp only: of_nat_of_char)
  also have "\<dots> = of_nat (unat b mod 256)" by simp
  also have "\<dots> = b" using unsigned_less [of b, where ?'a = nat] by simp
  finally show ?case using Cons by simp
qed simp

lemma push_args_items: "push_args (map push_arg its) acc = Inr (acc @ its)"
proof (induction its arbitrary: acc)
  case (Cons i its)
  let ?s = "show_int (key_int (item_Key i))" and ?t = "map (\<lambda>b. char_of (unat b)) (item_Blob i)"
  have cut: "takeWhile (\<lambda>c. c \<noteq> CHR '':'') (push_arg i) = ?s" "tl (dropWhile (\<lambda>c. c \<noteq> CHR '':'') (push_arg i)) = ?t"
    using show_int_no_colon [of "key_int (item_Key i)"]
    by (auto simp: push_arg_def takeWhile_append dropWhile_append)
  have "CHR '':'' \<in> set (push_arg i)" by (simp add: push_arg_def)
  moreover have "ParseInt ?s = Inr (key_int (item_Key i))" using ParseInt_show_int key_int_range [of "item_Key i"] by blast
  ultimately show ?case using Cons by (simp add: cut string_bytes_chars)
qed simp

lemma push_args_invalid:
  assumes "\<exists>arg\<in>set args. CHR '':'' \<notin> set arg \<or> (\<exists>e. ParseInt (takeWhile (\<lambda>c. c \<noteq> CHR '':'') arg) = Inl e)"
  shows "\<exists>e. push_args args acc = Inl e"
  using assms
proof (induction args arbitrary: acc)
  case (Cons a args)
  then show ?case by (auto simp: Let_def split: sum.split)
qed simp

text \<open>
  C19 (arguments of push): the items that the arguments \<^verbatim>\<open>key:blob\<close> stand for are exactly the ones that
  \<^verbatim>\<open>push\<close> passes on to the queue, in their order, also when a blob contains colons or is empty; and if
  some argument is no such pair, nothing is pushed.
\<close>

theorem handlePush_arguments:
  "(\<forall>its ctx'. cli_Args ctx' = map push_arg its \<longrightarrow>
      handlePush d ctx' q out w = (case Queue_Push d its q w of (e, q, w) \<Rightarrow> (Ret e, q, out, w))) \<and>
   ((\<exists>arg\<in>set (cli_Args ctx). CHR '':'' \<notin> set arg \<or> (\<exists>e. ParseInt (takeWhile (\<lambda>c. c \<noteq> CHR '':'') arg) = Inl e)) \<longrightarrow>
      (\<exists>e. handlePush d ctx q out w = (Ret (Some e), q, out, w)))"
proof (intro conjI allI impI)
  show "handlePush d ctx' q out w = (case Queue_Push d its q w of (e, q, w) \<Rightarrow> (Ret e, q, out, w))"
    if "cli_Args ctx' = map push_arg its" for its ctx'
    using that by (simp add: handlePush_def push_args_items)
next
  assume "\<exists>arg\<in>set (cli_Args ctx). CHR '':'' \<notin> set arg \<or> (\<exists>e. ParseInt (takeWhile (\<lambda>c. c \<noteq> CHR '':'') arg) = Inl e)"
  then obtain e where "push_args (cli_Args ctx) [] = Inl e" using push_args_invalid by blast
  then show "\<exists>e. handlePush d ctx q out w = (Ret (Some e), q, out, w)" by (simp add: handlePush_def)
qed

section \<open>Concrete commands\<close>

definition demo_cli :: "string list \<Rightarrow> cli" where
  "demo_cli args =
     \<lparr>cli_GlobalString = (\<lambda>name. if name = ''sync-mode'' then ''full'' else ''''),
      cli_GlobalDuration = (\<lambda>_. 1800000000000), cli_String = (\<lambda>_. ''dat.log''), cli_Int = (\<lambda>_. 1), cli_Int64 = (\<lambda>_. 0),
      cli_IsSet = (\<lambda>_. False), cli_Args = args, cli_resolve = (\<lambda>s. if s = '''' then [] else [s])\<rparr>"

theorem cmd_cannot_reopen_witness:
  "\<exists>e w'. \<forall>fn out. withQueue demo_deps fn (demo_cli []) out
     \<lparr>w_fs = [([], Dir), ([Key_String (key_of_int 7)], Dir)], w_faults = []\<rparr> = (Ret (Some e), out, w')"
proof (rule cmd_cannot_reopen [where k = "key_of_int 7"])
  show "btree_map (d_tree demo_deps)" by (rule demo.tree.btree_map_axioms)
  show "key_of_int 7 \<noteq> key_of_int 0" by (simp add: key_of_int_def)
qed (simp_all add: demo_cli_def node_at_def)

theorem handleLogDump_prints_all_witness:
  "handleLogDump demo_deps (demo_cli []) [] wit_world = (Ret None, Item_String (wit_item 3) @ newline, wit_world)"
  using handleLogDump_prints_all [OF wit_rep wit_facts(1,3,2), of "demo_cli []" demo_deps "[]"]
  by (simp add: demo_cli_def wit_log_def)

theorem handlePush_arguments_witness:
  "\<exists>e. handlePush demo_deps (demo_cli [''3:a'', ''b'']) re_queue [] re_world = (Ret (Some e), re_queue, [], re_world)"
  using handlePush_arguments [of demo_deps re_queue "[]" re_world "demo_cli [''3:a'', ''b'']"] by (simp add: demo_cli_def)

end
