(* ===== verification/Spec2Isabelle.thy ===== *)
theory Spec2Isabelle
  imports Options Bucket_Delete Bucket_Open Recover Queue_Steps Buckets_Delete Queue_Refine Api_Correct Cmd_Correct
begin

text \<open>
  Verification of timeq, a priority queue in files (src/).

  \<^bold>\<open>The program.\<close> A queue holds items, a 64-bit key and a blob each; small keys come out first. Items
  are filed by key into buckets (src/buckets.go); a split function (src/options.go) maps each key to
  the key of its bucket. A bucket (src/bucket.go) is a directory named after its key. It holds one
  value log (src/vlog), an append-only file that is mapped into memory and takes the pushed batches
  one after the other, and for every fork of the queue an index (src/index): an ordered map from the
  first key of a batch to the batch's locations in the value log, together with a log of its changes
  from which it is rebuilt. A fork is a reading end of its own: pushing goes to the indexes of all
  forks, popping changes one of them. Reading merges the batches of a bucket, which may overlap, with
  a heap of iterators (src/vlog/heap.go). Only some buckets are loaded at a time; the others are
  files, and the collection keeps their lengths. src/api.go is the public interface.

  \<^bold>\<open>Theories and what they model.\<close>
  \<^item> Prelude: errors, results that may be a panic (\<open>go\<close>), \<^verbatim>\<open>int64\<close> wrap-around, bytes.
  \<^item> Os: files and directories, system calls, and the script of calls that fail.
  \<^item> Item (src/item/item.go): keys, items, locations, textual keys.
  \<^item> Options (src/options.go): modes, split configurations, \<^verbatim>\<open>Validate\<close>. Locales \<open>bucket_split\<close> and
    \<open>bucket_split_min\<close> say what the collection and \<^verbatim>\<open>bucket.Delete\<close> need of a split function.
  \<^item> Vlog (src/vlog/vlog.go, iter.go), Heap (src/vlog/heap.go).
  \<^item> Btree: the ordered map of github.com/tidwall/btree as a parameter, with its contract as the locale
    \<open>btree_map\<close>, interpreted on sorted association lists.
  \<^item> Index (src/index/index.go, reader.go, writer.go).
  \<^item> Bucket (src/bucket.go): all operations of a bucket.
  \<^item> Buckets (src/buckets.go, src/util.go): the collection. A bucket is a pointer in the code; the model
    keeps the bucket in the tree and remembers closed buckets, so that a pointer which outlives a
    close is followed correctly. The callback of \<^verbatim>\<open>Read\<close> is a tree of pushes and a result.
  \<^item> Api (src/api.go): \<^verbatim>\<open>Queue\<close>, \<^verbatim>\<open>Fork\<close>, \<^verbatim>\<open>Consumer\<close>, \<^verbatim>\<open>PopCopy\<close>, \<^verbatim>\<open>PeekCopy\<close>.
  \<^item> Cmd (src/cmd/parser/parser.go): the commands of the command line and what they print.

  State is passed explicitly: a function of the code that changes its receiver and does input or output
  takes and returns the receiver and the world. Errors are values of \<open>err\<close>, a run-time panic is the
  value \<open>Panic\<close>, and \<^verbatim>\<open>recover\<close> turns it into an error where the code does. The names are those of the
  code, with the receiver in front (\<open>bucket_Push\<close>, \<open>Queue_Push\<close>).

  \<^bold>\<open>Theories of proofs.\<close>
  \<^item> Vlog_Correct: what is pushed is read back, also after more pushes and after reopening; no read leaves
    the mapping; the search after damage moves on; a failed push keeps what was there.
  \<^item> Heap: push and fix keep the heap and its multiset.
  \<^item> Index_Correct: the index is a map to queues of locations; its log replays to it (locale
    \<open>index_btree\<close>). Recover: what is rebuilt from the value log if the index log is damaged.
  \<^item> Bucket_Peek, Bucket_Correct: reading gives the smallest items in order, popping removes exactly
    them, pushing adds exactly the batch, in memory and in the logs (\<open>bucket_ok\<close>).
  \<^item> Bucket_Delete: deleting a range; and a case where it takes the wrong batch.
  \<^item> Bucket_Open: opening a new and an existing bucket, forks, and that opening returns.
  \<^item> Buckets_Tree, Queue_Steps: the number of loaded buckets never exceeds its limit, in every state
    that calls can reach (\<open>queue_step\<close>), whatever system calls fail.
  \<^item> Buckets_Items: the abstract view \<open>queue_items\<close> of a queue (per fork, its items bucket by bucket, from
    memory or from the files) and the invariant \<open>buckets_ok\<close>. Buckets_Push, Buckets_Read,
    Buckets_Delete, Buckets_Fork: pushing, popping, clearing, deleting a range and forking keep the
    invariant and act on the view as on a priority queue. The locale \<open>queue_files\<close> of Buckets_Fork adds
    what is relied on of \<^verbatim>\<open>renameio.WriteFile\<close> and \<^verbatim>\<open>copy.Copy\<close>.
  \<^item> Queue_Open: the buckets that \<^verbatim>\<open>Open\<close> finds, and that closing and opening a queue keeps its items.
  \<^item> Queue_Refine: the specification of the whole. An abstract queue is a multiset of items per fork
    (\<open>spec_op\<close>, \<open>spec_run\<close>); from a new directory, every sequence of pushes, pops, deletions, clears,
    forks and restarts by the code (\<open>exec_op\<close>, \<open>exec_run\<close>) refines it, so every pushed item is popped
    exactly once.
  \<^item> Api_Correct: names of forks, removed forks, forks after opening, peeking.
  \<^item> Cmd_Correct: arguments of push, printing a value log, and why the second command fails.

  \<^bold>\<open>Code that is not in the repository\<close> is a parameter (\<open>deps\<close>): the ordered map, the page size,
  \<^verbatim>\<open>slices.SortFunc\<close> (a sorted permutation for a comparison that is one), \<^verbatim>\<open>copy.Copy\<close>,
  \<^verbatim>\<open>renameio.WriteFile\<close>, the Unicode tables. Its documented behaviour is in the locales \<open>btree_map\<close>,
  \<open>queue_deps\<close> and \<open>queue_files\<close>; \<open>demo_deps\<close> is an instance of all of them.

  \<^bold>\<open>Bounds and fuel.\<close> Loops are recursive functions with a termination proof. \<open>openBucket_rec\<close> has a depth, as
  the code calls itself after it removed an empty bucket; depth two is enough in every world
  (\<open>openBucket_returns\<close>). The theorems on undisturbed runs assume that no call fails, that blobs
  have at most 64 MiB (the reader skips larger ones), that a batch has fewer than \<open>2 ^ 32\<close> items (the
  length field of an index record), that value logs stay below \<open>2 ^ 62\<close> bytes and index logs below 32
  GiB (the counters of the index do not overflow), and that the keys of a pushed batch are less than
  \<open>2 ^ 63\<close> apart (beyond, the comparison of \<^verbatim>\<open>Push\<close> overflows).

  \<^bold>\<open>Not modelled.\<close> Concurrency: the mutex serialises the operations, which are modelled one after the
  other (\<^verbatim>\<open>buckets.Fork\<close> takes no lock). Crashes inside a call: a system call either happens or fails;
  torn index records are covered (\<open>Index_Load_replays\<close>). Messages to the logger and the texts of errors.
  The reuse of \<^verbatim>\<open>readBuf\<close>, which has no effect on results. Go slices are values: after \<^verbatim>\<open>Index.Copy\<close> the
  two indexes share the backing arrays of their location slices, and two appends to a shared array
  with spare capacity would overwrite each other; the model keeps them apart. \<^verbatim>\<open>PopCopy\<close> names its
  result before the call that fills it; the model takes the value after the call, as the compiler
  does. Of the command line, the flag parsing of github.com/urfave/cli is a parameter, and
  src/cmd/main.go only prints the error. src/item/testutils (helpers of the tests) is left out.

  \<^bold>\<open>Plan.\<close> Modelled and proved so far is what is listed above. Next: the length of the whole queue (which
  needs the trailers of the index logs in the invariant), removing forks of the whole queue, shovelling.
\<close>

end
